(* ===== verification/Prelude.thy ===== *)
theory Prelude
  imports Main "HOL-Library.Word"
begin

text \<open>
  Shared ground of the development: machine integers at their Rust width with the checked,
  saturating and big-endian operations the code calls, Rust arrays \<open>[u8; N]\<close> as the type
  \<open>'n arr\<close>, the ordered map of \<open>std::collections::BTreeMap\<close> as the type
  \<open>('k, 'v) btree\<close>, the \<open>Result\<close> type as a sum, and the lemma collections the component
  theories prove with. Everything here models the language or its standard library; nothing here
  models a file of the repository.
\<close>

named_theorems result_simps \<open>rewriting of Result values through the question-mark operator\<close>
named_theorems wire_simps \<open>lengths and inverses of the fixed-width wire encodings\<close>
named_theorems btree_simps \<open>lookup in an updated ordered map\<close>

section \<open>Machine integers\<close>

type_synonym u8 = "8 word"
type_synonym u16 = "16 word"
type_synonym u32 = "32 word"
type_synonym u64 = "64 word"

text \<open>
  Buffer lengths and queue lengths (\<open>usize\<close>) are \<open>nat\<close>; the arithmetic the code checks is
  checked against the bound of a 64-bit target.
\<close>

type_synonym usize = nat

definition usize_MAX :: usize where
  "usize_MAX = 2 ^ 64 - 1"

definition u32_MAX_nat :: nat where
  "u32_MAX_nat = 2 ^ 32 - 1"

text \<open>\<open>usize::checked_add\<close>, \<open>usize::saturating_add\<close>, \<open>u32::try_from(usize)\<close>.\<close>

definition usize_checked_add :: "usize \<Rightarrow> usize \<Rightarrow> usize option" where
  "usize_checked_add a b = (if a + b \<le> usize_MAX then Some (a + b) else None)"

definition usize_saturating_add :: "usize \<Rightarrow> usize \<Rightarrow> usize" where
  "usize_saturating_add a b = min (a + b) usize_MAX"

definition u32_try_from :: "usize \<Rightarrow> u32 option" where
  "u32_try_from n = (if n \<le> u32_MAX_nat then Some (word_of_nat n) else None)"

text \<open>\<open>u64::checked_add\<close>, \<open>saturating_add\<close> and \<open>saturating_sub\<close>.\<close>

definition u64_MAX :: u64 where
  "u64_MAX = - 1"

definition u64_checked_add :: "u64 \<Rightarrow> u64 \<Rightarrow> u64 option" where
  "u64_checked_add a b = (if unat a + unat b < 2 ^ 64 then Some (a + b) else None)"

definition u64_saturating_add :: "u64 \<Rightarrow> u64 \<Rightarrow> u64" where
  "u64_saturating_add a b = (if unat a + unat b < 2 ^ 64 then a + b else u64_MAX)"

definition u64_saturating_sub :: "u64 \<Rightarrow> u64 \<Rightarrow> u64" where
  "u64_saturating_sub a b = (if b \<le> a then a - b else 0)"

lemma unat_bound: "unat (w :: 'a::len word) < 2 ^ LENGTH('a)"
  by (rule unsigned_less)

lemma unat_u64_MAX: "unat u64_MAX = 2 ^ 64 - 1"
proof -
  have "unat (- 1 :: u64) = 2 ^ LENGTH(64) - 1"
    by (simp only: unsigned_minus_1_eq_mask mask_eq_exp_minus_1)
  then show ?thesis
    by (simp add: u64_MAX_def)
qed

lemma u64_le_MAX [simp]: "a \<le> u64_MAX"
  by (simp add: u64_MAX_def)

lemma unat_u64_bound: "unat (a :: u64) < 18446744073709551616"
  using unat_bound [of a] by simp

lemma unat_u32_bound: "unat (a :: u32) < 4294967296"
  using unat_bound [of a] by simp

lemma u64_checked_add_Some:
  "u64_checked_add a b = Some c \<longleftrightarrow> unat c = unat a + unat b"
proof
  assume "u64_checked_add a b = Some c"
  then show "unat c = unat a + unat b"
    by (auto simp: u64_checked_add_def unat_word_ariths split: if_splits)
next
  assume c: "unat c = unat a + unat b"
  then have lt: "unat a + unat b < 2 ^ 64"
    using unat_u64_bound [of c] by simp
  then have "unat (a + b) = unat c"
    using c by (simp add: unat_word_ariths)
  then have "a + b = c"
    by (rule word_unat_eq_iff [THEN iffD2])
  with lt show "u64_checked_add a b = Some c"
    by (simp only: u64_checked_add_def if_True)
qed

lemma u64_checked_add_1:
  "u64_checked_add a 1 = (if a = u64_MAX then None else Some (a + 1))"
proof (cases "a = u64_MAX")
  case True
  then show ?thesis
    by (simp add: u64_checked_add_def unat_u64_MAX)
next
  case False
  then have "unat a \<noteq> 2 ^ 64 - 1"
    by (metis unat_u64_MAX word_unat_eq_iff)
  then have "unat a + 1 < 2 ^ 64"
    using unat_u64_bound [of a] by simp
  then show ?thesis
    using False by (simp add: u64_checked_add_def)
qed

lemma u64_plus_1_unat: "a \<noteq> u64_MAX \<Longrightarrow> unat (a + 1 :: u64) = Suc (unat a)"
  using u64_checked_add_1 [of a] u64_checked_add_Some [of a 1 "a + 1"] by simp

lemma unat_strict_mono: "a \<le> b \<Longrightarrow> a \<noteq> b \<Longrightarrow> unat a < unat (b :: 'a::len word)"
  by (simp add: word_le_nat_alt order_less_le word_unat_eq_iff)

lemma unat_u64_saturating_sub: "unat (u64_saturating_sub a b) = unat a - unat b"
  by (auto simp: u64_saturating_sub_def unat_sub word_le_nat_alt)

lemma unat_u64_saturating_add:
  "unat (u64_saturating_add a b) = min (unat a + unat b) (2 ^ 64 - 1)"
  by (auto simp: u64_saturating_add_def unat_u64_MAX unat_word_ariths)

section \<open>Big-endian bytes\<close>

text \<open>
  \<open>to_be_bytes\<close> and \<open>from_be_bytes\<close> of the unsigned types, over one pair of functions on
  naturals: \<open>be_bytes n x\<close> is the \<open>n\<close>-byte big-endian form of \<open>x\<close>.
\<close>

fun be_bytes :: "nat \<Rightarrow> nat \<Rightarrow> u8 list" where
  "be_bytes 0 x = []"
| "be_bytes (Suc n) x = be_bytes n (x div 256) @ [word_of_nat (x mod 256)]"

definition be_value :: "u8 list \<Rightarrow> nat" where
  "be_value bs = foldl (\<lambda>acc b. 256 * acc + unat b) 0 bs"

lemma length_be_bytes [simp, wire_simps]: "length (be_bytes n x) = n"
  by (induction n arbitrary: x) auto

lemma be_value_Nil [simp]: "be_value [] = 0"
  by (simp add: be_value_def)

lemma be_value_snoc [simp]: "be_value (bs @ [b]) = 256 * be_value bs + unat b"
  by (simp add: be_value_def)

lemma be_value_be_bytes: "x < 256 ^ n \<Longrightarrow> be_value (be_bytes n x) = x"
proof (induction n arbitrary: x)
  case 0
  then show ?case by simp
next
  case (Suc n)
  from Suc.prems have "x div 256 < 256 ^ n"
    by (simp add: less_mult_imp_div_less mult.commute)
  then have "be_value (be_bytes n (x div 256)) = x div 256"
    by (rule Suc.IH)
  moreover have "unat (word_of_nat (x mod 256) :: u8) = x mod 256"
    by (simp add: unat_of_nat)
  ultimately show ?case by simp
qed

lemma be_value_bound: "be_value bs < 256 ^ length bs"
proof (induction bs rule: rev_induct)
  case Nil
  then show ?case by simp
next
  case (snoc b bs)
  have "unat b < 256"
    using unat_bound [of b] by simp
  with snoc show ?case by simp
qed

lemma be_bytes_be_value: "be_bytes (length bs) (be_value bs) = bs"
proof (induction bs rule: rev_induct)
  case Nil
  then show ?case by simp
next
  case (snoc b bs)
  have b: "unat b < 256"
    using unat_bound [of b] by simp
  then have "(256 * be_value bs + unat b) div 256 = be_value bs"
    and "(256 * be_value bs + unat b) mod 256 = unat b"
    by auto
  with snoc show ?case by simp
qed

definition u16_to_be :: "u16 \<Rightarrow> u8 list" where
  "u16_to_be w = be_bytes 2 (unat w)"

definition u32_to_be :: "u32 \<Rightarrow> u8 list" where
  "u32_to_be w = be_bytes 4 (unat w)"

definition u64_to_be :: "u64 \<Rightarrow> u8 list" where
  "u64_to_be w = be_bytes 8 (unat w)"

definition u16_from_be :: "u8 list \<Rightarrow> u16" where
  "u16_from_be bs = word_of_nat (be_value bs)"

definition u32_from_be :: "u8 list \<Rightarrow> u32" where
  "u32_from_be bs = word_of_nat (be_value bs)"

definition u64_from_be :: "u8 list \<Rightarrow> u64" where
  "u64_from_be bs = word_of_nat (be_value bs)"

lemma length_u16_to_be [simp, wire_simps]: "length (u16_to_be w) = 2"
  by (simp add: u16_to_be_def)

lemma length_u32_to_be [simp, wire_simps]: "length (u32_to_be w) = 4"
  by (simp add: u32_to_be_def)

lemma length_u64_to_be [simp, wire_simps]: "length (u64_to_be w) = 8"
  by (simp add: u64_to_be_def)

lemma u16_from_to_be [simp, wire_simps]: "u16_from_be (u16_to_be w) = w"
  using unat_bound [of w]
  by (simp add: u16_from_be_def u16_to_be_def be_value_be_bytes)

lemma u32_from_to_be [simp, wire_simps]: "u32_from_be (u32_to_be w) = w"
  using unat_bound [of w]
  by (simp add: u32_from_be_def u32_to_be_def be_value_be_bytes)

lemma u64_from_to_be [simp, wire_simps]: "u64_from_be (u64_to_be w) = w"
  using unat_bound [of w]
  by (simp add: u64_from_be_def u64_to_be_def be_value_be_bytes)

lemma u16_to_from_be: "length bs = 2 \<Longrightarrow> u16_to_be (u16_from_be bs) = bs"
  using be_value_bound [of bs] be_bytes_be_value [of bs]
  by (simp add: u16_from_be_def u16_to_be_def unat_of_nat)

lemma u32_to_from_be: "length bs = 4 \<Longrightarrow> u32_to_be (u32_from_be bs) = bs"
  using be_value_bound [of bs] be_bytes_be_value [of bs]
  by (simp add: u32_from_be_def u32_to_be_def unat_of_nat)

lemma u64_to_from_be: "length bs = 8 \<Longrightarrow> u64_to_be (u64_from_be bs) = bs"
  using be_value_bound [of bs] be_bytes_be_value [of bs]
  by (simp add: u64_from_be_def u64_to_be_def unat_of_nat)

lemma u16_to_be_inject [simp]: "u16_to_be a = u16_to_be b \<longleftrightarrow> a = b"
  by (metis u16_from_to_be)

lemma u32_to_be_inject [simp]: "u32_to_be a = u32_to_be b \<longleftrightarrow> a = b"
  by (metis u32_from_to_be)

lemma u64_to_be_inject [simp]: "u64_to_be a = u64_to_be b \<longleftrightarrow> a = b"
  by (metis u64_from_to_be)

lemma u32_try_from_Some:
  "u32_try_from n = Some w \<longleftrightarrow> unat w = n"
proof
  assume "u32_try_from n = Some w"
  then show "unat w = n"
    by (auto simp: u32_try_from_def u32_MAX_nat_def unat_of_nat split: if_splits)
next
  assume n: "unat w = n"
  then have "n \<le> u32_MAX_nat"
    using unat_bound [of w] by (simp add: u32_MAX_nat_def)
  with n show "u32_try_from n = Some w"
    by (auto simp: u32_try_from_def)
qed

lemma u32_try_from_None: "u32_try_from n = None \<longleftrightarrow> u32_MAX_nat < n"
  by (simp add: u32_try_from_def)

text \<open>The bytes of a byte-string literal \<open>b"..."\<close>.\<close>

definition byte_string :: "string \<Rightarrow> u8 list" where
  "byte_string s = map of_char s"

lemma length_byte_string [simp, wire_simps]: "length (byte_string s) = length s"
  by (simp add: byte_string_def)

section \<open>Fixed-size byte arrays\<close>

text \<open>Rust's \<open>[u8; N]\<close> is the type \<open>N arr\<close>: the byte lists of length \<open>N\<close>.\<close>

typedef (overloaded) 'n arr = "{xs :: u8 list. length xs = LENGTH('n::len)}"
  morphisms bytes Abs_arr
proof
  show "replicate LENGTH('n) 0 \<in> {xs :: u8 list. length xs = LENGTH('n)}"
    by simp
qed

text \<open>
  \<open>arr xs\<close> is the array holding \<open>xs\<close> when the length fits (\<open>copy_from_slice\<close>, which
  panics otherwise, is only ever called with a slice of the right length), \<open>fill b\<close> is
  \<open>[b; N]\<close>.
\<close>

definition arr :: "u8 list \<Rightarrow> 'n::len arr" where
  "arr xs = Abs_arr (take LENGTH('n) (xs @ replicate LENGTH('n) 0))"

definition fill :: "u8 \<Rightarrow> 'n::len arr" where
  "fill b = Abs_arr (replicate LENGTH('n) b)"

lemma Abs_arr_bytes [code abstype]: "Abs_arr (bytes a) = a"
  by (rule bytes_inverse)

lemma bytes_arr_code [code]:
  "bytes (arr xs :: 'n::len arr) = take LENGTH('n) (xs @ replicate LENGTH('n) 0)"
  by (simp add: arr_def Abs_arr_inverse)

lemma bytes_fill [simp, code]: "bytes (fill b :: 'n::len arr) = replicate LENGTH('n) b"
  by (simp add: fill_def Abs_arr_inverse)

lemma length_bytes [simp, wire_simps]: "length (bytes (a :: 'n::len arr)) = LENGTH('n)"
  using bytes [of a] by simp

lemma bytes_arr: "length xs = LENGTH('n::len) \<Longrightarrow> bytes (arr xs :: 'n arr) = xs"
  by (simp add: bytes_arr_code)

lemma arr_bytes [simp]: "arr (bytes a) = a"
  by (simp add: bytes_inject [symmetric] bytes_arr)

lemma bytes_eq_iff: "bytes a = bytes b \<longleftrightarrow> a = b"
  by (rule bytes_inject)

lemma fill_inject [simp]: "fill a = (fill b :: 'n::len arr) \<longleftrightarrow> a = b"
proof
  assume "fill a = (fill b :: 'n arr)"
  then have "replicate LENGTH('n) a = replicate LENGTH('n) b"
    by (metis bytes_fill)
  then show "a = b"
    by simp
qed simp

lemma arr_inject:
  assumes "length xs = LENGTH('n::len)" and "length ys = LENGTH('n)"
  shows "(arr xs :: 'n arr) = arr ys \<longleftrightarrow> xs = ys"
  using assms by (metis bytes_arr)

instantiation arr :: (len) equal
begin

definition equal_arr :: "'a arr \<Rightarrow> 'a arr \<Rightarrow> bool" where
  "equal_arr a b \<longleftrightarrow> bytes a = bytes b"

instance
  by standard (simp add: equal_arr_def bytes_eq_iff)

end

section \<open>Results\<close>

text \<open>
  \<open>Result<T, E>\<close> is the sum \<open>'e + 'a\<close>, \<open>Err\<close> on the left. \<open>and_then\<close> is the
  question-mark operator, \<open>ok_or\<close> and \<open>map_err\<close> are the methods of that name.
\<close>

abbreviation Ok :: "'a \<Rightarrow> 'e + 'a" where
  "Ok \<equiv> Inr"

abbreviation Err :: "'e \<Rightarrow> 'e + 'a" where
  "Err \<equiv> Inl"

definition and_then :: "'e + 'a \<Rightarrow> ('a \<Rightarrow> 'e + 'b) \<Rightarrow> 'e + 'b" where
  "and_then r f = (case r of Err e \<Rightarrow> Err e | Ok v \<Rightarrow> f v)"

definition ok_or :: "'a option \<Rightarrow> 'e \<Rightarrow> 'e + 'a" where
  "ok_or o' e = (case o' of None \<Rightarrow> Err e | Some v \<Rightarrow> Ok v)"

definition map_err :: "('e \<Rightarrow> 'f) \<Rightarrow> 'e + 'a \<Rightarrow> 'f + 'a" where
  "map_err f r = (case r of Err e \<Rightarrow> Err (f e) | Ok v \<Rightarrow> Ok v)"

definition is_ok :: "'e + 'a \<Rightarrow> bool" where
  "is_ok r \<longleftrightarrow> (case r of Err _ \<Rightarrow> False | Ok _ \<Rightarrow> True)"

lemma and_then_simps [simp]:
  "and_then (Ok v) f = f v" "and_then (Err e) f = Err e"
  by (simp_all add: and_then_def)

lemma ok_or_simps [simp]:
  "ok_or (Some v) e = Ok v" "ok_or None e = Err e"
  by (simp_all add: ok_or_def)

lemma map_err_simps [simp]:
  "map_err f (Ok v) = Ok v" "map_err f (Err e) = Err (f e)"
  by (simp_all add: map_err_def)

lemma is_ok_simps [simp]:
  "is_ok (Ok v)" "\<not> is_ok (Err e)"
  by (simp_all add: is_ok_def)

lemma and_then_Ok [result_simps]:
  "and_then r f = Ok w \<longleftrightarrow> (\<exists>v. r = Ok v \<and> f v = Ok w)"
  by (cases r) simp_all

lemma and_then_Err [result_simps]:
  "and_then r f = Err e \<longleftrightarrow> r = Err e \<or> (\<exists>v. r = Ok v \<and> f v = Err e)"
  by (cases r) auto

lemma ok_or_Ok [result_simps]: "ok_or x e = Ok v \<longleftrightarrow> x = Some v"
  by (cases x) simp_all

lemma ok_or_Err [result_simps]: "ok_or x e = Err e' \<longleftrightarrow> x = None \<and> e' = e"
  by (cases x) auto

lemma map_err_Ok [result_simps]: "map_err f r = Ok v \<longleftrightarrow> r = Ok v"
  by (cases r) simp_all

lemma map_err_Err [result_simps]: "map_err f r = Err e \<longleftrightarrow> (\<exists>e'. r = Err e' \<and> e = f e')"
  by (cases r) auto

lemma is_ok_iff: "is_ok r \<longleftrightarrow> (\<exists>v. r = Ok v)"
  by (cases r) simp_all

section \<open>Ordered maps\<close>

text \<open>
  \<open>BTreeMap<K, V>\<close> is the type of association lists sorted strictly by key: iteration is
  the list itself and two maps with the same entries are equal.
\<close>

typedef (overloaded) ('k, 'v) btree =
  "{xs :: ('k::linorder \<times> 'v) list. sorted_wrt (<) (map fst xs)}"
  morphisms entries Abs_btree
proof
  show "[] \<in> {xs :: ('k \<times> 'v) list. sorted_wrt (<) (map fst xs)}"
    by simp
qed

setup_lifting type_definition_btree

fun ins_sorted :: "'k::linorder \<Rightarrow> 'v \<Rightarrow> ('k \<times> 'v) list \<Rightarrow> ('k \<times> 'v) list" where
  "ins_sorted k v [] = [(k, v)]"
| "ins_sorted k v ((k', v') # xs) =
     (if k < k' then (k, v) # (k', v') # xs
      else if k = k' then (k, v) # xs
      else (k', v') # ins_sorted k v xs)"

lemma set_ins_sorted: "fst ` set (ins_sorted k v xs) = insert k (fst ` set xs)"
  by (induction k v xs rule: ins_sorted.induct) auto

lemma sorted_ins_sorted:
  "sorted_wrt (<) (map fst xs) \<Longrightarrow> sorted_wrt (<) (map fst (ins_sorted k v xs))"
proof (induction k v xs rule: ins_sorted.induct)
  case (1 k v)
  then show ?case by simp
next
  case (2 k v k' v' xs)
  then show ?case
    using set_ins_sorted [of k v xs] by force
qed

lemma map_of_ins_sorted:
  "sorted_wrt (<) (map fst xs) \<Longrightarrow> map_of (ins_sorted k v xs) = (map_of xs)(k \<mapsto> v)"
  by (induction k v xs rule: ins_sorted.induct) auto

lemma sorted_filter_keys:
  "sorted_wrt (<) (map fst xs) \<Longrightarrow> sorted_wrt (<) (map fst (filter P xs))"
  by (induction xs) auto

lift_definition bt_empty :: "('k::linorder, 'v) btree" is "[]"
  by simp

lift_definition bt_insert :: "'k::linorder \<Rightarrow> 'v \<Rightarrow> ('k, 'v) btree \<Rightarrow> ('k, 'v) btree" is ins_sorted
  by (rule sorted_ins_sorted)

lift_definition bt_retain :: "('k \<Rightarrow> 'v \<Rightarrow> bool) \<Rightarrow> ('k::linorder, 'v) btree \<Rightarrow> ('k, 'v) btree" is
  "\<lambda>P xs. filter (\<lambda>(k, v). P k v) xs"
  by (rule sorted_filter_keys)

definition bt_get :: "('k::linorder, 'v) btree \<Rightarrow> 'k \<Rightarrow> 'v option" where
  "bt_get m k = map_of (entries m) k"

definition bt_remove :: "'k::linorder \<Rightarrow> ('k, 'v) btree \<Rightarrow> ('k, 'v) btree" where
  "bt_remove k m = bt_retain (\<lambda>k' _. k' \<noteq> k) m"

definition bt_contains :: "('k::linorder, 'v) btree \<Rightarrow> 'k \<Rightarrow> bool" where
  "bt_contains m k \<longleftrightarrow> bt_get m k \<noteq> None"

definition bt_len :: "('k::linorder, 'v) btree \<Rightarrow> nat" where
  "bt_len m = length (entries m)"

lemma sorted_entries: "sorted_wrt (<) (map fst (entries m))"
  using entries [of m] by simp

lemma distinct_entries: "distinct (map fst (entries m))"
  using sorted_entries [of m] by (simp add: strict_sorted_iff)

lemma bt_get_empty [simp, btree_simps]: "bt_get bt_empty k = None"
  by (simp add: bt_get_def bt_empty.rep_eq)

lemma bt_get_insert [simp, btree_simps]:
  "bt_get (bt_insert k v m) k' = (if k' = k then Some v else bt_get m k')"
  using map_of_ins_sorted [OF sorted_entries [of m]]
  by (simp add: bt_get_def bt_insert.rep_eq)

lemma dom_bt_insert: "dom (bt_get (bt_insert k v m)) = insert k (dom (bt_get m))"
  by (auto simp: dom_def)

lemma map_of_filter_distinct:
  "distinct (map fst xs) \<Longrightarrow>
   map_of (filter (\<lambda>(k, v). P k v) xs) k =
     (case map_of xs k of None \<Rightarrow> None | Some v \<Rightarrow> if P k v then Some v else None)"
proof (induction xs)
  case Nil
  then show ?case by simp
next
  case (Cons x xs)
  obtain a b where x: "x = (a, b)" by fastforce
  from Cons.prems x have a: "map_of xs a = None"
    by (simp add: map_of_eq_None_iff)
  show ?case
    using Cons x a by (auto split: option.splits)
qed

lemma bt_get_retain [simp, btree_simps]:
  "bt_get (bt_retain P m) k =
     (case bt_get m k of None \<Rightarrow> None | Some v \<Rightarrow> if P k v then Some v else None)"
  by (simp add: bt_get_def bt_retain.rep_eq map_of_filter_distinct [OF distinct_entries])

lemma bt_get_remove [simp, btree_simps]:
  "bt_get (bt_remove k m) k' = (if k' = k then None else bt_get m k')"
  by (simp add: bt_remove_def split: option.split)

lemma dom_bt_remove: "dom (bt_get (bt_remove k m)) = dom (bt_get m) - {k}"
  by (auto simp: dom_def)

lemma bt_contains_iff: "bt_contains m k \<longleftrightarrow> k \<in> dom (bt_get m)"
  by (simp add: bt_contains_def dom_def)

lemma dom_bt_get: "dom (bt_get m) = fst ` set (entries m)"
  by (simp add: bt_get_def [abs_def] dom_map_of_conv_image_fst)

lemma finite_dom_bt_get [simp]: "finite (dom (bt_get m))"
  by (simp add: dom_bt_get)

lemma bt_len_card: "bt_len m = card (dom (bt_get m))"
  by (metis bt_len_def distinct_card distinct_entries dom_bt_get length_map list.set_map)

lemma bt_len_empty [simp]: "bt_len bt_empty = 0"
  by (simp add: bt_len_def bt_empty.rep_eq)

lemma bt_len_insert:
  "bt_len (bt_insert k v m) = (if bt_contains m k then bt_len m else Suc (bt_len m))"
  by (simp add: bt_len_card bt_contains_iff dom_bt_insert card_insert_if del: bt_get_insert)

lemma bt_len_retain_le: "bt_len (bt_retain P m) \<le> bt_len m"
  by (simp add: bt_len_def bt_retain.rep_eq)

lemma bt_len_remove:
  "bt_len (bt_remove k m) = (if bt_contains m k then bt_len m - 1 else bt_len m)"
  by (simp add: bt_len_card bt_contains_iff dom_bt_remove card_Diff_singleton_if del: bt_get_remove)

text \<open>Two ordered maps with the same lookups are the same value.\<close>

lemma sorted_assoc_unique:
  "sorted_wrt (<) (map fst xs) \<Longrightarrow> sorted_wrt (<) (map fst ys) \<Longrightarrow>
   map_of xs = map_of ys \<Longrightarrow> xs = (ys :: ('k::linorder \<times> 'v) list)"
proof (rule map_sorted_distinct_set_unique [where f = fst])
  assume s: "sorted_wrt (<) (map fst xs)" "sorted_wrt (<) (map fst ys)" and "map_of xs = map_of ys"
  then have "distinct (map fst xs)" "distinct (map fst ys)"
    by (simp_all add: strict_sorted_iff)
  with \<open>map_of xs = map_of ys\<close> show set: "set xs = set ys"
    by (metis map_of_inject_set)
  show "inj_on fst (set xs \<union> set ys)"
    using \<open>distinct (map fst xs)\<close> set by (simp add: distinct_map)
qed (simp_all add: strict_sorted_iff)

lemma btree_eqI: "(\<And>k. bt_get m k = bt_get m' k) \<Longrightarrow> m = m'"
  using sorted_assoc_unique [OF sorted_entries sorted_entries, of m m']
  by (simp add: bt_get_def entries_inject fun_eq_iff)

lemma bt_insert_same: "bt_get m k = Some v \<Longrightarrow> bt_insert k v m = m"
  by (rule btree_eqI) auto

lemma bt_remove_insert: "\<not> bt_contains m k \<Longrightarrow> bt_remove k (bt_insert k v m) = m"
  by (rule btree_eqI) (simp add: bt_contains_def)

instantiation btree :: (linorder, equal) equal
begin

definition equal_btree :: "('a, 'b) btree \<Rightarrow> ('a, 'b) btree \<Rightarrow> bool" where
  "equal_btree m m' \<longleftrightarrow> entries m = entries m'"

instance
  by standard (simp add: equal_btree_def entries_inject)

end

instantiation btree :: (linorder, type) size
begin

definition size_btree :: "('a, 'b) btree \<Rightarrow> nat" where
  "size_btree m = bt_len m"

instance ..

end

section \<open>Lists\<close>

text \<open>
  The subslice \<open>&xs[i..j]\<close>. Rust panics when \<open>j\<close> is past the end; every use in the model
  stands behind the length check of the code.
\<close>

definition slice :: "'a list \<Rightarrow> nat \<Rightarrow> nat \<Rightarrow> 'a list" where
  "slice xs i j = take (j - i) (drop i xs)"

lemma length_slice [simp, wire_simps]:
  "j \<le> length xs \<Longrightarrow> length (slice xs i j) = j - i"
  by (simp add: slice_def)

lemma slice_drop: "drop i xs = ys @ zs \<Longrightarrow> slice xs i (i + length ys) = ys"
  by (simp add: slice_def)

lemma drop_slice: "i \<le> j \<Longrightarrow> drop i xs = slice xs i j @ drop j xs"
  by (metis add_diff_inverse_nat append_take_drop_id drop_drop add.commute not_le slice_def)

lemma slice_append: "j \<le> length xs \<Longrightarrow> slice (xs @ ys) i j = slice xs i j"
  by (cases "i \<le> length xs") (simp_all add: slice_def)

lemma slice_take: "j \<le> k \<Longrightarrow> slice (take k xs) i j = slice xs i j"
  by (simp add: slice_def drop_take min_def)

lemma append_inject_length:
  "length xs = length xs' \<Longrightarrow> xs @ ys = xs' @ ys' \<longleftrightarrow> xs = xs' \<and> ys = ys'"
  by (rule append_eq_append_conv) simp

section \<open>Mutexes\<close>

text \<open>
  \<open>std::sync::Mutex\<close>: the guarded value and whether a panic has poisoned the lock. An operation
  that takes the lock answers its own error when it is poisoned; otherwise it runs as one step.
\<close>

record 'a mutex =
  mx_poisoned :: bool
  mx_value :: 'a

definition mutex_new :: "'a \<Rightarrow> 'a mutex" where
  "mutex_new v = \<lparr>mx_poisoned = False, mx_value = v\<rparr>"

definition with_lock ::
  "'e \<Rightarrow> ('a \<Rightarrow> ('e + 'r) \<times> 'a) \<Rightarrow> 'a mutex \<Rightarrow> ('e + 'r) \<times> 'a mutex" where
  "with_lock poisoned body m =
     (if mx_poisoned m then (Err poisoned, m)
      else (fst (body (mx_value m)), m\<lparr>mx_value := snd (body (mx_value m))\<rparr>))"

lemma mutex_new_simps [simp]: "\<not> mx_poisoned (mutex_new v)" "mx_value (mutex_new v) = v"
  by (simp_all add: mutex_new_def)

lemma with_lock_healthy:
  "\<not> mx_poisoned m \<Longrightarrow> with_lock e body m =
     (fst (body (mx_value m)), m\<lparr>mx_value := snd (body (mx_value m))\<rparr>)"
  by (simp add: with_lock_def)

lemma with_lock_poisoned [simp]:
  "mx_poisoned m \<Longrightarrow> with_lock e body m = (Err e, m)"
  "mx_poisoned (snd (with_lock e body m)) = mx_poisoned m"
  by (simp_all add: with_lock_def)

lemma with_lock_value:
  "mx_value (snd (with_lock e body m)) =
     (if mx_poisoned m then mx_value m else snd (body (mx_value m)))"
  by (simp add: with_lock_def)

end
