(* ===== verification/Contracts.thy ===== *)
theory Contracts
  imports Prelude
begin

text \<open>
  The interfaces the components share, each a locale whose assumptions are the laws a provider
  promises and whose lemmas are what a client may conclude. Every locale is interpreted on the
  model's own operations in the theory of the component that provides them:
  \<^item> \<open>wire_codec\<close> and \<open>framed_codec\<close>: a canonical, non-malleable byte encoding;
  \<^item> \<open>machine\<close>: a state, its operations and an invariant they keep, lifted to runs;
  \<^item> \<open>once_only\<close>: a machine that hands out each token at most once;
  \<^item> \<open>transactional\<close>: operations that leave the state alone when they fail;
  \<^item> \<open>refined_machine\<close>: a machine that implements an abstract one;
  \<^item> \<open>timed_equivalence\<close>: two machines that answer alike while a clock runs forward.
\<close>

section \<open>Canonical encodings\<close>

text \<open>
  An encoder that may refuse a value and a decoder that may refuse bytes. The two laws say that
  they are inverse to each other: what was encoded decodes to itself, and whatever the decoder
  accepts is exactly the encoding of what it returns.
\<close>

locale wire_codec =
  fixes enc :: "'a \<Rightarrow> 'e + u8 list"
    and dec :: "u8 list \<Rightarrow> 'd + 'a"
    and valid :: "'a \<Rightarrow> bool"
  assumes dec_enc: "valid x \<Longrightarrow> enc x = Ok bs \<Longrightarrow> dec bs = Ok x"
    and enc_dec: "dec bs = Ok x \<Longrightarrow> valid x \<and> enc x = Ok bs"
begin

lemma accepts_iff: "dec bs = Ok x \<longleftrightarrow> valid x \<and> enc x = Ok bs"
  using dec_enc enc_dec by blast

lemma enc_injective: "valid x \<Longrightarrow> valid y \<Longrightarrow> enc x = Ok bs \<Longrightarrow> enc y = Ok bs \<Longrightarrow> x = y"
  using dec_enc by (metis sum.inject(2))

lemma non_malleable: "dec bs = Ok x \<Longrightarrow> dec bs' = Ok x \<Longrightarrow> bs = bs'"
  using enc_dec by (metis sum.inject(2))

end

text \<open>A framed codec also refuses trailing bytes, so no encoding is a prefix of another.\<close>

locale framed_codec = wire_codec enc dec valid
  for enc :: "'a \<Rightarrow> 'e + u8 list" and dec :: "u8 list \<Rightarrow> 'd + 'a" and valid :: "'a \<Rightarrow> bool" +
  assumes no_trailing: "dec bs = Ok x \<Longrightarrow> dec (bs @ ys) = Ok y \<Longrightarrow> ys = []"
begin

lemma prefix_free:
  "valid x \<Longrightarrow> valid y \<Longrightarrow> enc x = Ok bs \<Longrightarrow> enc y = Ok (bs @ ys) \<Longrightarrow> x = y \<and> ys = []"
  using dec_enc no_trailing by (metis append_Nil2 sum.inject(2))

end

section \<open>Machines\<close>

text \<open>A run applies a list of inputs in order and collects the outputs.\<close>

fun run :: "('i \<Rightarrow> 's \<Rightarrow> 'o \<times> 's) \<Rightarrow> 'i list \<Rightarrow> 's \<Rightarrow> 'o list \<times> 's" where
  "run step [] s = ([], s)"
| "run step (i # is) s =
     (let (out, s') = step i s; (outs, s'') = run step is s' in (out # outs, s''))"

lemma run_Cons_state [simp]: "snd (run step (i # is) s) = snd (run step is (snd (step i s)))"
  by (simp add: case_prod_unfold Let_def)

lemma run_Cons_outputs [simp]:
  "fst (run step (i # is) s) = fst (step i s) # fst (run step is (snd (step i s)))"
  by (simp add: case_prod_unfold Let_def)

declare run.simps(2) [simp del]

lemma length_run [simp]: "length (fst (run step is s)) = length is"
  by (induction "is" arbitrary: s) auto

lemma run_append_state: "snd (run step (is @ js) s) = snd (run step js (snd (run step is s)))"
  by (induction "is" arbitrary: s) auto

lemma run_append_outputs:
  "fst (run step (is @ js) s) = fst (run step is s) @ fst (run step js (snd (run step is s)))"
  by (induction "is" arbitrary: s) auto

locale machine =
  fixes step :: "'i \<Rightarrow> 's \<Rightarrow> 'o \<times> 's"
    and inv :: "'s \<Rightarrow> bool"
  assumes step_inv: "inv s \<Longrightarrow> inv (snd (step i s))"
begin

lemma run_inv: "inv s \<Longrightarrow> inv (snd (run step is s))"
  by (induction "is" arbitrary: s) (auto intro: step_inv)

lemma run_prefix_inv: "inv s \<Longrightarrow> inv (snd (run step (take n is) s))"
  by (rule run_inv)

end

section \<open>Tokens that are handed out once\<close>

text \<open>
  \<open>grant i out\<close> is the token, if any, that the operation \<open>i\<close> handed out when it answered
  \<open>out\<close>; \<open>spent s k\<close> says that \<open>k\<close> can not be handed out any more.
\<close>

definition granted :: "('i \<Rightarrow> 'o \<Rightarrow> 'k option) \<Rightarrow> 'i list \<Rightarrow> 'o list \<Rightarrow> 'k list" where
  "granted grant is outs = List.map_filter (\<lambda>(i, out). grant i out) (zip is outs)"

lemma granted_simps [simp]:
  "granted grant [] [] = []"
  "granted grant (i # is) (out # outs) =
     (case grant i out of None \<Rightarrow> granted grant is outs | Some k \<Rightarrow> k # granted grant is outs)"
  by (simp_all add: granted_def List.map_filter_simps split: option.splits)

lemma granted_Cons:
  "granted grant (i # is) (out # outs) = granted grant [i] [out] @ granted grant is outs"
  by (simp split: option.split)

locale once_only = machine step inv
  for step :: "'i \<Rightarrow> 's \<Rightarrow> 'o \<times> 's" and inv :: "'s \<Rightarrow> bool" +
  fixes grant :: "'i \<Rightarrow> 'o \<Rightarrow> 'k option"
    and spent :: "'s \<Rightarrow> 'k \<Rightarrow> bool"
  assumes grant_fresh: "inv s \<Longrightarrow> grant i (fst (step i s)) = Some k \<Longrightarrow> \<not> spent s k"
    and grant_spends: "inv s \<Longrightarrow> grant i (fst (step i s)) = Some k \<Longrightarrow> spent (snd (step i s)) k"
    and spent_stays: "inv s \<Longrightarrow> spent s k \<Longrightarrow> spent (snd (step i s)) k"
begin

lemma spent_not_granted:
  "inv s \<Longrightarrow> spent s k \<Longrightarrow> k \<notin> set (granted grant is (fst (run step is s)))"
proof (induction "is" arbitrary: s)
  case Nil
  then show ?case by simp
next
  case (Cons i "is")
  have "inv (snd (step i s))" "spent (snd (step i s)) k"
    using Cons.prems by (auto intro: step_inv spent_stays)
  then have "k \<notin> set (granted grant is (fst (run step is (snd (step i s)))))"
    by (rule Cons.IH)
  then show ?case
    using grant_fresh Cons.prems by (auto split: option.splits)
qed

lemma granted_once: "inv s \<Longrightarrow> distinct (granted grant is (fst (run step is s)))"
proof (induction "is" arbitrary: s)
  case Nil
  then show ?case by simp
next
  case (Cons i "is")
  have inv: "inv (snd (step i s))"
    using Cons.prems by (rule step_inv)
  then have "distinct (granted grant is (fst (run step is (snd (step i s)))))"
    by (rule Cons.IH)
  then show ?case
    using spent_not_granted [OF inv] grant_spends [OF Cons.prems] by (auto split: option.splits)
qed

end

section \<open>Operations that roll back\<close>

locale transactional =
  fixes op :: "'i \<Rightarrow> 's \<Rightarrow> ('e + 'a) \<times> 's"
  assumes rollback: "fst (op i s) = Err e \<Longrightarrow> snd (op i s) = s"
begin

lemma failed_run: "\<forall>r \<in> set (fst (run op is s)). \<not> is_ok r \<Longrightarrow> snd (run op is s) = s"
proof (induction "is" arbitrary: s)
  case Nil
  then show ?case by simp
next
  case (Cons i "is")
  then obtain e where "fst (op i s) = Err e"
    by (cases "fst (op i s)") auto
  then have "snd (op i s) = s"
    by (rule rollback)
  with Cons show ?case by simp
qed

text \<open>Failed operations can be left out of a run without changing where it ends.\<close>

lemma run_successes:
  "snd (run op is s) = snd (run op (map fst (filter (\<lambda>(i, r). is_ok r)
                                     (zip is (fst (run op is s))))) s)"
proof (induction "is" arbitrary: s)
  case Nil
  then show ?case by simp
next
  case (Cons i "is")
  show ?case
  proof (cases "fst (op i s)")
    case (Inl e)
    then have "snd (op i s) = s"
      by (rule rollback)
    then show ?thesis
      using Inl Cons.IH [of s] by simp
  next
    case (Inr v)
    then show ?thesis
      using Cons.IH [of "snd (op i s)"] by simp
  qed
qed

end

section \<open>Refinement\<close>

locale refined_machine = machine cstep inv
  for cstep :: "'i \<Rightarrow> 's \<Rightarrow> 'o \<times> 's" and inv :: "'s \<Rightarrow> bool" +
  fixes astep :: "'i \<Rightarrow> 't \<Rightarrow> 'o \<times> 't"
    and abs :: "'s \<Rightarrow> 't"
  assumes simulates: "inv s \<Longrightarrow> astep i (abs s) = (fst (cstep i s), abs (snd (cstep i s)))"
begin

lemma run_simulates:
  "inv s \<Longrightarrow> run astep is (abs s) = (fst (run cstep is s), abs (snd (run cstep is s)))"
proof (induction "is" arbitrary: s)
  case Nil
  then show ?case by simp
next
  case (Cons i "is")
  have "inv (snd (cstep i s))"
    using Cons.prems by (rule step_inv)
  then show ?case
    using Cons.IH simulates [OF Cons.prems, of i] by (simp add: prod_eq_iff)
qed

end

section \<open>Equivalence under a clock\<close>

text \<open>
  Two machines that answer alike as long as the readings \<open>at\<close> of a clock in their inputs never go
  back: \<open>rel T s t\<close> relates their states at time \<open>T\<close>.
\<close>

locale timed_equivalence =
  fixes cstep :: "'i \<Rightarrow> 's \<Rightarrow> 'o \<times> 's" and astep :: "'i \<Rightarrow> 't \<Rightarrow> 'o \<times> 't"
    and at :: "'i \<Rightarrow> nat" and rel :: "nat \<Rightarrow> 's \<Rightarrow> 't \<Rightarrow> bool"
  assumes same_answer: "rel T s t \<Longrightarrow> T \<le> at i \<Longrightarrow> fst (cstep i s) = fst (astep i t)"
    and stay_related: "rel T s t \<Longrightarrow> T \<le> at i \<Longrightarrow> rel (at i) (snd (cstep i s)) (snd (astep i t))"
begin

lemma same_answers:
  "rel T s t \<Longrightarrow> sorted (T # map at is) \<Longrightarrow> fst (run cstep is s) = fst (run astep is t)"
proof (induction "is" arbitrary: T s t)
  case (Cons i "is")
  then have "T \<le> at i" "sorted (at i # map at is)"
    by simp_all
  then show ?case
    using Cons.IH [OF stay_related [OF Cons.prems(1)]] same_answer [OF Cons.prems(1)] by simp
qed simp

end

end
