(* ===== verification/Transport.thy ===== *)
theory Transport
  imports Contracts
begin

text \<open>
  The crate \<open>core/transport\<close>: frame kinds, frames with their validation and binary form, and the
  bounded outbound queue. The queue is a machine over its two operations; its runs are compared
  with an unbounded first-in first-out history.
\<close>

section \<open>Frames\<close>

definition TRANSPORT_PROTOCOL_VERSION :: u16 where
  "TRANSPORT_PROTOCOL_VERSION = 1"

definition HEADER_LEN :: usize where
  "HEADER_LEN = 8"

definition MAX_FRAME :: usize where
  "MAX_FRAME = 16 * 1024 * 1024"

definition MAX_QUEUE :: usize where
  "MAX_QUEUE = 1024"

datatype FrameKind =
  ClientHello | EncryptedMessageFrame | MessageAck | MessageBatch
| PreKeyBundleFrame | PreKeyRequest | Ping | Pong

datatype FrameError =
  FrameInvalidVersion | UnknownKind | EmptyPayload | PayloadTooLarge | FrameLengthMismatch
| FrameTruncated

text \<open>\<open>kind as u8\<close>, the discriminants of the \<open>repr(u8)\<close> enum, and its partial inverse.\<close>

fun FrameKind_as_u8 :: "FrameKind \<Rightarrow> u8" where
  "FrameKind_as_u8 ClientHello = 1"
| "FrameKind_as_u8 EncryptedMessageFrame = 2"
| "FrameKind_as_u8 MessageAck = 3"
| "FrameKind_as_u8 MessageBatch = 4"
| "FrameKind_as_u8 PreKeyBundleFrame = 5"
| "FrameKind_as_u8 PreKeyRequest = 6"
| "FrameKind_as_u8 Ping = 7"
| "FrameKind_as_u8 Pong = 8"

definition FrameKind_try_from :: "u8 \<Rightarrow> FrameError + FrameKind" where
  "FrameKind_try_from value =
     (if value = 1 then Ok ClientHello
      else if value = 2 then Ok EncryptedMessageFrame
      else if value = 3 then Ok MessageAck
      else if value = 4 then Ok MessageBatch
      else if value = 5 then Ok PreKeyBundleFrame
      else if value = 6 then Ok PreKeyRequest
      else if value = 7 then Ok Ping
      else if value = 8 then Ok Pong
      else Err UnknownKind)"

record FrameHeader =
  fh_version :: u16
  fh_kind :: u8
  fh_flags :: u8
  fh_payload_len :: u32

record Frame =
  fr_header :: FrameHeader
  fr_payload :: "u8 list"

definition Frame_new :: "FrameKind \<Rightarrow> u8 \<Rightarrow> u8 list \<Rightarrow> FrameError + Frame" where
  "Frame_new kind flags payload =
     (if payload = [] then Err EmptyPayload
      else if MAX_FRAME < length payload then Err PayloadTooLarge
      else Ok \<lparr>fr_header = \<lparr>fh_version = TRANSPORT_PROTOCOL_VERSION, fh_kind = FrameKind_as_u8 kind,
                            fh_flags = flags, fh_payload_len = word_of_nat (length payload)\<rparr>,
               fr_payload = payload\<rparr>)"

definition Frame_kind :: "Frame \<Rightarrow> FrameError + FrameKind" where
  "Frame_kind f = FrameKind_try_from (fh_kind (fr_header f))"

definition Frame_validate :: "Frame \<Rightarrow> FrameError + unit" where
  "Frame_validate f =
     (if fh_version (fr_header f) \<noteq> TRANSPORT_PROTOCOL_VERSION then Err FrameInvalidVersion
      else and_then (Frame_kind f) (\<lambda>_.
        if fr_payload f = [] then Err EmptyPayload
        else if MAX_FRAME < length (fr_payload f) then Err PayloadTooLarge
        else if unat (fh_payload_len (fr_header f)) \<noteq> length (fr_payload f)
          then Err FrameLengthMismatch
        else Ok ()))"

definition Frame_to_bytes :: "Frame \<Rightarrow> FrameError + u8 list" where
  "Frame_to_bytes f =
     and_then (Frame_validate f) (\<lambda>_.
     and_then (ok_or (usize_checked_add HEADER_LEN (length (fr_payload f))) PayloadTooLarge)
       (\<lambda>total.
     Ok (u16_to_be (fh_version (fr_header f)) @ [fh_kind (fr_header f)] @ [fh_flags (fr_header f)] @
         u32_to_be (fh_payload_len (fr_header f)) @ fr_payload f)))"

definition Frame_from_bytes :: "u8 list \<Rightarrow> FrameError + Frame" where
  "Frame_from_bytes bs =
     (if length bs < HEADER_LEN then Err FrameTruncated
      else let version = u16_from_be [bs ! 0, bs ! 1];
               kind = bs ! 2;
               flags = bs ! 3;
               payload_len = u32_from_be [bs ! 4, bs ! 5, bs ! 6, bs ! 7];
               payload_len_usize = unat payload_len
        in
        if payload_len_usize = 0 then Err EmptyPayload
        else if MAX_FRAME < payload_len_usize then Err PayloadTooLarge
        else and_then (ok_or (usize_checked_add HEADER_LEN payload_len_usize) PayloadTooLarge)
          (\<lambda>expected.
            if length bs \<noteq> expected then Err FrameLengthMismatch
            else let frame = \<lparr>fr_header = \<lparr>fh_version = version, fh_kind = kind, fh_flags = flags,
                                           fh_payload_len = payload_len\<rparr>,
                              fr_payload = drop HEADER_LEN bs\<rparr>
              in and_then (Frame_validate frame) (\<lambda>_. Ok frame)))"

section \<open>The outbound queue\<close>

datatype QueueError = QueueFull

record OutboundQueue =
  oq_inner :: "Frame list"
  oq_capacity :: usize

definition OutboundQueue_new :: "usize \<Rightarrow> OutboundQueue" where
  "OutboundQueue_new capacity = \<lparr>oq_inner = [], oq_capacity = min capacity MAX_QUEUE\<rparr>"

definition OutboundQueue_push ::
  "Frame \<Rightarrow> OutboundQueue \<Rightarrow> (QueueError + unit) \<times> OutboundQueue" where
  "OutboundQueue_push frame q =
     (if oq_capacity q \<le> length (oq_inner q) then (Err QueueFull, q)
      else (Ok (), q\<lparr>oq_inner := oq_inner q @ [frame]\<rparr>))"

definition OutboundQueue_pop :: "OutboundQueue \<Rightarrow> Frame option \<times> OutboundQueue" where
  "OutboundQueue_pop q =
     (case oq_inner q of [] \<Rightarrow> (None, q) | f # fs \<Rightarrow> (Some f, q\<lparr>oq_inner := fs\<rparr>))"

definition OutboundQueue_len :: "OutboundQueue \<Rightarrow> usize" where
  "OutboundQueue_len q = length (oq_inner q)"

definition OutboundQueue_is_empty :: "OutboundQueue \<Rightarrow> bool" where
  "OutboundQueue_is_empty q \<longleftrightarrow> oq_inner q = []"

text \<open>The queue as a machine: its operations, its answers, one step.\<close>

datatype queue_op = QPush Frame | QPop

datatype queue_answer = QPushed "QueueError + unit" | QPopped "Frame option"

fun queue_step :: "queue_op \<Rightarrow> OutboundQueue \<Rightarrow> queue_answer \<times> OutboundQueue" where
  "queue_step (QPush frame) q = map_prod QPushed id (OutboundQueue_push frame q)"
| "queue_step QPop q = map_prod QPopped id (OutboundQueue_pop q)"

section \<open>The frame codec\<close>

lemma FrameKind_try_from_Ok:
  "FrameKind_try_from b = Ok k \<longleftrightarrow> FrameKind_as_u8 k = b"
  by (cases k) (auto simp: FrameKind_try_from_def split: if_splits)

lemma FrameKind_try_from_Err:
  "FrameKind_try_from b = Err e \<longleftrightarrow> e = UnknownKind \<and> (b = 0 \<or> 8 < b)"
proof -
  have "b \<in> {1..8} \<longleftrightarrow> b = 1 \<or> b = 2 \<or> b = 3 \<or> b = 4 \<or> b = 5 \<or> b = 6 \<or> b = 7 \<or> b = 8"
    unfolding atLeastAtMost_iff by (auto simp: word_le_nat_alt word_unat_eq_iff)
  moreover have "b \<in> {1..8} \<longleftrightarrow> \<not> (b = 0 \<or> 8 < b)"
    by (auto simp: word_le_nat_alt word_less_nat_alt word_unat_eq_iff)
  ultimately show ?thesis
    by (auto simp: FrameKind_try_from_def split: if_splits)
qed

definition frame_wire :: "Frame \<Rightarrow> u8 list" where
  "frame_wire f =
     u16_to_be (fh_version (fr_header f)) @ [fh_kind (fr_header f), fh_flags (fr_header f)] @
     u32_to_be (fh_payload_len (fr_header f)) @ fr_payload f"

lemma Frame_validate_Ok:
  "Frame_validate f = Ok () \<longleftrightarrow>
     fh_version (fr_header f) = TRANSPORT_PROTOCOL_VERSION \<and>
     (\<exists>k. FrameKind_as_u8 k = fh_kind (fr_header f)) \<and>
     0 < length (fr_payload f) \<and> length (fr_payload f) \<le> MAX_FRAME \<and>
     unat (fh_payload_len (fr_header f)) = length (fr_payload f)"
  by (auto simp: Frame_validate_def Frame_kind_def result_simps FrameKind_try_from_Ok
      split: if_splits)

lemma header_fits: "n \<le> MAX_FRAME \<Longrightarrow> usize_checked_add HEADER_LEN n = Some (8 + n)"
  by (simp add: usize_checked_add_def HEADER_LEN_def MAX_FRAME_def usize_MAX_def)

lemma Frame_to_bytes_Ok:
  "Frame_to_bytes f = Ok bs \<longleftrightarrow> Frame_validate f = Ok () \<and> bs = frame_wire f"
  by (auto simp: Frame_to_bytes_def frame_wire_def result_simps Frame_validate_Ok header_fits)

lemma length_2_split: "length bs = 2 \<Longrightarrow> \<exists>a b. bs = [a, b]"
  by (auto simp: length_Suc_conv numeral_eq_Suc)

lemma length_4_split: "length bs = 4 \<Longrightarrow> \<exists>a b c d. bs = [a, b, c, d]"
  by (auto simp: length_Suc_conv numeral_eq_Suc)

lemma length_8_split:
  "length bs = 8 \<Longrightarrow> \<exists>a0 a1 k fl l0 l1 l2 l3. bs = [a0, a1, k, fl, l0, l1, l2, l3]"
  by (auto simp: length_Suc_conv numeral_eq_Suc)

lemma length_frame_wire: "length (frame_wire f) = 8 + length (fr_payload f)"
  by (simp add: frame_wire_def)

lemma header_split:
  assumes "8 \<le> length bs"
  obtains a0 a1 k fl l0 l1 l2 l3 rest where "bs = [a0, a1, k, fl, l0, l1, l2, l3] @ rest"
proof -
  have "length (take 8 bs) = 8"
    using assms by simp
  then obtain a0 a1 k fl l0 l1 l2 l3 where "take 8 bs = [a0, a1, k, fl, l0, l1, l2, l3]"
    using length_8_split by blast
  then have "bs = [a0, a1, k, fl, l0, l1, l2, l3] @ drop 8 bs"
    by (metis append_take_drop_id)
  then show thesis
    by (rule that)
qed

lemma Frame_from_bytes_wire:
  assumes v: "Frame_validate f = Ok ()"
  shows "Frame_from_bytes (frame_wire f) = Ok f"
proof -
  obtain a b where ab: "u16_to_be (fh_version (fr_header f)) = [a, b]"
    using length_2_split [OF length_u16_to_be] by blast
  obtain l0 l1 l2 l3 where l: "u32_to_be (fh_payload_len (fr_header f)) = [l0, l1, l2, l3]"
    using length_4_split [OF length_u32_to_be] by blast
  have version: "u16_from_be [a, b] = fh_version (fr_header f)"
    and len: "u32_from_be [l0, l1, l2, l3] = fh_payload_len (fr_header f)"
    using u16_from_to_be u32_from_to_be by (metis ab, metis l)
  have payload: "unat (fh_payload_len (fr_header f)) = length (fr_payload f)"
    "0 < length (fr_payload f)" "length (fr_payload f) \<le> MAX_FRAME"
    using v by (simp_all add: Frame_validate_Ok)
  have wire: "frame_wire f =
      [a, b, fh_kind (fr_header f), fh_flags (fr_header f), l0, l1, l2, l3] @ fr_payload f"
    by (simp add: frame_wire_def ab l)
  have eta: "\<lparr>fr_header = \<lparr>fh_version = fh_version (fr_header f), fh_kind = fh_kind (fr_header f),
      fh_flags = fh_flags (fr_header f), fh_payload_len = fh_payload_len (fr_header f)\<rparr>,
      fr_payload = fr_payload f\<rparr> = f"
    by (cases f) simp
  show ?thesis
    unfolding wire Frame_from_bytes_def
    using v payload header_fits [OF payload(3)] by (simp add: version len HEADER_LEN_def Let_def eta)
qed

lemma Frame_from_bytes_Ok:
  assumes d: "Frame_from_bytes bs = Ok f"
  shows "Frame_validate f = Ok () \<and> bs = frame_wire f"
proof -
  have "8 \<le> length bs"
    using d by (auto simp: Frame_from_bytes_def HEADER_LEN_def split: if_splits)
  then obtain a0 a1 k fl l0 l1 l2 l3 rest where
    bs: "bs = [a0, a1, k, fl, l0, l1, l2, l3] @ rest"
    by (rule header_split)
  from d have f: "f = \<lparr>fr_header = \<lparr>fh_version = u16_from_be [a0, a1], fh_kind = k, fh_flags = fl,
      fh_payload_len = u32_from_be [l0, l1, l2, l3]\<rparr>, fr_payload = rest\<rparr>"
    and "Frame_validate f = Ok ()"
    unfolding bs Frame_from_bytes_def
    by (auto simp: HEADER_LEN_def Let_def result_simps split: if_splits)
  then show ?thesis
    by (simp add: bs frame_wire_def u16_to_from_be u32_to_from_be)
qed

interpretation frame: framed_codec Frame_to_bytes Frame_from_bytes "\<lambda>_. True"
proof unfold_locales
  fix f bs
  assume "Frame_to_bytes f = Ok bs"
  then show "Frame_from_bytes bs = Ok f"
    by (auto simp: Frame_to_bytes_Ok Frame_from_bytes_wire)
next
  fix bs f
  assume "Frame_from_bytes bs = Ok f"
  then show "True \<and> Frame_to_bytes f = Ok bs"
    using Frame_from_bytes_Ok by (simp add: Frame_to_bytes_Ok)
next
  fix bs f ys g
  assume d: "Frame_from_bytes bs = Ok f" "Frame_from_bytes (bs @ ys) = Ok g"
  then have v: "Frame_validate f = Ok ()" "Frame_validate g = Ok ()"
    and w: "bs = frame_wire f" "bs @ ys = frame_wire g"
    using Frame_from_bytes_Ok by blast+
  have header: "take 8 (bs @ ys) = take 8 bs"
    using w(1) by (simp add: frame_wire_def)
  have "u32_to_be (fh_payload_len (fr_header g)) = drop 4 (take 8 (bs @ ys))"
    unfolding w(2) by (simp add: frame_wire_def)
  also have "\<dots> = u32_to_be (fh_payload_len (fr_header f))"
    unfolding header w(1) by (simp add: frame_wire_def)
  finally have "length (fr_payload g) = length (fr_payload f)"
    using v by (simp add: Frame_validate_Ok)
  then have "length (bs @ ys) = length bs"
    by (simp only: w(2)) (simp only: w(1) length_frame_wire)
  then show "ys = []"
    by simp
qed

section \<open>The queue as a bounded first-in first-out history\<close>

text \<open>The frames accepted and the frames delivered by a run, in order.\<close>

fun pushed :: "queue_op \<Rightarrow> queue_answer \<Rightarrow> Frame option" where
  "pushed (QPush frame) (QPushed (Ok ())) = Some frame"
| "pushed _ _ = None"

fun popped :: "queue_op \<Rightarrow> queue_answer \<Rightarrow> Frame option" where
  "popped QPop (QPopped (Some frame)) = Some frame"
| "popped _ _ = None"

definition queue_bounded :: "usize \<Rightarrow> OutboundQueue \<Rightarrow> bool" where
  "queue_bounded cap q \<longleftrightarrow> oq_capacity q = cap \<and> length (oq_inner q) \<le> cap"

lemma queue_step_bounded: "queue_bounded cap q \<Longrightarrow> queue_bounded cap (snd (queue_step i q))"
  by (cases i) (auto simp: queue_bounded_def OutboundQueue_push_def OutboundQueue_pop_def
      split: list.split)

interpretation queue: machine queue_step "queue_bounded cap"
  by unfold_locales (rule queue_step_bounded)

text \<open>One step keeps the balance: what is held and what is delivered is what was accepted.\<close>

lemma queue_step_balance:
  "oq_inner q @ (case pushed i (fst (queue_step i q)) of None \<Rightarrow> [] | Some f \<Rightarrow> [f]) =
   (case popped i (fst (queue_step i q)) of None \<Rightarrow> [] | Some f \<Rightarrow> [f]) @
   oq_inner (snd (queue_step i q))"
  by (cases i) (auto simp: OutboundQueue_push_def OutboundQueue_pop_def split: list.split)

lemma queue_run_balance:
  "oq_inner q @ granted pushed ops (fst (run queue_step ops q)) =
   granted popped ops (fst (run queue_step ops q)) @ oq_inner (snd (run queue_step ops q))"
proof (induction ops arbitrary: q)
  case Nil
  then show ?case by simp
next
  case (Cons i ops)
  show ?case
    using Cons.IH [of "snd (queue_step i q)"] queue_step_balance [of q i]
    by (auto split: option.splits) (metis append_Cons append_assoc append_Nil)+
qed


section \<open>Properties\<close>

text \<open>
  C29. A byte string decodes to a frame exactly when that frame validates and encodes to that very
  string: framing round-trips and is non-malleable, with no trailing or missing byte accepted.
\<close>

theorem frame_codec_exact:
  "Frame_from_bytes bs = Ok f \<longleftrightarrow> Frame_to_bytes f = Ok bs"
  using frame.accepts_iff [of bs f] by simp

text \<open>
  A frame built by the constructor always encodes, and what comes back from the wire is the
  same frame, of the same kind: nothing \<open>Frame::new\<close> returns is refused by the peer.
\<close>

lemma frame_new_round_trip:
  assumes "Frame_new kind flags payload = Ok f"
  shows "Frame_kind f = Ok kind \<and> fr_payload f = payload \<and>
    (\<exists>bs. Frame_to_bytes f = Ok bs \<and> length bs = HEADER_LEN + length payload \<and>
          Frame_from_bytes bs = Ok f)"
proof -
  have f: "f = \<lparr>fr_header = \<lparr>fh_version = TRANSPORT_PROTOCOL_VERSION,
      fh_kind = FrameKind_as_u8 kind, fh_flags = flags,
      fh_payload_len = word_of_nat (length payload)\<rparr>, fr_payload = payload\<rparr>"
    and len: "payload \<noteq> []" "length payload \<le> MAX_FRAME"
    using assms by (auto simp: Frame_new_def split: if_splits)
  have "unat (word_of_nat (length payload) :: u32) = length payload"
    using len(2) by (simp add: unat_of_nat MAX_FRAME_def)
  with len have v: "Frame_validate f = Ok ()"
    by (auto simp: Frame_validate_Ok f)
  moreover have "Frame_kind f = Ok kind"
    by (simp add: Frame_kind_def f FrameKind_try_from_Ok)
  ultimately show ?thesis
    using Frame_from_bytes_wire [OF v]
    by (simp add: Frame_to_bytes_Ok length_frame_wire HEADER_LEN_def) (simp add: f)
qed

text \<open>
  The outbound queue is first-in first-out and loses nothing: over any run from a new queue,
  the frames accepted are, in order, the frames delivered followed by the frames still held; and
  it never holds more than its capacity, itself never more than 1024.
\<close>

theorem queue_fifo_bounded:
  "let (answers, q) = run queue_step ops (OutboundQueue_new cap)
   in granted pushed ops answers = granted popped ops answers @ oq_inner q \<and>
      OutboundQueue_len q \<le> min cap MAX_QUEUE"
proof -
  let ?q = "OutboundQueue_new cap"
  have "queue_bounded (min cap MAX_QUEUE) ?q"
    by (simp add: queue_bounded_def OutboundQueue_new_def)
  then have "queue_bounded (min cap MAX_QUEUE) (snd (run queue_step ops ?q))"
    by (rule queue.run_inv)
  moreover have "oq_inner ?q = []"
    by (simp add: OutboundQueue_new_def)
  ultimately show ?thesis
    using queue_run_balance [of ?q ops]
    by (simp add: case_prod_unfold queue_bounded_def OutboundQueue_len_def)
qed

end
