(* ===== verification/Protocol.thy ===== *)
theory Protocol
  imports Contracts
begin

text \<open>
  The crate \<open>core/protocol\<close>: the public prekey bundle and its validation, the ratchet header
  codec, the encrypted message and its binary codec, and the acknowledgement codec. Readers keep
  the code's cursor; the lemmas about them speak of the bytes from the cursor on.
\<close>

section \<open>Versions and prekey bundles\<close>

definition PROTOCOL_VERSION :: u16 where
  "PROTOCOL_VERSION = 1"

definition RATCHET_HEADER_VERSION :: u16 where
  "RATCHET_HEADER_VERSION = 1"

definition MAX_ONE_TIME_PREKEYS :: usize where
  "MAX_ONE_TIME_PREKEYS = 1024"

datatype ProtocolVersion = ProtocolVersion (version_number: u16)

record OneTimePrekeyPublic =
  opk_key_id :: u32
  opk_public_key :: "32 arr"

record PreKeyBundle =
  pb_protocol_version :: ProtocolVersion
  pb_device_id :: "16 arr"
  pb_identity_signing_key :: "32 arr"
  pb_identity_agreement_key :: "32 arr"
  pb_signed_prekey_id :: u32
  pb_signed_prekey :: "32 arr"
  pb_signed_prekey_signature :: "64 arr"
  pb_one_time_prekeys :: "OneTimePrekeyPublic list"

datatype PreKeyBundleError =
  InvalidVersion | ZeroDeviceId | ZeroIdentityKey | ZeroAgreementKey | ZeroSignedPrekey
| TooManyOneTimePrekeys | DuplicateOneTimePrekeyId | ZeroOneTimePrekey

text \<open>The loop of \<open>validate\<close> over the one-time prekeys, with its set of seen identifiers.\<close>

fun validate_one_time_prekeys ::
  "u32 set \<Rightarrow> OneTimePrekeyPublic list \<Rightarrow> PreKeyBundleError + unit" where
  "validate_one_time_prekeys ids [] = Ok ()"
| "validate_one_time_prekeys ids (key # keys) =
     (if opk_public_key key = fill 0 then Err ZeroOneTimePrekey
      else if opk_key_id key \<in> ids then Err DuplicateOneTimePrekeyId
      else validate_one_time_prekeys (insert (opk_key_id key) ids) keys)"

definition PreKeyBundle_validate :: "PreKeyBundle \<Rightarrow> PreKeyBundleError + unit" where
  "PreKeyBundle_validate b =
     (if version_number (pb_protocol_version b) \<noteq> PROTOCOL_VERSION then Err InvalidVersion
      else if pb_device_id b = fill 0 then Err ZeroDeviceId
      else if pb_identity_signing_key b = fill 0 then Err ZeroIdentityKey
      else if pb_identity_agreement_key b = fill 0 then Err ZeroAgreementKey
      else if pb_signed_prekey b = fill 0 then Err ZeroSignedPrekey
      else if MAX_ONE_TIME_PREKEYS < length (pb_one_time_prekeys b) then Err TooManyOneTimePrekeys
      else validate_one_time_prekeys {} (pb_one_time_prekeys b))"

section \<open>Ratchet headers\<close>

record RatchetHeader =
  rh_version :: u16
  rh_message_counter :: u64

datatype RatchetHeaderError = HeaderTruncated | HeaderInvalidVersion | HeaderTrailingBytes

definition RATCHET_HEADER_ENCODED_LEN :: usize where
  "RATCHET_HEADER_ENCODED_LEN = 10"

definition RatchetHeader_new :: "u64 \<Rightarrow> RatchetHeader" where
  "RatchetHeader_new message_counter =
     \<lparr>rh_version = RATCHET_HEADER_VERSION, rh_message_counter = message_counter\<rparr>"

definition RatchetHeader_encode :: "RatchetHeader \<Rightarrow> 10 arr" where
  "RatchetHeader_encode h = arr (u16_to_be (rh_version h) @ u64_to_be (rh_message_counter h))"

definition RatchetHeader_decode :: "u8 list \<Rightarrow> RatchetHeaderError + RatchetHeader" where
  "RatchetHeader_decode bs =
     (if length bs < RATCHET_HEADER_ENCODED_LEN then Err HeaderTruncated
      else if RATCHET_HEADER_ENCODED_LEN < length bs then Err HeaderTrailingBytes
      else let version = u16_from_be [bs ! 0, bs ! 1] in
        if version \<noteq> RATCHET_HEADER_VERSION then Err HeaderInvalidVersion
        else Ok \<lparr>rh_version = version, rh_message_counter = u64_from_be (drop 2 bs)\<rparr>)"

section \<open>Encrypted messages\<close>

record EncryptedMessage =
  em_version :: ProtocolVersion
  em_message_id :: "16 arr"
  em_conversation_id :: "16 arr"
  em_sender_device_id :: "16 arr"
  em_recipient_device_id :: "16 arr"
  em_ratchet_header :: "u8 list"
  em_ciphertext :: "u8 list"
  em_sent_at_ms :: u64

datatype MessageCodecError =
  Truncated | CodecInvalidVersion | LengthOverflow | LengthMismatch | TrailingBytes

definition EncryptedMessage_new ::
  "16 arr \<Rightarrow> 16 arr \<Rightarrow> 16 arr \<Rightarrow> 16 arr \<Rightarrow> u8 list \<Rightarrow> u8 list \<Rightarrow> u64 \<Rightarrow> EncryptedMessage" where
  "EncryptedMessage_new message_id conversation_id sender recipient header ciphertext sent_at_ms =
     \<lparr>em_version = ProtocolVersion PROTOCOL_VERSION, em_message_id = message_id,
      em_conversation_id = conversation_id, em_sender_device_id = sender,
      em_recipient_device_id = recipient, em_ratchet_header = header,
      em_ciphertext = ciphertext, em_sent_at_ms = sent_at_ms\<rparr>"

text \<open>The chain of \<open>checked_add\<close> calls that computes the capacity of the output buffer.\<close>

fun checked_sum :: "usize \<Rightarrow> usize list \<Rightarrow> usize option" where
  "checked_sum acc [] = Some acc"
| "checked_sum acc (n # ns) = Option.bind (usize_checked_add acc n) (\<lambda>acc'. checked_sum acc' ns)"

definition EncryptedMessage_encode :: "EncryptedMessage \<Rightarrow> MessageCodecError + u8 list" where
  "EncryptedMessage_encode m =
     and_then (ok_or (u32_try_from (length (em_ratchet_header m))) LengthOverflow) (\<lambda>header_len.
     and_then (ok_or (u32_try_from (length (em_ciphertext m))) LengthOverflow) (\<lambda>ciphertext_len.
     and_then (ok_or (checked_sum 2 [16 * 4, 4, length (em_ratchet_header m), 4,
                                     length (em_ciphertext m), 8]) LengthOverflow) (\<lambda>total.
     Ok (u16_to_be (version_number (em_version m)) @ bytes (em_message_id m) @
         bytes (em_conversation_id m) @ bytes (em_sender_device_id m) @
         bytes (em_recipient_device_id m) @
         u32_to_be header_len @ em_ratchet_header m @
         u32_to_be ciphertext_len @ em_ciphertext m @ u64_to_be (em_sent_at_ms m)))))"

text \<open>
  The readers. Each takes the buffer and the cursor and returns the value and the moved cursor.
\<close>

definition read_u16 :: "u8 list \<Rightarrow> usize \<Rightarrow> MessageCodecError + u16 \<times> usize" where
  "read_u16 bs cursor =
     (if length bs - cursor < 2 then Err Truncated
      else Ok (u16_from_be [bs ! cursor, bs ! (cursor + 1)], cursor + 2))"

definition read_u32 :: "u8 list \<Rightarrow> usize \<Rightarrow> MessageCodecError + u32 \<times> usize" where
  "read_u32 bs cursor =
     (if length bs - cursor < 4 then Err Truncated
      else Ok (u32_from_be (slice bs cursor (cursor + 4)), cursor + 4))"

definition read_u64 :: "u8 list \<Rightarrow> usize \<Rightarrow> MessageCodecError + u64 \<times> usize" where
  "read_u64 bs cursor =
     (if length bs - cursor < 8 then Err Truncated
      else Ok (u64_from_be (slice bs cursor (cursor + 8)), cursor + 8))"

definition read_array_16 :: "u8 list \<Rightarrow> usize \<Rightarrow> MessageCodecError + 16 arr \<times> usize" where
  "read_array_16 bs cursor =
     (if length bs - cursor < 16 then Err Truncated
      else Ok (arr (slice bs cursor (cursor + 16)), cursor + 16))"

definition read_vec :: "u8 list \<Rightarrow> usize \<Rightarrow> usize \<Rightarrow> MessageCodecError + u8 list \<times> usize" where
  "read_vec bs cursor len =
     (if length bs - cursor < len then Err Truncated
      else and_then (ok_or (usize_checked_add cursor len) LengthOverflow) (\<lambda>finish.
        Ok (slice bs cursor finish, finish)))"

definition EncryptedMessage_decode :: "u8 list \<Rightarrow> MessageCodecError + EncryptedMessage" where
  "EncryptedMessage_decode bs =
     and_then (read_u16 bs 0) (\<lambda>(version, cursor).
     if version \<noteq> PROTOCOL_VERSION then Err CodecInvalidVersion else
     and_then (read_array_16 bs cursor) (\<lambda>(message_id, cursor).
     and_then (read_array_16 bs cursor) (\<lambda>(conversation_id, cursor).
     and_then (read_array_16 bs cursor) (\<lambda>(sender_device_id, cursor).
     and_then (read_array_16 bs cursor) (\<lambda>(recipient_device_id, cursor).
     and_then (read_u32 bs cursor) (\<lambda>(header_len, cursor).
     and_then (read_vec bs cursor (unat header_len)) (\<lambda>(ratchet_header, cursor).
     and_then (read_u32 bs cursor) (\<lambda>(ciphertext_len, cursor).
     and_then (read_vec bs cursor (unat ciphertext_len)) (\<lambda>(ciphertext, cursor).
     and_then (read_u64 bs cursor) (\<lambda>(sent_at_ms, cursor).
     if cursor \<noteq> length bs then Err TrailingBytes
     else Ok \<lparr>em_version = ProtocolVersion version, em_message_id = message_id,
              em_conversation_id = conversation_id, em_sender_device_id = sender_device_id,
              em_recipient_device_id = recipient_device_id, em_ratchet_header = ratchet_header,
              em_ciphertext = ciphertext, em_sent_at_ms = sent_at_ms\<rparr>))))))))))"

section \<open>Acknowledgements\<close>

definition encode_message_ack :: "16 arr \<Rightarrow> 16 arr" where
  "encode_message_ack message_id = message_id"

definition decode_message_ack :: "u8 list \<Rightarrow> MessageCodecError + 16 arr" where
  "decode_message_ack bs =
     (if length bs \<noteq> 16 then (if length bs < 16 then Err Truncated else Err LengthMismatch)
      else Ok (arr bs))"


section \<open>Bundle validation\<close>

text \<open>What the loop accepts: no zero key, no identifier twice.\<close>

lemma validate_one_time_prekeys_Ok:
  "validate_one_time_prekeys ids keys = Ok () \<longleftrightarrow>
     (\<forall>key \<in> set keys. opk_public_key key \<noteq> fill 0 \<and> opk_key_id key \<notin> ids) \<and>
     distinct (map opk_key_id keys)"
  by (induction keys arbitrary: ids) (auto simp: image_iff)

lemma validate_one_time_prekeys_Err:
  "validate_one_time_prekeys ids keys = Err e \<Longrightarrow>
     e = ZeroOneTimePrekey \<or> e = DuplicateOneTimePrekeyId"
  by (induction keys arbitrary: ids) (auto split: if_splits)

text \<open>The declarative form of an acceptable bundle.\<close>

definition well_formed_bundle :: "PreKeyBundle \<Rightarrow> bool" where
  "well_formed_bundle b \<longleftrightarrow>
     version_number (pb_protocol_version b) = 1 \<and>
     pb_device_id b \<noteq> fill 0 \<and> pb_identity_signing_key b \<noteq> fill 0 \<and>
     pb_identity_agreement_key b \<noteq> fill 0 \<and> pb_signed_prekey b \<noteq> fill 0 \<and>
     length (pb_one_time_prekeys b) \<le> 1024 \<and>
     (\<forall>key \<in> set (pb_one_time_prekeys b). opk_public_key key \<noteq> fill 0) \<and>
     distinct (map opk_key_id (pb_one_time_prekeys b))"

lemma PreKeyBundle_validate_Ok: "PreKeyBundle_validate b = Ok () \<longleftrightarrow> well_formed_bundle b"
  by (auto simp: PreKeyBundle_validate_def well_formed_bundle_def PROTOCOL_VERSION_def
      MAX_ONE_TIME_PREKEYS_def validate_one_time_prekeys_Ok)

section \<open>Readers\<close>

text \<open>
  Each reader has three lemmas: what it returns when the encoding stands at the cursor, what a
  success says about the bytes, and what becomes of a success when the buffer is cut or extended.
\<close>

lemma nth_pair_slice:
  "\<not> length bs - c < 2 \<Longrightarrow> [bs ! c, bs ! (c + 1)] = slice bs c (c + 2)"
proof -
  assume "\<not> length bs - c < 2"
  then have "drop c bs = bs ! c # bs ! (c + 1) # drop (c + 2) bs"
    by (simp add: Cons_nth_drop_Suc)
  then show ?thesis
    by (simp add: slice_def numeral_2_eq_2)
qed

lemma read_u16_alt:
  "read_u16 bs c = (if length bs - c < 2 then Err Truncated
                    else Ok (u16_from_be (slice bs c (c + 2)), c + 2))"
  unfolding read_u16_def by (auto simp only: nth_pair_slice split: if_split)

lemma drop_append_eq: "drop c bs = xs @ ys \<Longrightarrow> drop (c + length xs) bs = ys"
  by (metis add.commute append_eq_conv_conj drop_drop)

lemma drop_append_length: "drop c bs = xs @ ys \<Longrightarrow> length xs \<le> length bs - c"
  by (metis length_append length_drop le_add1)

lemma read_u16_at:
  "drop c bs = u16_to_be v @ ys \<Longrightarrow> read_u16 bs c = Ok (v, c + 2) \<and> drop (c + 2) bs = ys"
  using drop_append_length [of c bs "u16_to_be v"] drop_append_eq [of c bs "u16_to_be v"]
    slice_drop [of c bs "u16_to_be v"]
  by (simp add: read_u16_alt)

lemma read_u32_at:
  "drop c bs = u32_to_be v @ ys \<Longrightarrow> read_u32 bs c = Ok (v, c + 4) \<and> drop (c + 4) bs = ys"
  using drop_append_length [of c bs "u32_to_be v"] drop_append_eq [of c bs "u32_to_be v"]
    slice_drop [of c bs "u32_to_be v"]
  by (simp add: read_u32_def)

lemma read_u64_at:
  "drop c bs = u64_to_be v @ ys \<Longrightarrow> read_u64 bs c = Ok (v, c + 8) \<and> drop (c + 8) bs = ys"
  using drop_append_length [of c bs "u64_to_be v"] drop_append_eq [of c bs "u64_to_be v"]
    slice_drop [of c bs "u64_to_be v"]
  by (simp add: read_u64_def)

lemma read_array_16_at:
  "drop c bs = bytes v @ ys \<Longrightarrow>
     read_array_16 bs c = Ok (v, c + 16) \<and> drop (c + 16) bs = ys"
  using drop_append_length [of c bs "bytes v"] drop_append_eq [of c bs "bytes v"]
    slice_drop [of c bs "bytes v"]
  by (simp add: read_array_16_def)

lemma read_vec_at:
  "drop c bs = v @ ys \<Longrightarrow> c + length v \<le> usize_MAX \<Longrightarrow>
     read_vec bs c (length v) = Ok (v, c + length v) \<and> drop (c + length v) bs = ys"
  using drop_append_length [of c bs v] drop_append_eq [of c bs v] slice_drop [of c bs v]
  by (simp add: read_vec_def usize_checked_add_def)

lemma drop_slice_length:
  "n \<le> length bs - c \<Longrightarrow> drop c bs = slice bs c (c + n) @ drop (c + n) bs"
  by (rule drop_slice) simp

lemma slice_length: "n \<le> length bs - c \<Longrightarrow> length (slice bs c (c + n)) = n"
  by (simp add: slice_def)

lemma read_u16_Ok:
  "read_u16 bs c = Ok (v, c') \<longleftrightarrow> c' = c + 2 \<and> drop c bs = u16_to_be v @ drop c' bs"
proof
  assume "read_u16 bs c = Ok (v, c')"
  then show "c' = c + 2 \<and> drop c bs = u16_to_be v @ drop c' bs"
    using drop_slice_length [of 2 bs c] slice_length [of 2 bs c]
    by (auto simp: read_u16_alt u16_to_from_be split: if_splits)
qed (metis read_u16_at)

lemma read_u32_Ok:
  "read_u32 bs c = Ok (v, c') \<longleftrightarrow> c' = c + 4 \<and> drop c bs = u32_to_be v @ drop c' bs"
proof
  assume "read_u32 bs c = Ok (v, c')"
  then show "c' = c + 4 \<and> drop c bs = u32_to_be v @ drop c' bs"
    using drop_slice_length [of 4 bs c] slice_length [of 4 bs c]
    by (auto simp: read_u32_def u32_to_from_be split: if_splits)
qed (metis read_u32_at)

lemma read_u64_Ok:
  "read_u64 bs c = Ok (v, c') \<longleftrightarrow> c' = c + 8 \<and> drop c bs = u64_to_be v @ drop c' bs"
proof
  assume "read_u64 bs c = Ok (v, c')"
  then show "c' = c + 8 \<and> drop c bs = u64_to_be v @ drop c' bs"
    using drop_slice_length [of 8 bs c] slice_length [of 8 bs c]
    by (auto simp: read_u64_def u64_to_from_be split: if_splits)
qed (metis read_u64_at)

lemma read_array_16_Ok:
  "read_array_16 bs c = Ok (v, c') \<longleftrightarrow> c' = c + 16 \<and> drop c bs = bytes v @ drop c' bs"
proof
  assume "read_array_16 bs c = Ok (v, c')"
  then show "c' = c + 16 \<and> drop c bs = bytes v @ drop c' bs"
    using drop_slice_length [of 16 bs c] slice_length [of 16 bs c]
    by (auto simp: read_array_16_def bytes_arr split: if_splits)
qed (metis read_array_16_at)

lemma read_vec_Ok:
  "read_vec bs c n = Ok (v, c') \<longleftrightarrow>
     c' = c + n \<and> length v = n \<and> c + n \<le> usize_MAX \<and> drop c bs = v @ drop c' bs"
proof
  assume "read_vec bs c n = Ok (v, c')"
  then show "c' = c + n \<and> length v = n \<and> c + n \<le> usize_MAX \<and> drop c bs = v @ drop c' bs"
    using drop_slice_length [of n bs c] slice_length [of n bs c]
    by (auto simp: read_vec_def usize_checked_add_def result_simps split: if_splits)
qed (metis read_vec_at)

lemmas read_Ok = read_u16_Ok read_u32_Ok read_u64_Ok read_array_16_Ok read_vec_Ok


section \<open>The message codec\<close>

text \<open>The layout of an encoded message, free of the length checks.\<close>

definition message_wire :: "EncryptedMessage \<Rightarrow> u8 list" where
  "message_wire m =
     u16_to_be (version_number (em_version m)) @ bytes (em_message_id m) @
     bytes (em_conversation_id m) @ bytes (em_sender_device_id m) @
     bytes (em_recipient_device_id m) @
     u32_to_be (word_of_nat (length (em_ratchet_header m))) @ em_ratchet_header m @
     u32_to_be (word_of_nat (length (em_ciphertext m))) @ em_ciphertext m @
     u64_to_be (em_sent_at_ms m)"

definition fits_u32 :: "EncryptedMessage \<Rightarrow> bool" where
  "fits_u32 m \<longleftrightarrow>
     length (em_ratchet_header m) \<le> u32_MAX_nat \<and> length (em_ciphertext m) \<le> u32_MAX_nat"

lemma length_message_wire:
  "length (message_wire m) = 82 + length (em_ratchet_header m) + length (em_ciphertext m)"
  by (simp add: message_wire_def)

lemma checked_sum_fits:
  "h \<le> u32_MAX_nat \<Longrightarrow> c \<le> u32_MAX_nat \<Longrightarrow>
     checked_sum 2 [16 * 4, 4, h, 4, c, 8] = Some (82 + h + c)"
  by (simp add: usize_checked_add_def usize_MAX_def u32_MAX_nat_def)

lemma EncryptedMessage_encode_eq:
  "EncryptedMessage_encode m =
     (if fits_u32 m then Ok (message_wire m) else Err LengthOverflow)"
proof (cases "fits_u32 m")
  case True
  then have "checked_sum 2 [16 * 4, 4, length (em_ratchet_header m), 4,
                            length (em_ciphertext m), 8] =
      Some (82 + length (em_ratchet_header m) + length (em_ciphertext m))"
    unfolding fits_u32_def by (intro checked_sum_fits) auto
  with True show ?thesis
    by (simp add: EncryptedMessage_encode_def fits_u32_def u32_try_from_def message_wire_def
        del: checked_sum.simps)
next
  case False
  then show ?thesis
    by (auto simp: EncryptedMessage_encode_def fits_u32_def u32_try_from_def)
qed

lemma unat_length_u32:
  "n \<le> u32_MAX_nat \<Longrightarrow> unat (word_of_nat n :: u32) = n"
  by (simp add: unat_of_nat u32_MAX_nat_def)

lemma EncryptedMessage_decode_wire:
  assumes v: "version_number (em_version m) = PROTOCOL_VERSION" and f: "fits_u32 m"
  shows "EncryptedMessage_decode (message_wire m) = Ok m"
proof -
  let ?b = "message_wire m" and ?h = "length (em_ratchet_header m)"
    and ?c = "length (em_ciphertext m)"
  have h: "unat (word_of_nat ?h :: u32) = ?h" and c: "unat (word_of_nat ?c :: u32) = ?c"
    using f by (simp_all add: fits_u32_def unat_length_u32)
  have bh: "70 + ?h \<le> usize_MAX" and bc: "74 + ?h + ?c \<le> usize_MAX"
    using f by (simp_all add: fits_u32_def usize_MAX_def u32_MAX_nat_def)
  have "drop 0 ?b = u16_to_be (version_number (em_version m)) @ drop 2 ?b"
    by (simp add: message_wire_def)
  from read_u16_at [OF this] have 0: "read_u16 ?b 0 = Ok (PROTOCOL_VERSION, 2)"
    using v by simp
  have 1: "read_array_16 ?b 2 = Ok (em_message_id m, 18)"
    by (simp add: read_array_16_Ok) (simp add: message_wire_def)
  have 2: "read_array_16 ?b 18 = Ok (em_conversation_id m, 34)"
    by (simp add: read_array_16_Ok) (simp add: message_wire_def)
  have 3: "read_array_16 ?b 34 = Ok (em_sender_device_id m, 50)"
    by (simp add: read_array_16_Ok) (simp add: message_wire_def)
  have 4: "read_array_16 ?b 50 = Ok (em_recipient_device_id m, 66)"
    by (simp add: read_array_16_Ok) (simp add: message_wire_def)
  have 5: "read_u32 ?b 66 = Ok (word_of_nat ?h, 70)"
    by (simp add: read_u32_Ok) (simp add: message_wire_def)
  have 6: "read_vec ?b 70 ?h = Ok (em_ratchet_header m, 70 + ?h)"
    using bh by (simp add: read_vec_Ok) (simp add: message_wire_def)
  have 7: "read_u32 ?b (70 + ?h) = Ok (word_of_nat ?c, 74 + ?h)"
    by (simp add: read_u32_Ok) (simp add: message_wire_def)
  have 8: "read_vec ?b (74 + ?h) ?c = Ok (em_ciphertext m, 74 + ?h + ?c)"
    using bc by (simp add: read_vec_Ok) (simp add: message_wire_def)
  have 9: "read_u64 ?b (74 + ?h + ?c) = Ok (em_sent_at_ms m, 82 + ?h + ?c)"
    by (simp add: read_u64_Ok) (simp add: message_wire_def)
  have "EncryptedMessage_decode ?b =
      Ok (m\<lparr>em_version := ProtocolVersion PROTOCOL_VERSION\<rparr>)"
    unfolding EncryptedMessage_decode_def
    by (simp add: 0 1 2 3 4 5 6 7 8 9 h c length_message_wire)
  with v show ?thesis
    by (cases "em_version m") simp
qed

lemma EncryptedMessage_decode_Ok:
  assumes "EncryptedMessage_decode bs = Ok m"
  shows "version_number (em_version m) = PROTOCOL_VERSION \<and> fits_u32 m \<and> bs = message_wire m"
proof -
  from assms obtain v c0 i1 c1 i2 c2 i3 c3 i4 c4 hl c5 h c6 cl c7 ct c8 t c9 where
    r: "read_u16 bs 0 = Ok (v, c0)" "v = PROTOCOL_VERSION"
       "read_array_16 bs c0 = Ok (i1, c1)" "read_array_16 bs c1 = Ok (i2, c2)"
       "read_array_16 bs c2 = Ok (i3, c3)" "read_array_16 bs c3 = Ok (i4, c4)"
       "read_u32 bs c4 = Ok (hl, c5)" "read_vec bs c5 (unat hl) = Ok (h, c6)"
       "read_u32 bs c6 = Ok (cl, c7)" "read_vec bs c7 (unat cl) = Ok (ct, c8)"
       "read_u64 bs c8 = Ok (t, c9)" "c9 = length bs"
    and m: "m = \<lparr>em_version = ProtocolVersion v, em_message_id = i1, em_conversation_id = i2,
       em_sender_device_id = i3, em_recipient_device_id = i4, em_ratchet_header = h,
       em_ciphertext = ct, em_sent_at_ms = t\<rparr>"
    unfolding EncryptedMessage_decode_def
    by (auto simp: result_simps split: if_splits)
  have lens: "length h = unat hl" "length ct = unat cl"
    using r(8,10) by (simp_all add: read_vec_Ok)
  then have u: "word_of_nat (length h) = hl" "word_of_nat (length ct) = cl"
    by simp_all
  have "drop 0 bs = u16_to_be v @ drop c0 bs" using r(1) unfolding read_Ok by blast
  also have "drop c0 bs = bytes i1 @ drop c1 bs" using r(3) unfolding read_Ok by blast
  also have "drop c1 bs = bytes i2 @ drop c2 bs" using r(4) unfolding read_Ok by blast
  also have "drop c2 bs = bytes i3 @ drop c3 bs" using r(5) unfolding read_Ok by blast
  also have "drop c3 bs = bytes i4 @ drop c4 bs" using r(6) unfolding read_Ok by blast
  also have "drop c4 bs = u32_to_be hl @ drop c5 bs" using r(7) unfolding read_Ok by blast
  also have "drop c5 bs = h @ drop c6 bs" using r(8) unfolding read_Ok by blast
  also have "drop c6 bs = u32_to_be cl @ drop c7 bs" using r(9) unfolding read_Ok by blast
  also have "drop c7 bs = ct @ drop c8 bs" using r(10) unfolding read_Ok by blast
  also have "drop c8 bs = u64_to_be t @ drop c9 bs" using r(11) unfolding read_Ok by blast
  also have "drop c9 bs = []" using r(12) by simp
  finally have "bs = message_wire m"
    by (simp add: message_wire_def m u)
  moreover have "fits_u32 m"
    using unat_u32_bound [of hl] unat_u32_bound [of cl] lens
    by (simp add: fits_u32_def m u32_MAX_nat_def)
  ultimately show ?thesis
    using r(2) m by simp
qed


text \<open>Cutting the buffer: a read either still sees all its bytes or reports truncation.\<close>

lemma read_u16_take:
  "read_u16 bs c = Ok (v, c') \<Longrightarrow> c \<le> k \<Longrightarrow> k \<le> length bs \<Longrightarrow>
     read_u16 (take k bs) c = (if c' \<le> k then Ok (v, c') else Err Truncated)"
  by (auto simp: read_u16_alt slice_take split: if_splits)

lemma read_u32_take:
  "read_u32 bs c = Ok (v, c') \<Longrightarrow> c \<le> k \<Longrightarrow> k \<le> length bs \<Longrightarrow>
     read_u32 (take k bs) c = (if c' \<le> k then Ok (v, c') else Err Truncated)"
  by (auto simp: read_u32_def slice_take split: if_splits)

lemma read_u64_take:
  "read_u64 bs c = Ok (v, c') \<Longrightarrow> c \<le> k \<Longrightarrow> k \<le> length bs \<Longrightarrow>
     read_u64 (take k bs) c = (if c' \<le> k then Ok (v, c') else Err Truncated)"
  by (auto simp: read_u64_def slice_take split: if_splits)

lemma read_array_16_take:
  "read_array_16 bs c = Ok (v, c') \<Longrightarrow> c \<le> k \<Longrightarrow> k \<le> length bs \<Longrightarrow>
     read_array_16 (take k bs) c = (if c' \<le> k then Ok (v, c') else Err Truncated)"
  by (auto simp: read_array_16_def slice_take split: if_splits)

lemma read_vec_take:
  "read_vec bs c n = Ok (v, c') \<Longrightarrow> c \<le> k \<Longrightarrow> k \<le> length bs \<Longrightarrow>
     read_vec (take k bs) c n = (if c' \<le> k then Ok (v, c') else Err Truncated)"
  by (auto simp: read_vec_def usize_checked_add_def slice_take result_simps split: if_splits)

lemmas read_take = read_u16_take read_u32_take read_u64_take read_array_16_take read_vec_take

lemma read_u16_append: "read_u16 bs c = Ok r \<Longrightarrow> read_u16 (bs @ ys) c = Ok r"
  by (auto simp: read_u16_alt slice_append split: if_splits)

lemma read_u32_append: "read_u32 bs c = Ok r \<Longrightarrow> read_u32 (bs @ ys) c = Ok r"
  by (auto simp: read_u32_def slice_append split: if_splits)

lemma read_u64_append: "read_u64 bs c = Ok r \<Longrightarrow> read_u64 (bs @ ys) c = Ok r"
  by (auto simp: read_u64_def slice_append split: if_splits)

lemma read_array_16_append: "read_array_16 bs c = Ok r \<Longrightarrow> read_array_16 (bs @ ys) c = Ok r"
  by (auto simp: read_array_16_def slice_append split: if_splits)

lemma read_vec_append:
  "c \<le> length bs \<Longrightarrow> read_vec bs c n = Ok r \<Longrightarrow> read_vec (bs @ ys) c n = Ok r"
  by (auto simp: read_vec_def usize_checked_add_def slice_append result_simps split: if_splits)

text \<open>What a successful decode read, cursor by cursor.\<close>

lemma EncryptedMessage_decode_reads:
  assumes "EncryptedMessage_decode bs = Ok m"
  obtains i1 i2 i3 i4 hl h c6 cl ct c8 t where
    "read_u16 bs 0 = Ok (PROTOCOL_VERSION, 2)"
    "read_array_16 bs 2 = Ok (i1, 18)" "read_array_16 bs 18 = Ok (i2, 34)"
    "read_array_16 bs 34 = Ok (i3, 50)" "read_array_16 bs 50 = Ok (i4, 66)"
    "read_u32 bs 66 = Ok (hl, 70)" "read_vec bs 70 (unat hl) = Ok (h, c6)"
    "read_u32 bs c6 = Ok (cl, c6 + 4)" "read_vec bs (c6 + 4) (unat cl) = Ok (ct, c8)"
    "read_u64 bs c8 = Ok (t, length bs)" "length bs = c8 + 8" "c6 + 4 \<le> c8" "70 \<le> c6"
proof -
  from assms obtain c0 i1 c1 i2 c2 i3 c3 i4 c4 hl c5 h c6 cl c7 ct c8 t where
    r: "read_u16 bs 0 = Ok (PROTOCOL_VERSION, c0)"
       "read_array_16 bs c0 = Ok (i1, c1)" "read_array_16 bs c1 = Ok (i2, c2)"
       "read_array_16 bs c2 = Ok (i3, c3)" "read_array_16 bs c3 = Ok (i4, c4)"
       "read_u32 bs c4 = Ok (hl, c5)" "read_vec bs c5 (unat hl) = Ok (h, c6)"
       "read_u32 bs c6 = Ok (cl, c7)" "read_vec bs c7 (unat cl) = Ok (ct, c8)"
       "read_u64 bs c8 = Ok (t, length bs)"
    unfolding EncryptedMessage_decode_def by (auto simp: result_simps split: if_splits)
  have "c0 = 2" using r(1) unfolding read_Ok by simp
  moreover have "c1 = c0 + 16" using r(2) unfolding read_Ok by blast
  moreover have "c2 = c1 + 16" using r(3) unfolding read_Ok by blast
  moreover have "c3 = c2 + 16" using r(4) unfolding read_Ok by blast
  moreover have "c4 = c3 + 16" using r(5) unfolding read_Ok by blast
  moreover have "c5 = c4 + 4" using r(6) unfolding read_Ok by blast
  moreover have "c6 = c5 + unat hl" using r(7) unfolding read_Ok by blast
  moreover have "c7 = c6 + 4" using r(8) unfolding read_Ok by blast
  moreover have "c8 = c7 + unat cl" using r(9) unfolding read_Ok by blast
  moreover have "length bs = c8 + 8" using r(10) unfolding read_Ok by blast
  ultimately show thesis
    using that r by simp
qed

lemma EncryptedMessage_decode_cut:
  assumes d: "EncryptedMessage_decode bs = Ok m" and k: "k < length bs"
  shows "EncryptedMessage_decode (take k bs) = Err Truncated"
proof -
  from d obtain i1 i2 i3 i4 hl h c6 cl ct c8 t where
    r: "read_u16 bs 0 = Ok (PROTOCOL_VERSION, 2)"
    "read_array_16 bs 2 = Ok (i1, 18)" "read_array_16 bs 18 = Ok (i2, 34)"
    "read_array_16 bs 34 = Ok (i3, 50)" "read_array_16 bs 50 = Ok (i4, 66)"
    "read_u32 bs 66 = Ok (hl, 70)" "read_vec bs 70 (unat hl) = Ok (h, c6)"
    "read_u32 bs c6 = Ok (cl, c6 + 4)" "read_vec bs (c6 + 4) (unat cl) = Ok (ct, c8)"
    "read_u64 bs c8 = Ok (t, length bs)"
    by (rule EncryptedMessage_decode_reads)
  note cut = r(1) [THEN read_u16_take] r(2-5) [THEN read_array_16_take]
    r(6,8) [THEN read_u32_take] r(7,9) [THEN read_vec_take] r(10) [THEN read_u64_take]
  show ?thesis
    unfolding EncryptedMessage_decode_def using k by (simp add: cut)
qed

lemma EncryptedMessage_decode_extend:
  assumes d: "EncryptedMessage_decode bs = Ok m" and ys: "ys \<noteq> []"
  shows "EncryptedMessage_decode (bs @ ys) = Err TrailingBytes"
proof -
  from d obtain i1 i2 i3 i4 hl h c6 cl ct c8 t where
    r: "read_u16 bs 0 = Ok (PROTOCOL_VERSION, 2)"
    "read_array_16 bs 2 = Ok (i1, 18)" "read_array_16 bs 18 = Ok (i2, 34)"
    "read_array_16 bs 34 = Ok (i3, 50)" "read_array_16 bs 50 = Ok (i4, 66)"
    "read_u32 bs 66 = Ok (hl, 70)" "read_vec bs 70 (unat hl) = Ok (h, c6)"
    "read_u32 bs c6 = Ok (cl, c6 + 4)" "read_vec bs (c6 + 4) (unat cl) = Ok (ct, c8)"
    "read_u64 bs c8 = Ok (t, length bs)"
    and c: "length bs = c8 + 8" "c6 + 4 \<le> c8" "70 \<le> c6"
    by (rule EncryptedMessage_decode_reads)
  have "70 \<le> length bs" "c6 + 4 \<le> length bs"
    using c by simp_all
  note more = r(1) [THEN read_u16_append] r(2-5) [THEN read_array_16_append]
    r(6,8) [THEN read_u32_append] r(10) [THEN read_u64_append]
    read_vec_append [OF \<open>70 \<le> length bs\<close> r(7)] read_vec_append [OF \<open>c6 + 4 \<le> length bs\<close> r(9)]
  show ?thesis
    unfolding EncryptedMessage_decode_def using ys by (simp add: more)
qed

section \<open>The codecs as providers of the encoding contracts\<close>

interpretation message: framed_codec EncryptedMessage_encode EncryptedMessage_decode
  "\<lambda>m. em_version m = ProtocolVersion PROTOCOL_VERSION"
proof unfold_locales
  fix m bs
  assume "em_version m = ProtocolVersion PROTOCOL_VERSION" "EncryptedMessage_encode m = Ok bs"
  then show "EncryptedMessage_decode bs = Ok m"
    using EncryptedMessage_decode_wire [of m] by (auto simp: EncryptedMessage_encode_eq split: if_splits)
next
  fix bs m
  assume "EncryptedMessage_decode bs = Ok m"
  then show "em_version m = ProtocolVersion PROTOCOL_VERSION \<and> EncryptedMessage_encode m = Ok bs"
    using EncryptedMessage_decode_Ok [of bs m]
    by (simp add: EncryptedMessage_encode_eq) (metis ProtocolVersion.collapse)
next
  fix bs m ys m'
  assume "EncryptedMessage_decode bs = Ok m" "EncryptedMessage_decode (bs @ ys) = Ok m'"
  then show "ys = []"
    using EncryptedMessage_decode_extend [of bs m ys] by fastforce
qed

lemma bytes_RatchetHeader_encode:
  "bytes (RatchetHeader_encode h) = u16_to_be (rh_version h) @ u64_to_be (rh_message_counter h)"
  by (simp add: RatchetHeader_encode_def bytes_arr)

lemma length_2_nth: "length bs = n \<Longrightarrow> 2 \<le> n \<Longrightarrow> [bs ! 0, bs ! Suc 0] = take 2 bs"
  by (cases bs; cases "tl bs") auto

lemma RatchetHeader_decode_Ok:
  "RatchetHeader_decode bs = Ok h \<longleftrightarrow>
     rh_version h = RATCHET_HEADER_VERSION \<and> bs = bytes (RatchetHeader_encode h)"
proof
  assume d: "RatchetHeader_decode bs = Ok h"
  then have len: "length bs = 10"
    by (auto simp: RatchetHeader_decode_def RATCHET_HEADER_ENCODED_LEN_def split: if_splits)
  with d have "u16_from_be (take 2 bs) = RATCHET_HEADER_VERSION"
    and h: "h = \<lparr>rh_version = RATCHET_HEADER_VERSION, rh_message_counter = u64_from_be (drop 2 bs)\<rparr>"
    by (auto simp: RatchetHeader_decode_def RATCHET_HEADER_ENCODED_LEN_def Let_def length_2_nth
        split: if_splits)
  then have "u16_to_be RATCHET_HEADER_VERSION = take 2 bs"
    using u16_to_from_be [of "take 2 bs"] len by simp
  then show "rh_version h = RATCHET_HEADER_VERSION \<and> bs = bytes (RatchetHeader_encode h)"
    using u64_to_from_be [of "drop 2 bs"] len by (simp add: h bytes_RatchetHeader_encode)
next
  assume "rh_version h = RATCHET_HEADER_VERSION \<and> bs = bytes (RatchetHeader_encode h)"
  then show "RatchetHeader_decode bs = Ok h"
    by (simp add: RatchetHeader_decode_def RATCHET_HEADER_ENCODED_LEN_def length_2_nth Let_def
        bytes_RatchetHeader_encode)
qed

interpretation header: framed_codec "\<lambda>h. Ok (bytes (RatchetHeader_encode h)) :: unit + u8 list"
  RatchetHeader_decode "\<lambda>h. rh_version h = RATCHET_HEADER_VERSION"
proof unfold_locales
  fix bs h ys h'
  assume "RatchetHeader_decode bs = Ok h" "RatchetHeader_decode (bs @ ys) = Ok h'"
  then have "length bs = 10" "length (bs @ ys) = 10"
    by (simp_all add: RatchetHeader_decode_Ok bytes_RatchetHeader_encode)
  then show "ys = []"
    by simp
qed (auto simp: RatchetHeader_decode_Ok)

interpretation message_ack: framed_codec "\<lambda>i. Ok (bytes (encode_message_ack i)) :: unit + u8 list"
  decode_message_ack "\<lambda>_. True"
  by unfold_locales
    (auto simp: decode_message_ack_def encode_message_ack_def bytes_arr split: if_splits)


section \<open>Properties\<close>

text \<open>
  C28. The message decoder and encoder are exact inverses: the decoder accepts a byte string
  exactly when it is the encoding of a protocol-version-1 message, and then returns that message.
  In particular every encoded message round-trips and the wire form is non-malleable.
\<close>

theorem message_codec_exact:
  "EncryptedMessage_decode bs = Ok m \<longleftrightarrow>
     em_version m = ProtocolVersion PROTOCOL_VERSION \<and> EncryptedMessage_encode m = Ok bs"
  by (rule message.accepts_iff)

text \<open>
  Encoding fails only on a ratchet header or a ciphertext longer than a 32-bit length can
  say, with \<open>LengthOverflow\<close>; otherwise it yields exactly 82 bytes of framing plus both.
\<close>

theorem message_encode_total:
  "case EncryptedMessage_encode m of
     Ok bs \<Rightarrow> length (em_ratchet_header m) < 2 ^ 32 \<and> length (em_ciphertext m) < 2 ^ 32 \<and>
              length bs = 82 + length (em_ratchet_header m) + length (em_ciphertext m)
   | Err e \<Rightarrow> e = LengthOverflow \<and>
              (2 ^ 32 \<le> length (em_ratchet_header m) \<or> 2 ^ 32 \<le> length (em_ciphertext m))"
  by (auto simp: EncryptedMessage_encode_eq fits_u32_def u32_MAX_nat_def length_message_wire)

text \<open>
  Framing errors are told apart exactly: every proper prefix of an accepted message is
  \<open>Truncated\<close> and every proper extension is \<open>TrailingBytes\<close>.
\<close>

theorem message_framing_errors:
  assumes "EncryptedMessage_decode bs = Ok m"
  shows "(\<forall>k < length bs. EncryptedMessage_decode (take k bs) = Err Truncated) \<and>
    (\<forall>y ys. EncryptedMessage_decode (bs @ y # ys) = Err TrailingBytes)"
  using assms by (auto intro: EncryptedMessage_decode_cut EncryptedMessage_decode_extend)

definition sample_message :: EncryptedMessage where
  "sample_message = EncryptedMessage_new (fill 1) (fill 2) (fill 3) (fill 4) [5] [6] 123"

lemma sample_message_decodes:
  "EncryptedMessage_decode (message_wire sample_message) = Ok sample_message"
  by (rule EncryptedMessage_decode_wire)
    (simp_all add: sample_message_def EncryptedMessage_new_def fits_u32_def u32_MAX_nat_def)

theorem message_framing_errors_witness:
  "EncryptedMessage_decode (take 83 (message_wire sample_message)) = Err Truncated \<and>
   EncryptedMessage_decode (message_wire sample_message @ [0]) = Err TrailingBytes"
  using message_framing_errors [OF sample_message_decodes]
  by (simp add: length_message_wire sample_message_def EncryptedMessage_new_def)

text \<open>
  The ratchet header decoder accepts exactly the ten-byte encodings of version-1 headers; the
  errors are told apart by length first and by version second.
\<close>

theorem ratchet_header_exact:
  "case RatchetHeader_decode bs of
     Ok h \<Rightarrow> rh_version h = RATCHET_HEADER_VERSION \<and> bs = bytes (RatchetHeader_encode h)
   | Err HeaderTruncated \<Rightarrow> length bs < 10
   | Err HeaderTrailingBytes \<Rightarrow> 10 < length bs
   | Err HeaderInvalidVersion \<Rightarrow>
       length bs = 10 \<and> take 2 bs \<noteq> u16_to_be RATCHET_HEADER_VERSION"
proof (cases "RatchetHeader_decode bs")
  case (Inr h)
  then have "rh_version h = RATCHET_HEADER_VERSION \<and> bs = bytes (RatchetHeader_encode h)"
    by (simp only: RatchetHeader_decode_Ok)
  with Inr show ?thesis
    by (simp only: sum.case simp_thms)
next
  case (Inl e)
  then show ?thesis
    by (cases e)
      (auto simp: RatchetHeader_decode_def RATCHET_HEADER_ENCODED_LEN_def Let_def length_2_nth
        split: if_splits)
qed

text \<open>
  Bundle validation accepts exactly the well-formed bundles: version 1, no zero device id or
  key, at most 1024 one-time prekeys, none of them zero and no identifier twice.
\<close>

theorem bundle_validation_exact:
  "PreKeyBundle_validate b = Ok () \<longleftrightarrow>
     pb_protocol_version b = ProtocolVersion PROTOCOL_VERSION \<and>
     pb_device_id b \<noteq> fill 0 \<and> pb_identity_signing_key b \<noteq> fill 0 \<and>
     pb_identity_agreement_key b \<noteq> fill 0 \<and> pb_signed_prekey b \<noteq> fill 0 \<and>
     length (pb_one_time_prekeys b) \<le> MAX_ONE_TIME_PREKEYS \<and>
     fill 0 \<notin> opk_public_key ` set (pb_one_time_prekeys b) \<and>
     distinct (map opk_key_id (pb_one_time_prekeys b))"
  by (cases "pb_protocol_version b")
    (auto simp: PreKeyBundle_validate_Ok well_formed_bundle_def PROTOCOL_VERSION_def
      MAX_ONE_TIME_PREKEYS_def image_iff)

end
