(* ===== verification/Relay.thy ===== *)
theory Relay
  imports Protocol "HOL-Library.Sublist"
begin

text \<open>
  The gateway's offline relay, \<open>backend/src/relay.rs\<close>: one bounded queue per recipient device,
  with expiry, deduplication and global accounting. The state is behind one mutex that no
  operation keeps across an await, so each operation is one step; the clock is an argument.
\<close>

section \<open>State and operations\<close>

definition MAX_PER_DEVICE :: usize where
  "MAX_PER_DEVICE = 256"

definition MAX_TOTAL_MESSAGES :: usize where
  "MAX_TOTAL_MESSAGES = 65536"

definition MAX_TOTAL_BYTES :: usize where
  "MAX_TOTAL_BYTES = 512 * 1024 * 1024"

definition RELAY_MAX_CIPHERTEXT :: usize where
  "RELAY_MAX_CIPHERTEXT = 4 * 1024 * 1024"

definition MAX_RATCHET_HEADER :: usize where
  "MAX_RATCHET_HEADER = 16 * 1024"

definition OFFLINE_TTL_MS :: u64 where
  "OFFLINE_TTL_MS = 7 * 24 * 60 * 60 * 1000"

definition RELAY_MAX_CLOCK_SKEW_MS :: u64 where
  "RELAY_MAX_CLOCK_SKEW_MS = 5 * 60 * 1000"

datatype PushResult = Accepted | Duplicate | Invalid | Full

record StoredMessage =
  sm_message :: EncryptedMessage
  sm_expires_at_ms :: u64
  sm_accounted_bytes :: usize

record RelayInner =
  ri_queues :: "16 arr \<Rightarrow> StoredMessage list option"
  ri_total_messages :: usize
  ri_total_bytes :: usize

definition RelayStore_default :: RelayInner where
  "RelayStore_default = \<lparr>ri_queues = Map.empty, ri_total_messages = 0, ri_total_bytes = 0\<rparr>"

text \<open>The three values: the messages removed, their bytes, the queue that is left.\<close>

definition remove_expired :: "StoredMessage list \<Rightarrow> u64 \<Rightarrow> usize \<times> usize \<times> StoredMessage list" where
  "remove_expired queue now =
     (let removed = filter (\<lambda>stored. sm_expires_at_ms stored \<le> now) queue
      in (length removed,
          foldl (\<lambda>b stored. usize_saturating_add b (sm_accounted_bytes stored)) 0 removed,
          filter (\<lambda>stored. \<not> sm_expires_at_ms stored \<le> now) queue))"

definition message_size :: "EncryptedMessage \<Rightarrow> usize" where
  "message_size message =
     (case EncryptedMessage_encode message of Ok encoded \<Rightarrow> length encoded | Err e \<Rightarrow> usize_MAX)"

definition valid_message :: "EncryptedMessage \<Rightarrow> bool" where
  "valid_message m \<longleftrightarrow>
     em_version m = ProtocolVersion PROTOCOL_VERSION \<and> em_message_id m \<noteq> fill 0 \<and>
     em_conversation_id m \<noteq> fill 0 \<and> em_sender_device_id m \<noteq> fill 0 \<and>
     em_recipient_device_id m \<noteq> fill 0 \<and> em_ratchet_header m \<noteq> [] \<and>
     length (em_ratchet_header m) \<le> MAX_RATCHET_HEADER \<and> em_ciphertext m \<noteq> [] \<and>
     length (em_ciphertext m) \<le> RELAY_MAX_CIPHERTEXT"

text \<open>The last part of \<open>push\<close>, after the recipient's queue was looked at: the global limits.\<close>

definition push_within_limits ::
  "EncryptedMessage \<Rightarrow> u64 \<Rightarrow> usize \<Rightarrow> RelayInner \<Rightarrow> PushResult \<times> RelayInner" where
  "push_within_limits message expires_at_ms accounted_bytes g =
     (if MAX_TOTAL_MESSAGES \<le> ri_total_messages g \<or>
         MAX_TOTAL_BYTES < usize_saturating_add (ri_total_bytes g) accounted_bytes
      then (Full, g)
      else
        let device_id = em_recipient_device_id message;
            queue = (case ri_queues g device_id of None \<Rightarrow> [] | Some queue \<Rightarrow> queue);
            stored = \<lparr>sm_message = message, sm_expires_at_ms = expires_at_ms,
                      sm_accounted_bytes = accounted_bytes\<rparr>
        in (Accepted,
            \<lparr>ri_queues = (ri_queues g)(device_id \<mapsto> queue @ [stored]),
             ri_total_messages = ri_total_messages g + 1,
             ri_total_bytes = ri_total_bytes g + accounted_bytes\<rparr>))"

definition RelayStore_push :: "u64 \<Rightarrow> EncryptedMessage \<Rightarrow> RelayInner \<Rightarrow> PushResult \<times> RelayInner" where
  "RelayStore_push now message g =
     (if \<not> valid_message message then (Invalid, g)
      else if u64_saturating_add now RELAY_MAX_CLOCK_SKEW_MS < em_sent_at_ms message \<or>
              OFFLINE_TTL_MS < u64_saturating_sub now (em_sent_at_ms message)
      then (Invalid, g)
      else
        let accounted_bytes = message_size message;
            expires_at_ms = u64_saturating_add now OFFLINE_TTL_MS;
            device_id = em_recipient_device_id message
        in case ri_queues g device_id of
          Some queue0 \<Rightarrow>
            let (removed_messages, removed_bytes, queue) = remove_expired queue0 now;
                g' = \<lparr>ri_queues = (ri_queues g)(device_id \<mapsto> queue),
                      ri_total_messages = ri_total_messages g - removed_messages,
                      ri_total_bytes = ri_total_bytes g - removed_bytes\<rparr>
            in if list_ex (\<lambda>stored. em_message_id (sm_message stored) = em_message_id message) queue
               then (Duplicate, g')
               else if MAX_PER_DEVICE \<le> length queue then (Full, g')
               else push_within_limits message expires_at_ms accounted_bytes g'
        | None \<Rightarrow> push_within_limits message expires_at_ms accounted_bytes g)"

definition RelayStore_pull :: "u64 \<Rightarrow> 16 arr \<Rightarrow> RelayInner \<Rightarrow> EncryptedMessage list \<times> RelayInner" where
  "RelayStore_pull now device_id g =
     (case ri_queues g device_id of
        None \<Rightarrow> ([], g)
      | Some queue0 \<Rightarrow>
          let (removed_messages, removed_bytes, queue) = remove_expired queue0 now
          in (map sm_message queue,
              \<lparr>ri_queues = (ri_queues g)(device_id := (if queue = [] then None else Some queue)),
               ri_total_messages = ri_total_messages g - removed_messages,
               ri_total_bytes = ri_total_bytes g - removed_bytes\<rparr>))"

definition RelayStore_ack :: "16 arr \<Rightarrow> 16 arr \<Rightarrow> RelayInner \<Rightarrow> bool \<times> RelayInner" where
  "RelayStore_ack device_id message_id g =
     (case ri_queues g device_id of
        None \<Rightarrow> (False, g)
      | Some queue0 \<Rightarrow>
          let acked = (\<lambda>stored. em_message_id (sm_message stored) = message_id);
              removed_bytes = foldl (\<lambda>b stored. if acked stored then sm_accounted_bytes stored else b)
                                0 queue0;
              queue = filter (\<lambda>stored. \<not> acked stored) queue0;
              removed = (length queue \<noteq> length queue0)
          in (removed,
              \<lparr>ri_queues = (ri_queues g)(device_id := (if queue = [] then None else Some queue)),
               ri_total_messages = ri_total_messages g - (if removed then 1 else 0),
               ri_total_bytes = ri_total_bytes g - (if removed then removed_bytes else 0)\<rparr>))"

section \<open>Totals over the queues\<close>

definition map_total :: "('v \<Rightarrow> nat) \<Rightarrow> ('k \<Rightarrow> 'v option) \<Rightarrow> nat" where
  "map_total f m = (\<Sum>k \<in> dom m. f (the (m k)))"

definition weight :: "('v \<Rightarrow> nat) \<Rightarrow> 'v option \<Rightarrow> nat" where
  "weight f x = (case x of None \<Rightarrow> 0 | Some v \<Rightarrow> f v)"

lemma weight_simps [simp]: "weight f None = 0" "weight f (Some v) = f v"
  by (simp_all add: weight_def)

lemma map_total_split:
  assumes "finite (dom m)"
  shows "map_total f m = weight f (m k) + (\<Sum>j \<in> dom m - {k}. f (the (m j)))"
proof (cases "m k")
  case None
  then have "dom m - {k} = dom m"
    by auto
  with None show ?thesis
    by (simp add: map_total_def)
next
  case (Some v)
  with assms show ?thesis
    by (simp add: map_total_def sum.remove [of "dom m" k] domI)
qed

lemma map_total_update:
  assumes "finite (dom m)"
  shows "map_total f (m(k := x)) + weight f (m k) = map_total f m + weight f x"
proof -
  have "dom (m(k := x)) - {k} = dom m - {k}"
    by auto
  then have "(\<Sum>j \<in> dom (m(k := x)) - {k}. f (the ((m(k := x)) j))) = (\<Sum>j \<in> dom m - {k}. f (the (m j)))"
    by (intro sum.cong) auto
  moreover have "finite (dom (m(k := x)))"
    using assms by simp
  ultimately show ?thesis
    using map_total_split [OF assms, of f k] map_total_split [of "m(k := x)" f k] by simp
qed

lemma weight_le_total: "finite (dom m) \<Longrightarrow> weight f (m k) \<le> map_total f m"
  using map_total_split [of m f k] by simp

section \<open>Invariant\<close>

definition queue_bytes :: "StoredMessage list \<Rightarrow> nat" where
  "queue_bytes queue = sum_list (map sm_accounted_bytes queue)"

definition queue_ok :: "16 arr \<Rightarrow> StoredMessage list \<Rightarrow> bool" where
  "queue_ok device_id queue \<longleftrightarrow>
     length queue \<le> MAX_PER_DEVICE \<and> distinct (map (em_message_id \<circ> sm_message) queue) \<and>
     (\<forall>stored \<in> set queue. em_recipient_device_id (sm_message stored) = device_id \<and>
        valid_message (sm_message stored) \<and>
        sm_accounted_bytes stored = message_size (sm_message stored))"

definition relay_inv :: "RelayInner \<Rightarrow> bool" where
  "relay_inv g \<longleftrightarrow>
     finite (dom (ri_queues g)) \<and>
     ri_total_messages g = map_total length (ri_queues g) \<and>
     ri_total_bytes g = map_total queue_bytes (ri_queues g) \<and>
     ri_total_messages g \<le> MAX_TOTAL_MESSAGES \<and> ri_total_bytes g \<le> MAX_TOTAL_BYTES \<and>
     (\<forall>device_id queue. ri_queues g device_id = Some queue \<longrightarrow> queue_ok device_id queue)"

definition replace_queue :: "16 arr \<Rightarrow> StoredMessage list option \<Rightarrow> RelayInner \<Rightarrow> RelayInner" where
  "replace_queue device_id x g =
     \<lparr>ri_queues = (ri_queues g)(device_id := x),
      ri_total_messages =
        ri_total_messages g + weight length x - weight length (ri_queues g device_id),
      ri_total_bytes =
        ri_total_bytes g + weight queue_bytes x - weight queue_bytes (ri_queues g device_id)\<rparr>"

lemma replace_queue_inv:
  assumes inv: "relay_inv g" and "pred_option (queue_ok device_id) x"
    and "ri_total_messages g + weight length x
           \<le> MAX_TOTAL_MESSAGES + weight length (ri_queues g device_id)"
    and "ri_total_bytes g + weight queue_bytes x
           \<le> MAX_TOTAL_BYTES + weight queue_bytes (ri_queues g device_id)"
  shows "relay_inv (replace_queue device_id x g)"
proof -
  have fin: "finite (dom (ri_queues g))"
    using inv by (simp add: relay_inv_def)
  note total = map_total_update [OF fin, of _ device_id x] weight_le_total [OF fin, of _ device_id]
  show ?thesis
    using inv assms(2-4) total [of length] total [of queue_bytes] fin
    by (auto simp: relay_inv_def replace_queue_def)
qed

lemma queue_bytes_Nil [simp]: "queue_bytes [] = 0"
  by (simp add: queue_bytes_def)

lemma queue_bytes_filter:
  "queue_bytes queue = queue_bytes (filter P queue) + queue_bytes (filter (\<lambda>x. \<not> P x) queue)"
  by (induction queue) (simp_all add: queue_bytes_def)

lemma length_filter_split: "length xs = length (filter P xs) + length (filter (\<lambda>x. \<not> P x) xs)"
  by (induction xs) simp_all

lemma saturating_sum:
  "b + queue_bytes queue \<le> usize_MAX \<Longrightarrow>
     foldl (\<lambda>b stored. usize_saturating_add b (sm_accounted_bytes stored)) b queue =
     b + queue_bytes queue"
  by (induction queue arbitrary: b) (simp_all add: queue_bytes_def usize_saturating_add_def add.assoc)

lemma queue_bytes_bound:
  assumes "relay_inv g" and "ri_queues g device_id = Some queue"
  shows "queue_bytes queue \<le> MAX_TOTAL_BYTES"
  using assms weight_le_total [of "ri_queues g" queue_bytes device_id] by (simp add: relay_inv_def)

text \<open>On a consistent state, dropping the expired messages is a replacement of the queue.\<close>

lemma remove_expired_eq:
  assumes "relay_inv g" and "ri_queues g device_id = Some queue"
  shows "remove_expired queue now =
    (length (filter (\<lambda>stored. sm_expires_at_ms stored \<le> now) queue),
     queue_bytes (filter (\<lambda>stored. sm_expires_at_ms stored \<le> now) queue),
     filter (\<lambda>stored. now < sm_expires_at_ms stored) queue)"
proof -
  have "queue_bytes (filter (\<lambda>stored. sm_expires_at_ms stored \<le> now) queue) \<le> usize_MAX"
    using queue_bytes_bound [OF assms] queue_bytes_filter [of queue "\<lambda>stored. sm_expires_at_ms stored \<le> now"]
    by (simp add: MAX_TOTAL_BYTES_def usize_MAX_def)
  then show ?thesis
    by (simp add: remove_expired_def Let_def saturating_sum not_le)
qed

abbreviation live :: "u64 \<Rightarrow> StoredMessage list \<Rightarrow> StoredMessage list" where
  "live now queue \<equiv> filter (\<lambda>stored. now < sm_expires_at_ms stored) queue"

lemma live_split:
  "length queue = length (filter (\<lambda>stored. sm_expires_at_ms stored \<le> now) queue) + length (live now queue)"
  "queue_bytes queue =
     queue_bytes (filter (\<lambda>stored. sm_expires_at_ms stored \<le> now) queue) + queue_bytes (live now queue)"
  using length_filter_split [of queue "\<lambda>stored. sm_expires_at_ms stored \<le> now"]
    queue_bytes_filter [of queue "\<lambda>stored. sm_expires_at_ms stored \<le> now"]
  by (simp_all add: not_le)

lemma queue_ok_filter: "queue_ok device_id queue \<Longrightarrow> queue_ok device_id (filter P queue)"
  by (auto simp: queue_ok_def distinct_map_filter intro: le_trans [OF length_filter_le])

section \<open>The operations on a consistent state\<close>

lemma expire_replace:
  assumes "relay_inv g" and "ri_queues g device_id = Some queue"
    and "weight length x = length (live now queue)"
    and "weight queue_bytes x = queue_bytes (live now queue)"
  shows "\<lparr>ri_queues = (ri_queues g)(device_id := x),
      ri_total_messages = ri_total_messages g -
        length (filter (\<lambda>stored. sm_expires_at_ms stored \<le> now) queue),
      ri_total_bytes = ri_total_bytes g -
        queue_bytes (filter (\<lambda>stored. sm_expires_at_ms stored \<le> now) queue)\<rparr> =
    replace_queue device_id x g"
  using assms live_split [of queue now] weight_le_total [of "ri_queues g" length device_id]
    weight_le_total [of "ri_queues g" queue_bytes device_id]
  by (simp add: replace_queue_def relay_inv_def)

abbreviation queue_left :: "StoredMessage list \<Rightarrow> StoredMessage list option" where
  "queue_left queue \<equiv> (if queue = [] then None else Some queue)"

lemma weight_queue_left [simp]:
  "weight length (queue_left queue) = length queue"
  "weight queue_bytes (queue_left queue) = queue_bytes queue"
  by (simp_all add: queue_bytes_def)

lemma pull_eq:
  assumes "relay_inv g"
  shows "RelayStore_pull now device_id g =
    (case ri_queues g device_id of
       None \<Rightarrow> ([], g)
     | Some queue \<Rightarrow> (map sm_message (live now queue),
                       replace_queue device_id (queue_left (live now queue)) g))"
  using remove_expired_eq [OF assms] expire_replace [OF assms]
  by (simp add: RelayStore_pull_def split: option.split)

definition accept :: "u64 \<Rightarrow> EncryptedMessage \<Rightarrow> StoredMessage" where
  "accept now message =
     \<lparr>sm_message = message, sm_expires_at_ms = u64_saturating_add now OFFLINE_TTL_MS,
      sm_accounted_bytes = message_size message\<rparr>"

text \<open>The queue a push works on: what is live of the recipient's queue.\<close>

definition live_queue :: "u64 \<Rightarrow> 16 arr \<Rightarrow> RelayInner \<Rightarrow> StoredMessage list" where
  "live_queue now device_id g =
     (case ri_queues g device_id of None \<Rightarrow> [] | Some queue \<Rightarrow> live now queue)"

lemma push_cases:
  assumes inv: "relay_inv g" and push: "RelayStore_push now message g = (result, g')"
  obtains (refused) "result \<noteq> Accepted"
      "g' = g \<or> g' = replace_queue (em_recipient_device_id message)
                 (Some (live_queue now (em_recipient_device_id message) g)) g"
  | (accepted) "result = Accepted" "valid_message message"
      "em_message_id message \<notin>
         em_message_id ` sm_message ` set (live_queue now (em_recipient_device_id message) g)"
      "length (live_queue now (em_recipient_device_id message) g) < MAX_PER_DEVICE"
      "g' = replace_queue (em_recipient_device_id message)
         (Some (live_queue now (em_recipient_device_id message) g @ [accept now message])) g"
      "ri_total_messages g' \<le> MAX_TOTAL_MESSAGES" "ri_total_bytes g' \<le> MAX_TOTAL_BYTES"
proof -
  let ?d = "em_recipient_device_id message"
  let ?g1 = "if ri_queues g ?d = None then g else replace_queue ?d (Some (live_queue now ?d g)) g"
  let ?dup = "em_message_id message \<in> em_message_id ` sm_message ` set (live_queue now ?d g)"
  have g1: "RelayStore_push now message g =
      (if \<not> valid_message message \<or> u64_saturating_add now RELAY_MAX_CLOCK_SKEW_MS < em_sent_at_ms message \<or>
          OFFLINE_TTL_MS < u64_saturating_sub now (em_sent_at_ms message) then (Invalid, g)
       else if ?dup then (Duplicate, ?g1)
       else if MAX_PER_DEVICE \<le> length (live_queue now ?d g) then (Full, ?g1)
       else push_within_limits message (u64_saturating_add now OFFLINE_TTL_MS) (message_size message) ?g1)"
  proof (cases "ri_queues g ?d")
    case None
    then show ?thesis
      by (simp add: RelayStore_push_def live_queue_def MAX_PER_DEVICE_def)
  next
    case (Some queue)
    have "list_ex (\<lambda>stored. em_message_id (sm_message stored) = em_message_id message) (live now queue) \<longleftrightarrow>
        em_message_id message \<in> em_message_id ` sm_message ` set (live now queue)"
      by (auto simp: list_ex_iff image_iff)
    then show ?thesis
      using remove_expired_eq [OF inv Some] expire_replace [OF inv Some, of "Some (live now queue)" now]
      by (simp add: RelayStore_push_def live_queue_def Some)
  qed
  have queue1: "(case ri_queues ?g1 ?d of None \<Rightarrow> [] | Some queue \<Rightarrow> queue) = live_queue now ?d g"
    by (auto simp: live_queue_def replace_queue_def split: option.split)
  have grow: "\<lparr>ri_queues = (ri_queues ?g1)(?d \<mapsto> live_queue now ?d g @ [accept now message]),
      ri_total_messages = ri_total_messages ?g1 + 1,
      ri_total_bytes = ri_total_bytes ?g1 + message_size message\<rparr> =
      replace_queue ?d (Some (live_queue now ?d g @ [accept now message])) g"
    using inv weight_le_total [of "ri_queues g" length ?d] weight_le_total [of "ri_queues g" queue_bytes ?d]
    by (auto simp: replace_queue_def relay_inv_def live_queue_def queue_bytes_def accept_def
        split: option.split)
  show thesis
  proof (cases "result = Accepted")
    case False
    then show thesis
      using push refused
      by (auto simp: g1 push_within_limits_def Let_def split: if_splits)
  next
    case True
    with push have p: "push_within_limits message (u64_saturating_add now OFFLINE_TTL_MS)
        (message_size message) ?g1 = (Accepted, g')"
      and ok: "valid_message message" "\<not> ?dup" "length (live_queue now ?d g) < MAX_PER_DEVICE"
      by (auto simp: g1 split: if_splits)
    from p have g': "g' = replace_queue ?d (Some (live_queue now ?d g @ [accept now message])) g"
      using queue1 grow by (simp add: push_within_limits_def Let_def accept_def split: if_splits)
    have "ri_total_messages ?g1 < MAX_TOTAL_MESSAGES"
      and "ri_total_bytes ?g1 + message_size message \<le> MAX_TOTAL_BYTES"
      using p by (auto simp: push_within_limits_def usize_saturating_add_def MAX_TOTAL_BYTES_def
          usize_MAX_def min_def split: if_splits)
    then have "ri_total_messages g' \<le> MAX_TOTAL_MESSAGES" "ri_total_bytes g' \<le> MAX_TOTAL_BYTES"
      by (simp_all add: g' grow [symmetric])
    then show thesis
      by (rule accepted [OF True ok g'])
  qed
qed

lemma acked_one:
  assumes "distinct (map (em_message_id \<circ> sm_message) queue)"
  shows "(\<exists>stored. filter (\<lambda>stored. em_message_id (sm_message stored) = i) queue = [stored] \<and>
       foldl (\<lambda>b stored. if em_message_id (sm_message stored) = i then sm_accounted_bytes stored else b)
         b queue = sm_accounted_bytes stored) \<or>
    filter (\<lambda>stored. em_message_id (sm_message stored) = i) queue = [] \<and>
       foldl (\<lambda>b stored. if em_message_id (sm_message stored) = i then sm_accounted_bytes stored else b)
         b queue = b"
  using assms
proof (induction queue arbitrary: b)
  case (Cons a queue)
  show ?case
  proof (cases "em_message_id (sm_message a) = i")
    case True
    have "(em_message_id \<circ> sm_message) a \<notin> (em_message_id \<circ> sm_message) ` set queue"
      using Cons.prems by simp
    with True have "\<forall>stored \<in> set queue. em_message_id (sm_message stored) \<noteq> i"
      unfolding image_iff by auto
    then have "filter (\<lambda>stored. em_message_id (sm_message stored) = i) queue = []"
      by (simp add: filter_empty_conv)
    with True show ?thesis
      using Cons.IH [of "sm_accounted_bytes a"] Cons.prems by auto
  next
    case False
    with Cons show ?thesis by simp
  qed
qed simp

abbreviation unacked :: "16 arr \<Rightarrow> StoredMessage list \<Rightarrow> StoredMessage list" where
  "unacked i queue \<equiv> filter (\<lambda>stored. em_message_id (sm_message stored) \<noteq> i) queue"

lemma ack_eq:
  assumes inv: "relay_inv g"
  shows "RelayStore_ack device_id i g =
    (case ri_queues g device_id of
       None \<Rightarrow> (False, g)
     | Some queue \<Rightarrow> (i \<in> em_message_id ` sm_message ` set queue,
                       replace_queue device_id (queue_left (unacked i queue)) g))"
proof (cases "ri_queues g device_id")
  case None
  then show ?thesis by (simp add: RelayStore_ack_def)
next
  case (Some queue)
  let ?P = "\<lambda>stored. em_message_id (sm_message stored) = i"
  let ?f = "foldl (\<lambda>b stored. if ?P stored then sm_accounted_bytes stored else b) 0 queue"
  have "distinct (map (em_message_id \<circ> sm_message) queue)"
    using inv Some by (auto simp: relay_inv_def queue_ok_def)
  note one = acked_one [OF this, of i 0]
  have le: "length queue \<le> ri_total_messages g" "queue_bytes queue \<le> ri_total_bytes g"
    using inv weight_le_total [of "ri_queues g" length device_id]
      weight_le_total [of "ri_queues g" queue_bytes device_id]
    by (simp_all add: relay_inv_def Some)
  note split = length_filter_split [of queue ?P] queue_bytes_filter [of queue ?P]
  show ?thesis
  proof (cases "filter ?P queue = []")
    case True
    then have "unacked i queue = queue" "i \<notin> em_message_id ` sm_message ` set queue"
      by (auto simp: filter_empty_conv filter_id_conv)
    with le show ?thesis
      by (simp add: RelayStore_ack_def Some replace_queue_def Let_def)
  next
    case False
    then have "i \<in> em_message_id ` sm_message ` set queue"
      by (auto simp: filter_empty_conv)
    moreover have "length queue = Suc (length (unacked i queue))"
      "queue_bytes queue = ?f + queue_bytes (unacked i queue)"
      using one False split by (auto simp: queue_bytes_def)
    ultimately show ?thesis
      using le by (simp add: RelayStore_ack_def Some replace_queue_def Let_def)
  qed
qed

lemma live_queue_ok: "relay_inv g \<Longrightarrow> queue_ok device_id (live_queue now device_id g)"
  by (auto simp: relay_inv_def live_queue_def queue_ok_filter split: option.split)
    (simp add: queue_ok_def)

lemma shrink_inv:
  assumes "relay_inv g" and "pred_option (queue_ok device_id) x"
    and "weight length x \<le> weight length (ri_queues g device_id)"
    and "weight queue_bytes x \<le> weight queue_bytes (ri_queues g device_id)"
  shows "relay_inv (replace_queue device_id x g)"
proof -
  have "ri_total_messages g \<le> MAX_TOTAL_MESSAGES" "ri_total_bytes g \<le> MAX_TOTAL_BYTES"
    using assms(1) by (simp_all add: relay_inv_def)
  with assms show ?thesis
    by (intro replace_queue_inv) linarith+
qed

lemma queue_bytes_filter_le: "queue_bytes (filter P queue) \<le> queue_bytes queue"
  using queue_bytes_filter [of queue P] by simp

lemma live_queue_weight:
  "length (live_queue now device_id g) \<le> weight length (ri_queues g device_id)"
  "queue_bytes (live_queue now device_id g) \<le> weight queue_bytes (ri_queues g device_id)"
  by (auto simp: live_queue_def queue_bytes_filter_le split: option.split)

lemma push_inv:
  assumes inv: "relay_inv g" and push: "RelayStore_push now message g = (result, g')"
  shows "relay_inv g'"
  using assms
proof (cases rule: push_cases)
  case refused
  have "relay_inv (replace_queue (em_recipient_device_id message)
      (Some (live_queue now (em_recipient_device_id message) g)) g)"
    by (rule shrink_inv [OF inv]) (simp_all add: live_queue_weight live_queue_ok [OF inv])
  with refused(2) inv show ?thesis by auto
next
  case accepted
  let ?d = "em_recipient_device_id message"
  let ?q = "live_queue now ?d g"
  have "queue_ok ?d (?q @ [accept now message])"
    using live_queue_ok [OF inv, of ?d now] accepted(2-4)
    by (auto simp: queue_ok_def accept_def image_iff)
  moreover have "weight length (ri_queues g ?d) \<le> ri_total_messages g"
    "weight queue_bytes (ri_queues g ?d) \<le> ri_total_bytes g"
    using inv weight_le_total by (auto simp: relay_inv_def)
  then have "ri_total_messages g + length (?q @ [accept now message])
        \<le> MAX_TOTAL_MESSAGES + weight length (ri_queues g ?d)"
      "ri_total_bytes g + queue_bytes (?q @ [accept now message])
        \<le> MAX_TOTAL_BYTES + weight queue_bytes (ri_queues g ?d)"
    using accepted(6,7) by (simp_all add: accepted(5) replace_queue_def)
  ultimately show ?thesis
    unfolding accepted(5) by (intro replace_queue_inv [OF inv]) simp_all
qed

lemma pull_inv: "relay_inv g \<Longrightarrow> relay_inv (snd (RelayStore_pull now device_id g))"
  using live_queue_ok [of g device_id now]
  by (auto simp: pull_eq live_queue_def queue_bytes_filter_le split: option.split intro!: shrink_inv)

lemma ack_inv:
  assumes "relay_inv g"
  shows "relay_inv (snd (RelayStore_ack device_id i g))"
proof (cases "ri_queues g device_id")
  case None
  with assms show ?thesis by (simp add: ack_eq)
next
  case (Some queue)
  then have "queue_ok device_id (unacked i queue)"
    using assms by (simp add: relay_inv_def queue_ok_filter)
  then have "relay_inv (replace_queue device_id (queue_left (unacked i queue)) g)"
    using Some by (intro shrink_inv [OF assms]) (simp_all add: queue_bytes_filter_le)
  then show ?thesis
    by (simp add: ack_eq [OF assms] Some)
qed

section \<open>The relay as a machine\<close>

datatype relay_op = RPush u64 EncryptedMessage | RPull u64 "16 arr" | RAck "16 arr" "16 arr"

datatype relay_answer = RPushed PushResult | RPulled "EncryptedMessage list" | RAcked bool

fun relay_step :: "relay_op \<Rightarrow> RelayInner \<Rightarrow> relay_answer \<times> RelayInner" where
  "relay_step (RPush now message) g = apfst RPushed (RelayStore_push now message g)"
| "relay_step (RPull now device_id) g = apfst RPulled (RelayStore_pull now device_id g)"
| "relay_step (RAck device_id i) g = apfst RAcked (RelayStore_ack device_id i g)"

interpretation relay: machine relay_step relay_inv
proof (unfold_locales, goal_cases)
  case (1 g op)
  then show ?case
    by (cases op) (auto simp: pull_inv ack_inv intro: push_inv [OF _ prod.collapse [symmetric]])
qed

lemma relay_inv_default: "relay_inv RelayStore_default"
  by (simp add: relay_inv_def RelayStore_default_def map_total_def)

section \<open>Properties\<close>

text \<open>
  C26. The relay's accounting is exact and its limits hold: after any sequence of pushes, pulls and
  acknowledgements, at any times, the counters are the number of messages stored and the sum of
  their encoded sizes, at most 65536 messages, 512 MiB and 256 messages per device are held, and
  every stored message is valid, lies in the queue of its recipient and is there once.
\<close>

theorem relay_accounting:
  "case run relay_step ops RelayStore_default of (answers, g) \<Rightarrow>
     finite (dom (ri_queues g)) \<and>
     ri_total_messages g = (\<Sum>d \<in> dom (ri_queues g). length (the (ri_queues g d))) \<and>
     ri_total_bytes g = (\<Sum>d \<in> dom (ri_queues g). sum_list (map (message_size \<circ> sm_message)
                           (the (ri_queues g d)))) \<and>
     ri_total_messages g \<le> 65536 \<and> ri_total_bytes g \<le> 512 * 1024 * 1024 \<and>
     (\<forall>d. pred_option (\<lambda>queue. length queue \<le> 256 \<and>
        distinct (map (em_message_id \<circ> sm_message) queue) \<and>
        list_all (\<lambda>stored. em_recipient_device_id (sm_message stored) = d \<and>
          valid_message (sm_message stored)) queue) (ri_queues g d))"
proof -
  let ?g = "snd (run relay_step ops RelayStore_default)"
  have inv: "relay_inv ?g"
    using relay_inv_default by (rule relay.run_inv)
  then have ok: "queue_ok d queue" if "ri_queues ?g d = Some queue" for d queue
    using that by (simp add: relay_inv_def)
  have "queue_bytes (the (ri_queues ?g d)) =
      sum_list (map (message_size \<circ> sm_message) (the (ri_queues ?g d)))" if "d \<in> dom (ri_queues ?g)" for d
    using ok that by (auto simp: queue_bytes_def queue_ok_def intro!: arg_cong [where f = sum_list])
  then have "(\<Sum>d \<in> dom (ri_queues ?g). queue_bytes (the (ri_queues ?g d))) =
      (\<Sum>d \<in> dom (ri_queues ?g). sum_list (map (message_size \<circ> sm_message) (the (ri_queues ?g d))))"
    by (intro sum.cong) simp_all
  moreover have "pred_option (\<lambda>queue. length queue \<le> 256 \<and>
      distinct (map (em_message_id \<circ> sm_message) queue) \<and>
      list_all (\<lambda>stored. em_recipient_device_id (sm_message stored) = d \<and>
        valid_message (sm_message stored)) queue) (ri_queues ?g d)" for d
    using ok by (cases "ri_queues ?g d") (auto simp: queue_ok_def MAX_PER_DEVICE_def list_all_iff)
  ultimately show ?thesis
    using inv by (simp add: case_prod_beta relay_inv_def map_total_def MAX_TOTAL_MESSAGES_def
        MAX_TOTAL_BYTES_def)
qed

text \<open>The message a step accepted.\<close>

fun accepted_message :: "relay_op \<Rightarrow> relay_answer \<Rightarrow> EncryptedMessage option" where
  "accepted_message (RPush now message) (RPushed Accepted) = Some message"
| "accepted_message op answer = None"

definition held :: "16 arr \<Rightarrow> RelayInner \<Rightarrow> StoredMessage list" where
  "held device_id g = (case ri_queues g device_id of None \<Rightarrow> [] | Some queue \<Rightarrow> queue)"

lemma held_replace [simp]:
  "held d (replace_queue device_id x g) =
     (if d = device_id then (case x of None \<Rightarrow> [] | Some queue \<Rightarrow> queue) else held d g)"
  by (simp add: held_def replace_queue_def)

lemma held_default: "held d RelayStore_default = []"
  by (simp add: held_def RelayStore_default_def)

lemma live_queue_held: "live_queue now device_id g = live now (held device_id g)"
  by (simp add: live_queue_def held_def split: option.split)

lemma some_filter [simp]: "\<exists>P. filter Q xs = filter P xs" "\<exists>P. xs = filter P xs" "\<exists>P. [] = filter P xs"
  by (rule exI [of _ Q], rule refl) (rule exI [of _ "\<lambda>_. True"], simp, rule exI [of _ "\<lambda>_. False"], simp)

text \<open>One step on one queue: messages leave it, and an accepted one joins at the end.\<close>

lemma step_held:
  assumes inv: "relay_inv g"
  shows "\<exists>P. held d (snd (relay_step op g)) = filter P (held d g) @
    (case accepted_message op (fst (relay_step op g)) of
       Some message \<Rightarrow> (case op of RPush now m \<Rightarrow> if em_recipient_device_id m = d then [accept now m] else [])
     | None \<Rightarrow> [])"
proof (cases op)
  case (RPush now message)
  let ?r = "RelayStore_push now message g"
  have "?r = (fst ?r, snd ?r)" by simp
  with inv show ?thesis
  proof (cases rule: push_cases)
    case refused
    then have "accepted_message op (fst (relay_step op g)) = None"
      using RPush by (cases "fst ?r") auto
    with refused(2) RPush show ?thesis
      by (auto simp: live_queue_held)
  next
    case accepted
    then have "accepted_message op (fst (relay_step op g)) = Some message"
      using RPush by simp
    with accepted(5) RPush show ?thesis
      by (auto simp: live_queue_held)
  qed
next
  case (RPull now device_id)
  then show ?thesis
    using inv by (auto simp: pull_eq held_def [of device_id]
        split: option.split)
next
  case (RAck device_id i)
  then show ?thesis
    using inv by (auto simp: ack_eq held_def [of device_id]
        split: option.split)
qed

lemma step_messages:
  assumes "relay_inv g"
  shows "subseq (map sm_message (held d (snd (relay_step op g))))
    (map sm_message (held d g) @
     filter (\<lambda>m. em_recipient_device_id m = d) (granted accepted_message [op] [fst (relay_step op g)]))"
proof -
  obtain P where P: "held d (snd (relay_step op g)) = filter P (held d g) @
      (case accepted_message op (fst (relay_step op g)) of
         Some message \<Rightarrow> (case op of RPush now m \<Rightarrow> if em_recipient_device_id m = d then [accept now m] else [])
       | None \<Rightarrow> [])"
    using step_held [OF assms] by blast
  have kept: "subseq (map sm_message (filter P (held d g))) (map sm_message (held d g))"
    by (simp add: subseq_map)
  show ?thesis
  proof (cases "accepted_message op (fst (relay_step op g))")
    case None
    with P kept show ?thesis by simp
  next
    case (Some message)
    then obtain now where "op = RPush now message"
      by (cases "(op, fst (relay_step op g))" rule: accepted_message.cases) auto
    with P kept Some show ?thesis
      by (auto simp: accept_def intro: list_emb_append_mono)
  qed
qed

lemma run_messages:
  "relay_inv g \<Longrightarrow>
   subseq (map sm_message (held d (snd (run relay_step ops g))))
     (map sm_message (held d g) @
      filter (\<lambda>m. em_recipient_device_id m = d) (granted accepted_message ops (fst (run relay_step ops g))))"
proof (induction ops arbitrary: g)
  case (Cons op ops)
  let ?g = "snd (relay_step op g)"
  let ?new = "\<lambda>ops outs. filter (\<lambda>m. em_recipient_device_id m = d) (granted accepted_message ops outs)"
  have "relay_inv ?g"
    using Cons.prems by (rule relay.step_inv)
  from Cons.IH [OF this] have "subseq (map sm_message (held d (snd (run relay_step ops ?g))))
      (map sm_message (held d ?g) @ ?new ops (fst (run relay_step ops ?g)))" .
  also have "subseq \<dots> ((map sm_message (held d g) @ ?new [op] [fst (relay_step op g)]) @
      ?new ops (fst (run relay_step ops ?g)))"
    using step_messages [OF Cons.prems] by (rule list_emb_append_mono) simp
  finally show ?case
    by (simp only: run_Cons_outputs run_Cons_state granted_Cons [of _ op ops] filter_append append_assoc)
qed simp

lemma pull_held: "relay_inv g \<Longrightarrow> fst (RelayStore_pull now d g) = map sm_message (live now (held d g))"
  by (simp add: pull_eq held_def split: option.split)

text \<open>
  The relay delivers in order and invents nothing: what a device pulls, after any sequence of
  operations, is a subsequence of the messages accepted for this device, in the order in which
  they were accepted; no device ever sees a message addressed to another.
\<close>

theorem relay_delivers_in_order:
  "case run relay_step ops RelayStore_default of (answers, g) \<Rightarrow>
     subseq (fst (RelayStore_pull now device_id g))
       (filter (\<lambda>m. em_recipient_device_id m = device_id) (granted accepted_message ops answers))"
proof -
  let ?g = "snd (run relay_step ops RelayStore_default)"
  have "relay_inv ?g"
    using relay_inv_default by (rule relay.run_inv)
  then have "subseq (fst (RelayStore_pull now device_id ?g)) (map sm_message (held device_id ?g))"
    by (simp add: pull_held subseq_map)
  also have "subseq \<dots> (filter (\<lambda>m. em_recipient_device_id m = device_id)
      (granted accepted_message ops (fst (run relay_step ops RelayStore_default))))"
    using run_messages [OF relay_inv_default, of device_id ops]
    by (simp add: held_default)
  finally show ?thesis
    by (simp add: case_prod_beta)
qed

text \<open>The operations that run before a given time.\<close>

fun clock_before :: "u64 \<Rightarrow> relay_op \<Rightarrow> bool" where
  "clock_before x (RPush now message) \<longleftrightarrow> now < x"
| "clock_before x (RPull now device_id) \<longleftrightarrow> now < x"
| "clock_before x (RAck device_id i) \<longleftrightarrow> True"

lemma step_keeps:
  assumes "relay_inv g" and "stored \<in> set (held d g)" and "clock_before (sm_expires_at_ms stored) op"
    and "op \<noteq> RAck d (em_message_id (sm_message stored))"
  shows "stored \<in> set (held d (snd (relay_step op g)))"
proof (cases op)
  case (RPush now message)
  let ?r = "RelayStore_push now message g"
  have "?r = (fst ?r, snd ?r)" by simp
  with assms(1) show ?thesis
  proof (cases rule: push_cases)
    case refused
    then show ?thesis
      using assms(2,3) RPush by (auto simp: live_queue_held)
  next
    case accepted
    then show ?thesis
      using assms(2,3) RPush by (auto simp: live_queue_held)
  qed
next
  case (RPull now device_id)
  then show ?thesis
    using assms by (cases "ri_queues g device_id") (auto simp: pull_eq held_def [of device_id] filter_empty_conv)
next
  case (RAck device_id i)
  then show ?thesis
    using assms by (cases "ri_queues g device_id") (auto simp: ack_eq held_def [of device_id] filter_empty_conv)
qed

lemma run_keeps:
  assumes "relay_inv g" and "stored \<in> set (held d g)"
    and "\<forall>op \<in> set ops. clock_before (sm_expires_at_ms stored) op \<and>
           op \<noteq> RAck d (em_message_id (sm_message stored))"
  shows "stored \<in> set (held d (snd (run relay_step ops g)))"
  using assms
proof (induction ops arbitrary: g)
  case (Cons op ops)
  then show ?case
    using step_keeps [of g stored d op] relay.step_inv [of g op] by simp
qed simp

lemma pushed_message_survives:
  assumes "relay_inv g0" and "RelayStore_push now message g0 = (Accepted, g)"
    and "\<forall>op \<in> set ops. clock_before (u64_saturating_add now OFFLINE_TTL_MS) op \<and>
           op \<noteq> RAck (em_recipient_device_id message) (em_message_id message)"
    and "t < u64_saturating_add now OFFLINE_TTL_MS"
  shows "message \<in> set (fst (RelayStore_pull t (em_recipient_device_id message) (snd (run relay_step ops g))))"
proof -
  let ?d = "em_recipient_device_id message"
  let ?g = "snd (run relay_step ops g)"
  have inv: "relay_inv g"
    using assms(1,2) by (rule push_inv)
  have "accept now message \<in> set (held ?d g)"
    using assms(1,2) by (cases rule: push_cases) auto
  then have "accept now message \<in> set (held ?d ?g)"
    using assms(3) inv by (intro run_keeps) (simp_all add: accept_def)
  then have "accept now message \<in> set (live t (held ?d ?g))"
    using assms(4) by (simp add: accept_def)
  then have "sm_message (accept now message) \<in> sm_message ` set (live t (held ?d ?g))"
    by (rule imageI)
  moreover have "relay_inv ?g"
    using inv by (rule relay.run_inv)
  ultimately show ?thesis
    by (simp only: pull_held set_map) (simp add: accept_def)
qed

text \<open>
  An accepted message is not lost: once a push was accepted at time \<open>now\<close>, then as long as the
  recipient has not acknowledged it and seven days have not passed on the relay's clock - whatever
  else is pushed, pulled or acknowledged, by whomever - a pull by the recipient returns it, and
  returns no other message with its id.
\<close>

theorem relay_keeps_until_acknowledged:
  assumes "RelayStore_push now message (snd (run relay_step before RelayStore_default)) = (Accepted, g)"
    and "\<forall>op \<in> set after. clock_before (u64_saturating_add now OFFLINE_TTL_MS) op \<and>
           op \<noteq> RAck (em_recipient_device_id message) (em_message_id message)"
    and "t < u64_saturating_add now OFFLINE_TTL_MS"
  shows "message \<in> set (fst (RelayStore_pull t (em_recipient_device_id message)
                             (snd (run relay_step after g)))) \<and>
    distinct (map em_message_id (fst (RelayStore_pull t (em_recipient_device_id message)
                             (snd (run relay_step after g)))))"
proof -
  let ?d = "em_recipient_device_id message"
  let ?g = "snd (run relay_step after g)"
  have before: "relay_inv (snd (run relay_step before RelayStore_default))"
    using relay_inv_default by (rule relay.run_inv)
  have "relay_inv ?g"
    by (rule relay.run_inv) (rule push_inv [OF before assms(1)])
  then have "distinct (map em_message_id (fst (RelayStore_pull t ?d ?g)))"
    using live_queue_ok [of ?g ?d t] by (simp add: pull_held live_queue_held queue_ok_def)
  with pushed_message_survives [OF before assms] show ?thesis
    by (rule conjI)
qed

definition relay_sample :: EncryptedMessage where
  "relay_sample = EncryptedMessage_new (fill 1) (fill 2) (fill 3) (fill 4) [5] [6] 1000"

lemma relay_sample_accepted: "fst (RelayStore_push 1000 relay_sample RelayStore_default) = Accepted"
  by (simp add: RelayStore_push_def relay_sample_def EncryptedMessage_new_def valid_message_def
      MAX_RATCHET_HEADER_def RELAY_MAX_CIPHERTEXT_def RelayStore_default_def push_within_limits_def
      MAX_TOTAL_MESSAGES_def MAX_TOTAL_BYTES_def message_size_def EncryptedMessage_encode_def
      u32_try_from_def u32_MAX_nat_def usize_checked_add_def usize_MAX_def usize_saturating_add_def
      u64_saturating_sub_def u64_saturating_add_def RELAY_MAX_CLOCK_SKEW_MS_def Let_def)

theorem relay_keeps_until_acknowledged_witness:
  "relay_sample \<in> set (fst (RelayStore_pull 2000 (fill 4)
     (snd (run relay_step [RAck (fill 4) (fill 9), RPull 1500 (fill 4)]
             (snd (RelayStore_push 1000 relay_sample RelayStore_default))))))"
proof -
  have d: "em_recipient_device_id relay_sample = fill 4" "em_message_id relay_sample = fill 1"
    by (simp_all add: relay_sample_def EncryptedMessage_new_def)
  have "RelayStore_push 1000 relay_sample (snd (run relay_step [] RelayStore_default)) =
      (Accepted, snd (RelayStore_push 1000 relay_sample RelayStore_default))"
    using relay_sample_accepted by (simp add: prod_eq_iff)
  from relay_keeps_until_acknowledged [OF this, of "[RAck (fill 4) (fill 9), RPull 1500 (fill 4)]" 2000]
  show ?thesis
    by (simp add: d u64_saturating_add_def OFFLINE_TTL_MS_def)
qed

end
