(* ===== verification/DhRatchet.thy ===== *)
theory DhRatchet
  imports Contracts
begin

text \<open>
  The Diffie-Hellman ratchet of \<open>core/dh-ratchet/src/lib.rs\<close>. X25519 and HKDF are parameters:
  \<open>x_public s\<close> is the public key of the secret \<open>s\<close>, \<open>x_dh s p\<close> the shared secret with the
  public key \<open>p\<close>, and \<open>hkdf64 salt ikm info\<close> is \<open>Hkdf::new\<close> with \<open>expand\<close> into 64 bytes. The
  secrets drawn from the operating system are arguments.
\<close>

type_synonym x_public = "32 arr \<Rightarrow> 32 arr"
type_synonym x_dh = "32 arr \<Rightarrow> 32 arr \<Rightarrow> 32 arr"
type_synonym hkdf64 = "u8 list \<Rightarrow> u8 list \<Rightarrow> u8 list \<Rightarrow> 64 arr option"

section \<open>State and operations\<close>

definition ROOT_DOMAIN :: "u8 list" where
  "ROOT_DOMAIN = byte_string ''NEXA/DH-RATCHET/v1''"

datatype DhRatchetError = InvalidPeerKey | DhKdf

record DhRatchetState =
  dh_root_key :: "32 arr"
  dh_private :: "32 arr"
  dh_public :: "32 arr"

definition DhRatchetState_new :: "x_public \<Rightarrow> 32 arr \<Rightarrow> 32 arr \<Rightarrow> DhRatchetState" where
  "DhRatchetState_new x_public private root_key =
     \<lparr>dh_root_key = root_key, dh_private = private, dh_public = x_public private\<rparr>"

definition DhRatchetState_root_key :: "DhRatchetState \<Rightarrow> 32 arr" where
  "DhRatchetState_root_key s = dh_root_key s"

definition ratchet ::
  "x_public \<Rightarrow> x_dh \<Rightarrow> hkdf64 \<Rightarrow> 32 arr \<Rightarrow> 32 arr \<Rightarrow> DhRatchetState \<Rightarrow>
     (DhRatchetError + 32 arr \<times> 32 arr) \<times> DhRatchetState" where
  "ratchet x_public x_dh hkdf64 fresh peer_public s =
     (let dh = x_dh (dh_private s) peer_public in
      if list_all (\<lambda>b. b = 0) (bytes dh) then (Err InvalidPeerKey, s)
      else let ikm = bytes dh @ bytes (dh_root_key s) in
        (case hkdf64 ROOT_DOMAIN (bytes (dh_root_key s)) ikm of
           None \<Rightarrow> (Err DhKdf, s)
         | Some expanded \<Rightarrow>
             let next_root = arr (take 32 (bytes expanded)); chain = arr (drop 32 (bytes expanded)) in
             (Ok (next_root, chain),
              \<lparr>dh_root_key = next_root, dh_private = fresh, dh_public = x_public fresh\<rparr>)))"

section \<open>Two parties\<close>

text \<open>
  The documented law of X25519: both parties compute the same shared secret.
\<close>

definition dh_agrees :: "x_public \<Rightarrow> x_dh \<Rightarrow> bool" where
  "dh_agrees x_public x_dh \<longleftrightarrow> (\<forall>a b. x_dh a (x_public b) = x_dh b (x_public a))"

text \<open>
  One exchange: each side ratchets with the public key the other had before, then draws a fresh
  secret. Two sides are in step when they hold the same root and each public key belongs to its
  private key.
\<close>

definition exchange ::
  "x_public \<Rightarrow> x_dh \<Rightarrow> hkdf64 \<Rightarrow> 32 arr \<times> 32 arr \<Rightarrow> DhRatchetState \<times> DhRatchetState \<Rightarrow>
     ((DhRatchetError + 32 arr \<times> 32 arr) \<times> (DhRatchetError + 32 arr \<times> 32 arr)) \<times>
     (DhRatchetState \<times> DhRatchetState)" where
  "exchange x_public x_dh hkdf64 fresh ab =
     (let (ra, a) = ratchet x_public x_dh hkdf64 (fst fresh) (dh_public (snd ab)) (fst ab);
          (rb, b) = ratchet x_public x_dh hkdf64 (snd fresh) (dh_public (fst ab)) (snd ab)
      in ((ra, rb), (a, b)))"

definition in_step :: "x_public \<Rightarrow> DhRatchetState \<times> DhRatchetState \<Rightarrow> bool" where
  "in_step x_public ab \<longleftrightarrow>
     dh_root_key (fst ab) = dh_root_key (snd ab) \<and>
     dh_public (fst ab) = x_public (dh_private (fst ab)) \<and>
     dh_public (snd ab) = x_public (dh_private (snd ab))"

lemma exchange_in_step:
  assumes "dh_agrees x_public x_dh" and "in_step x_public ab"
  shows "in_step x_public (snd (exchange x_public x_dh hkdf64 fresh ab)) \<and>
    fst (fst (exchange x_public x_dh hkdf64 fresh ab)) =
    snd (fst (exchange x_public x_dh hkdf64 fresh ab))"
proof -
  have "x_dh (dh_private (fst ab)) (dh_public (snd ab)) = x_dh (dh_private (snd ab)) (dh_public (fst ab))"
    using assms by (simp add: dh_agrees_def in_step_def)
  with assms(2) show ?thesis
    by (auto simp: exchange_def ratchet_def in_step_def Let_def split: prod.splits option.splits
        if_splits)
qed

interpretation dh_pair: machine "exchange x_public x_dh hkdf64"
  "\<lambda>ab. dh_agrees x_public x_dh \<and> in_step x_public ab" for x_public x_dh hkdf64
  by unfold_locales (simp add: exchange_in_step)

interpretation dh_step: transactional
  "\<lambda>(fresh, peer). ratchet x_public x_dh hkdf64 fresh peer" for x_public x_dh hkdf64
  by unfold_locales (auto simp: ratchet_def Let_def split: if_splits option.splits)

section \<open>Properties\<close>

lemma exchange_same_answers:
  assumes "dh_agrees x_public x_dh" and "in_step x_public ab"
  shows "map fst (fst (run (exchange x_public x_dh hkdf64) fs ab)) =
    map snd (fst (run (exchange x_public x_dh hkdf64) fs ab))"
  using assms(2)
proof (induction fs arbitrary: ab)
  case (Cons f fs)
  note step = exchange_in_step [OF assms(1) Cons.prems, of hkdf64 f]
  then show ?case
    using Cons.IH [of "snd (exchange x_public x_dh hkdf64 f ab)"] by simp
qed simp

text \<open>
  C27. Agreement of the Diffie-Hellman ratchet: two parties that start from the same root and
  exchange their current public keys derive, in every one of any number of exchanges, the same
  next root and the same chain seed - or fail with the same error - and hold equal roots after
  all of them, whatever secrets either side draws.
\<close>

theorem dh_ratchet_agreement:
  assumes "dh_agrees x_public x_dh"
  shows "case run (exchange x_public x_dh hkdf64) fs
           (DhRatchetState_new x_public sa root, DhRatchetState_new x_public sb root) of
      (answers, a, b) \<Rightarrow> map fst answers = map snd answers \<and>
        DhRatchetState_root_key a = DhRatchetState_root_key b"
proof -
  let ?ab = "(DhRatchetState_new x_public sa root, DhRatchetState_new x_public sb root)"
  have "in_step x_public ?ab"
    by (simp add: in_step_def DhRatchetState_new_def)
  with assms have "in_step x_public (snd (run (exchange x_public x_dh hkdf64) fs ?ab))"
    and "map fst (fst (run (exchange x_public x_dh hkdf64) fs ?ab)) =
      map snd (fst (run (exchange x_public x_dh hkdf64) fs ?ab))"
    using dh_pair.run_inv [of x_public x_dh ?ab hkdf64 fs] by (blast intro: exchange_same_answers)+
  then show ?thesis
    by (simp add: case_prod_beta in_step_def DhRatchetState_root_key_def)
qed

theorem dh_ratchet_agreement_witness:
  "case run (exchange id (\<lambda>_ _. fill 3) (\<lambda>_ _ _. Some (fill 9))) [(fill 1, fill 2)]
     (DhRatchetState_new id (fill 5) (fill 4), DhRatchetState_new id (fill 6) (fill 4)) of
     (answers, a, b) \<Rightarrow> map fst answers = map snd answers \<and>
       DhRatchetState_root_key a = DhRatchetState_root_key b"
  by (rule dh_ratchet_agreement) (simp add: dh_agrees_def)

end
