(* ===== verification/Identity.thy ===== *)
theory Identity
  imports DhRatchet
begin

text \<open>
  The keys of \<open>core/identity/src/lib.rs\<close> and the publication helper of
  \<open>core/identity/src/prekeys.rs\<close>. Ed25519 and X25519 are crates outside the repository; their
  operations are the fields of one parameter \<open>primitives\<close>. A \<open>VerifyingKey\<close> is represented by
  the 32 bytes it was read from (\<open>from_bytes\<close> keeps them and \<open>to_bytes\<close> returns them);
  \<open>ed_key_ok\<close> says which bytes \<open>from_bytes\<close> accepts. Secrets drawn from the operating system
  are arguments.
\<close>

section \<open>Primitives and identifiers\<close>

record primitives =
  x_pub :: x_public
  x_agree :: x_dh
  ed_public :: "32 arr \<Rightarrow> 32 arr"
  ed_sign :: "32 arr \<Rightarrow> u8 list \<Rightarrow> 64 arr"
  ed_key_ok :: "32 arr \<Rightarrow> bool"
  ed_verify :: "32 arr \<Rightarrow> u8 list \<Rightarrow> 64 arr \<Rightarrow> bool"

text \<open>
  Documented behaviour: X25519 agrees, the public key of a secret is a valid verifying key and
  verifies what the secret signed.
\<close>

definition primitives_lawful :: "primitives \<Rightarrow> bool" where
  "primitives_lawful P \<longleftrightarrow>
     dh_agrees (x_pub P) (x_agree P) \<and>
     (\<forall>s. ed_key_ok P (ed_public P s)) \<and>
     (\<forall>s msg. ed_verify P (ed_public P s) msg (ed_sign P s msg))"

datatype DeviceId = DeviceId "16 arr"

datatype VerificationState = Unverified | Verified | Changed | RevokedState

section \<open>Identity keys and prekeys\<close>

record IdentityKey =
  ik_signing_key :: "32 arr"
  ik_agreement_secret :: "32 arr"
  ik_agreement_public :: "32 arr"

definition IdentityKey_generate :: "primitives \<Rightarrow> 32 arr \<Rightarrow> 32 arr \<Rightarrow> IdentityKey" where
  "IdentityKey_generate P signing_key agreement_secret =
     \<lparr>ik_signing_key = signing_key, ik_agreement_secret = agreement_secret,
      ik_agreement_public = x_pub P agreement_secret\<rparr>"

definition IdentityKey_public_key :: "primitives \<Rightarrow> IdentityKey \<Rightarrow> 32 arr" where
  "IdentityKey_public_key P k = ed_public P (ik_signing_key k)"

definition IdentityKey_sign :: "primitives \<Rightarrow> u8 list \<Rightarrow> IdentityKey \<Rightarrow> 64 arr" where
  "IdentityKey_sign P message k = ed_sign P (ik_signing_key k) message"

definition agreement_public_key :: "IdentityKey \<Rightarrow> 32 arr" where
  "agreement_public_key k = ik_agreement_public k"

definition agreement_diffie_hellman :: "primitives \<Rightarrow> 32 arr \<Rightarrow> IdentityKey \<Rightarrow> 32 arr" where
  "agreement_diffie_hellman P peer_public k = x_agree P (ik_agreement_secret k) peer_public"

record SignedPrekey =
  sp_secret :: "32 arr"
  sp_public :: "32 arr"

definition SignedPrekey_generate :: "primitives \<Rightarrow> 32 arr \<Rightarrow> SignedPrekey" where
  "SignedPrekey_generate P secret = \<lparr>sp_secret = secret, sp_public = x_pub P secret\<rparr>"

definition SignedPrekey_public_key :: "SignedPrekey \<Rightarrow> 32 arr" where
  "SignedPrekey_public_key k = sp_public k"

definition SignedPrekey_diffie_hellman :: "primitives \<Rightarrow> 32 arr \<Rightarrow> SignedPrekey \<Rightarrow> 32 arr" where
  "SignedPrekey_diffie_hellman P peer_public k = x_agree P (sp_secret k) peer_public"

record OneTimePrekey =
  ot_key_id :: u32
  ot_secret :: "32 arr"
  ot_public :: "32 arr"

definition OneTimePrekey_generate :: "primitives \<Rightarrow> u32 \<Rightarrow> 32 arr \<Rightarrow> OneTimePrekey" where
  "OneTimePrekey_generate P key_id secret =
     \<lparr>ot_key_id = key_id, ot_secret = secret, ot_public = x_pub P secret\<rparr>"

definition OneTimePrekey_public_key :: "OneTimePrekey \<Rightarrow> 32 arr" where
  "OneTimePrekey_public_key k = ot_public k"

definition OneTimePrekey_diffie_hellman :: "primitives \<Rightarrow> 32 arr \<Rightarrow> OneTimePrekey \<Rightarrow> 32 arr" where
  "OneTimePrekey_diffie_hellman P peer_public k = x_agree P (ot_secret k) peer_public"

section \<open>Signed prekey records\<close>

record SignedPrekeyRecord =
  sr_key_id :: u32
  sr_public_key :: "32 arr"
  sr_agreement_public_key :: "32 arr"
  sr_signature :: "64 arr"

definition SignedPrekeyRecord_signing_bytes :: "u32 \<Rightarrow> 32 arr \<Rightarrow> 32 arr \<Rightarrow> u8 list" where
  "SignedPrekeyRecord_signing_bytes key_id public_key agreement_public =
     byte_string ''NEXA/SPK/v2'' @ u32_to_be key_id @ bytes public_key @ bytes agreement_public"

definition SignedPrekeyRecord_verify :: "primitives \<Rightarrow> 32 arr \<Rightarrow> SignedPrekeyRecord \<Rightarrow> bool" where
  "SignedPrekeyRecord_verify P identity_public r =
     (let bs = SignedPrekeyRecord_signing_bytes (sr_key_id r) (sr_public_key r)
                 (sr_agreement_public_key r)
      in ed_verify P identity_public bs (sr_signature r))"

definition publishable_signed_prekey ::
  "primitives \<Rightarrow> IdentityKey \<Rightarrow> u32 \<Rightarrow> SignedPrekey \<Rightarrow> SignedPrekeyRecord" where
  "publishable_signed_prekey P identity key_id prekey =
     (let public_key = SignedPrekey_public_key prekey;
          agreement_public = agreement_public_key identity;
          bs = SignedPrekeyRecord_signing_bytes key_id public_key agreement_public;
          signature = IdentityKey_sign P bs identity
      in \<lparr>sr_key_id = key_id, sr_public_key = public_key,
          sr_agreement_public_key = agreement_public, sr_signature = signature\<rparr>)"

text \<open>Keys as the code can make them: the public half belongs to the secret half.\<close>

definition identity_ok :: "primitives \<Rightarrow> IdentityKey \<Rightarrow> bool" where
  "identity_ok P k \<longleftrightarrow> ik_agreement_public k = x_pub P (ik_agreement_secret k)"

definition prekey_ok :: "primitives \<Rightarrow> SignedPrekey \<Rightarrow> bool" where
  "prekey_ok P k \<longleftrightarrow> sp_public k = x_pub P (sp_secret k)"

definition opk_ok :: "primitives \<Rightarrow> OneTimePrekey \<Rightarrow> bool" where
  "opk_ok P k \<longleftrightarrow> ot_public k = x_pub P (ot_secret k)"

lemma generated_ok [simp]:
  "identity_ok P (IdentityKey_generate P s a)"
  "prekey_ok P (SignedPrekey_generate P s)"
  "opk_ok P (OneTimePrekey_generate P i s)"
  by (simp_all add: identity_ok_def IdentityKey_generate_def prekey_ok_def SignedPrekey_generate_def
      opk_ok_def OneTimePrekey_generate_def)

lemma signing_bytes_inject:
  "SignedPrekeyRecord_signing_bytes i p a = SignedPrekeyRecord_signing_bytes i' p' a' \<longleftrightarrow>
     i = i' \<and> p = p' \<and> a = a'"
  by (simp add: SignedPrekeyRecord_signing_bytes_def append_inject_length bytes_eq_iff)

lemma publishable_verifies:
  "primitives_lawful P \<Longrightarrow>
     SignedPrekeyRecord_verify P (IdentityKey_public_key P identity)
       (publishable_signed_prekey P identity key_id prekey)"
  by (simp add: primitives_lawful_def SignedPrekeyRecord_verify_def publishable_signed_prekey_def
      IdentityKey_sign_def IdentityKey_public_key_def Let_def)

lemma publishable_fields [simp]:
  "sr_key_id (publishable_signed_prekey P identity key_id prekey) = key_id"
  "sr_public_key (publishable_signed_prekey P identity key_id prekey) = sp_public prekey"
  "sr_agreement_public_key (publishable_signed_prekey P identity key_id prekey) =
     ik_agreement_public identity"
  by (simp_all add: publishable_signed_prekey_def Let_def SignedPrekey_public_key_def
      agreement_public_key_def)

text \<open>
  One lawful instance: a key is its own public half, the shared secret the bytewise disjunction of
  both, and a signature the fixed value that verifies.
\<close>

definition sample_primitives :: primitives where
  "sample_primitives =
     \<lparr>x_pub = id, x_agree = (\<lambda>a b. arr (map2 Bit_Operations.or (bytes a) (bytes b))), ed_public = id,
      ed_sign = (\<lambda>_ _. fill 1), ed_key_ok = (\<lambda>_. True), ed_verify = (\<lambda>_ _ s. s = fill 1)\<rparr>"

lemma sample_primitives_lawful [simp]: "primitives_lawful sample_primitives"
proof -
  have "map2 Bit_Operations.or xs ys = map2 Bit_Operations.or ys (xs :: u8 list)" for xs ys
    by (induction xs ys rule: list_induct2') (simp_all add: or.commute)
  then show ?thesis
    by (simp add: primitives_lawful_def sample_primitives_def dh_agrees_def)
qed

lemma sample_agree_fill [simp]:
  "x_agree sample_primitives (fill a) (fill b) = fill (Bit_Operations.or a b)"
proof -
  have "bytes (x_agree sample_primitives (fill a) (fill b)) = replicate 32 (Bit_Operations.or a b)"
    by (simp add: sample_primitives_def bytes_arr zip_replicate)
  then show ?thesis
    by (simp add: bytes_eq_iff [symmetric])
qed

lemma sample_primitives_simps [simp]:
  "x_pub sample_primitives k = k" "ed_public sample_primitives k = k" "ed_key_ok sample_primitives k"
  "ed_sign sample_primitives k msg = fill 1" "ed_verify sample_primitives k msg (fill 1)"
  by (simp_all add: sample_primitives_def)

end
