(* ===== verification/Decimal.thy ===== *)
theory Decimal
  imports Prelude
begin

text \<open>
  Numbers as text, as the standard library writes and reads them: \<open>Display\<close> of an unsigned
  integer and \<open>str::parse::<u64>\<close>, with the facts the journal's file names and the request paths
  rest on.
\<close>

section \<open>Writing and reading\<close>

text \<open>
  \<open>parse\<close> takes an optional plus sign and then digits only, and refuses what does not fit.
\<close>

definition digit_char :: "nat \<Rightarrow> char" where
  "digit_char d = char_of (48 + d)"

fun decimal :: "nat \<Rightarrow> string" where
  "decimal n = (if n < 10 then [digit_char n] else decimal (n div 10) @ [digit_char (n mod 10)])"

declare decimal.simps [simp del]

definition is_digit :: "char \<Rightarrow> bool" where
  "is_digit c \<longleftrightarrow> 48 \<le> (of_char c :: nat) \<and> (of_char c :: nat) \<le> 57"

definition decimal_value :: "string \<Rightarrow> nat" where
  "decimal_value s = foldl (\<lambda>n c. 10 * n + (of_char c - 48)) 0 s"

definition parse_u64 :: "string \<Rightarrow> u64 option" where
  "parse_u64 s =
     (let digits = (case s of c # cs \<Rightarrow> (if c = CHR ''+'' then cs else s) | [] \<Rightarrow> []) in
      if digits = [] \<or> \<not> list_all is_digit digits then None
      else if decimal_value digits < 2 ^ 64 then Some (word_of_nat (decimal_value digits)) else None)"

section \<open>Facts\<close>

lemma of_char_digit: "d < 10 \<Longrightarrow> (of_char (digit_char d) :: nat) = 48 + d"
  by (simp add: digit_char_def of_char_of)

lemma is_digit_char [simp]: "d < 10 \<Longrightarrow> is_digit (digit_char d)"
  by (simp add: is_digit_def of_char_digit)

lemma decimal_digits: "list_all is_digit (decimal n)"
proof (induction n rule: decimal.induct)
  case (1 n)
  then show ?case
    by (subst decimal.simps) simp
qed

lemma decimal_nonempty [simp]: "decimal n \<noteq> []"
  by (subst decimal.simps) simp

lemma decimal_value_decimal [simp]: "decimal_value (decimal n) = n"
proof (induction n rule: decimal.induct)
  case (1 n)
  show ?case
  proof (cases "n < 10")
    case True
    then show ?thesis
      by (subst decimal.simps) (simp add: decimal_value_def of_char_digit)
  next
    case False
    then show ?thesis
      using 1 by (subst decimal.simps) (simp add: decimal_value_def of_char_digit)
  qed
qed

lemma digit_not_symbol: "is_digit c \<Longrightarrow> c \<noteq> CHR ''+'' \<and> c \<noteq> CHR ''-''"
  by (auto simp: is_digit_def)

lemma dash_not_decimal [simp]: "CHR ''-'' \<notin> set (decimal n)"
  using decimal_digits [of n] digit_not_symbol by (auto simp: list_all_iff)

lemma parse_decimal [simp]: "parse_u64 (decimal (unat g)) = Some g"
proof -
  obtain c cs where d: "decimal (unat g) = c # cs"
    using decimal_nonempty by (meson list.exhaust)
  then have "c \<noteq> CHR ''+''"
    using decimal_digits [of "unat g"] digit_not_symbol by auto
  then have "parse_u64 (decimal (unat g)) =
      (if decimal_value (decimal (unat g)) < 2 ^ 64
       then Some (word_of_nat (decimal_value (decimal (unat g)))) else None)"
    using decimal_digits [of "unat g"] by (simp add: parse_u64_def d)
  then show ?thesis
    using unat_u64_bound [of g] by simp
qed

lemma parse_u64_no_dash: "parse_u64 s = Some g \<Longrightarrow> CHR ''-'' \<notin> set s"
  by (cases s) (auto simp: parse_u64_def list_all_iff Let_def dest: digit_not_symbol split: if_splits)

lemma decimal_inject [simp]: "decimal a = decimal b \<longleftrightarrow> a = b"
  by (metis decimal_value_decimal)

end
