(* ===== verification/Auth.thy ===== *)
theory Auth
  imports Identity Decimal
begin

text \<open>
  Request authentication of the gateway, \<open>backend/src/auth.rs\<close>: signed request headers, the
  per-device nonce cache and the per-device rate limit. Header access (\<open>HeaderMap\<close> of the \<open>http\<close>
  crate), Ed25519 and SHA-256 are parameters; the wall clock and the monotonic clock are arguments
  of each request. Instants and durations are in nanoseconds.
\<close>

section \<open>Constants and headers\<close>

definition RELAY_AUTH_DOMAIN :: "u8 list" where
  "RELAY_AUTH_DOMAIN = byte_string ''M/relay-auth/v1''"

definition DEVICE_ID_DOMAIN :: "u8 list" where
  "DEVICE_ID_DOMAIN = byte_string ''M/device-id/v1''"

definition AUTH_MAX_CLOCK_SKEW_MS :: u64 where
  "AUTH_MAX_CLOCK_SKEW_MS = 5 * 60 * 1000"

definition NONCE_TTL :: nat where
  "NONCE_TTL = 5 * 60 * 1000000000"

definition MAX_NONCES_PER_DEVICE :: usize where
  "MAX_NONCES_PER_DEVICE = 1024"

definition RATE_WINDOW :: nat where
  "RATE_WINDOW = 60 * 1000000000"

definition RATE_LIMIT_PER_DEVICE :: u32 where
  "RATE_LIMIT_PER_DEVICE = 120"

definition H_DEVICE_ID :: string where "H_DEVICE_ID = ''x-m-device-id''"
definition H_PUBLIC_KEY :: string where "H_PUBLIC_KEY = ''x-m-public-key''"
definition H_TIMESTAMP :: string where "H_TIMESTAMP = ''x-m-timestamp''"
definition H_NONCE :: string where "H_NONCE = ''x-m-nonce''"
definition H_SIGNATURE :: string where "H_SIGNATURE = ''x-m-signature''"

datatype AuthError =
  MissingHeader | InvalidAuthHeader | InvalidTimestamp | InvalidDevice | InvalidSignature
| AuthReplay | RateLimited

text \<open>
  What \<open>HeaderMap::get\<close> finds under a name: nothing, a value that \<open>to_str\<close> turns into text, or
  one that it refuses.
\<close>

datatype header_value = Text string | Opaque

type_synonym header_map = "string \<Rightarrow> header_value option"

definition header :: "header_map \<Rightarrow> string \<Rightarrow> AuthError + string" where
  "header headers name =
     and_then (ok_or (headers name) MissingHeader) (\<lambda>value.
     case value of Text s \<Rightarrow> Ok s | Opaque \<Rightarrow> Err InvalidAuthHeader)"

definition hex_nibble :: "u8 \<Rightarrow> u8 option" where
  "hex_nibble value =
     (if 48 \<le> value \<and> value \<le> 57 then Some (value - 48)
      else if 97 \<le> value \<and> value \<le> 102 then Some (value - 97 + 10)
      else if 65 \<le> value \<and> value \<le> 70 then Some (value - 65 + 10)
      else None)"

fun hex_pairs :: "u8 list \<Rightarrow> u8 list option" where
  "hex_pairs (a # b # rest) =
     Option.bind (hex_nibble a) (\<lambda>hi.
     Option.bind (hex_nibble b) (\<lambda>lo.
     map_option ((#) (Bit_Operations.or (push_bit 4 hi) lo)) (hex_pairs rest)))"
| "hex_pairs [] = Some []"
| "hex_pairs [a] = None"

definition parse_hex :: "header_map \<Rightarrow> string \<Rightarrow> AuthError + 'n::len arr" where
  "parse_hex headers name =
     and_then (header headers name) (\<lambda>value.
     if length value \<noteq> LENGTH('n) * 2 then Err InvalidAuthHeader
     else and_then (ok_or (hex_pairs (byte_string value)) InvalidAuthHeader) (\<lambda>out.
     Ok (arr out)))"

section \<open>What is signed\<close>

type_synonym sha256 = "u8 list \<Rightarrow> 32 arr"

definition device_id_from_public_key :: "sha256 \<Rightarrow> 32 arr \<Rightarrow> 16 arr" where
  "device_id_from_public_key sha256 public_key =
     (let digest = sha256 (DEVICE_ID_DOMAIN @ bytes public_key) in arr (take 16 (bytes digest)))"

text \<open>The casts \<open>as u16\<close> and \<open>as u32\<close> keep the low bits of the lengths.\<close>

definition auth_signing_bytes ::
  "string \<Rightarrow> string \<Rightarrow> 16 arr \<Rightarrow> 32 arr \<Rightarrow> u64 \<Rightarrow> 16 arr \<Rightarrow> u8 list \<Rightarrow> u8 list" where
  "auth_signing_bytes method path device_id public_key timestamp_ms nonce body_hash =
     (let method_bytes = byte_string method; path_bytes = byte_string path in
      RELAY_AUTH_DOMAIN @
      u16_to_be (word_of_nat (length method_bytes)) @ method_bytes @
      u32_to_be (word_of_nat (length path_bytes)) @ path_bytes @
      bytes device_id @ bytes public_key @ u64_to_be timestamp_ms @ bytes nonce @ body_hash)"

section \<open>Authentication\<close>

record AuthInner =
  ai_nonces :: "16 arr \<Rightarrow> (16 arr \<times> nat) list option"
  ai_rates :: "16 arr \<Rightarrow> (nat \<times> u32) option"

definition AuthState_default :: AuthInner where
  "AuthState_default = \<lparr>ai_nonces = Map.empty, ai_rates = Map.empty\<rparr>"

record auth_request =
  aq_now_ms :: u64
  aq_instant :: nat
  aq_headers :: header_map
  aq_method :: string
  aq_path :: string
  aq_body :: "u8 list"

text \<open>
  The part of \<open>authenticate\<close> before the lock: the headers, the device id, the timestamp and the
  signature. It returns the device, the nonce and what the rest of the checks used.
\<close>

definition verify_request ::
  "primitives \<Rightarrow> sha256 \<Rightarrow> auth_request \<Rightarrow> AuthError + 16 arr \<times> 16 arr" where
  "verify_request P sha256 q =
     and_then (parse_hex (aq_headers q) H_DEVICE_ID) (\<lambda>device_id :: 16 arr.
     and_then (parse_hex (aq_headers q) H_PUBLIC_KEY) (\<lambda>public_key :: 32 arr.
     and_then (header (aq_headers q) H_TIMESTAMP) (\<lambda>timestamp.
     and_then (ok_or (parse_u64 timestamp) InvalidAuthHeader) (\<lambda>timestamp_ms.
     and_then (parse_hex (aq_headers q) H_NONCE) (\<lambda>nonce :: 16 arr.
     and_then (parse_hex (aq_headers q) H_SIGNATURE) (\<lambda>signature :: 64 arr.
     let expected_device = device_id_from_public_key sha256 public_key in
     if device_id \<noteq> expected_device then Err InvalidDevice
     else let now = aq_now_ms q in
     if u64_saturating_add now AUTH_MAX_CLOCK_SKEW_MS < timestamp_ms \<or>
        AUTH_MAX_CLOCK_SKEW_MS < u64_saturating_sub now timestamp_ms
     then Err InvalidTimestamp
     else
       let body_hash = bytes (sha256 (aq_body q));
           signed = auth_signing_bytes (aq_method q) (aq_path q) device_id public_key timestamp_ms
                      nonce body_hash
       in
       if \<not> ed_key_ok P public_key then Err InvalidAuthHeader
       else if \<not> ed_verify P public_key signed signature then Err InvalidSignature
       else Ok (device_id, nonce)))))))"

text \<open>The part under the lock: expiry, replay, rate, and remembering the nonce.\<close>

definition nonce_queue :: "AuthInner \<Rightarrow> 16 arr \<Rightarrow> (16 arr \<times> nat) list" where
  "nonce_queue g device_id = (case ai_nonces g device_id of None \<Rightarrow> [] | Some queue \<Rightarrow> queue)"

definition admit ::
  "16 arr \<Rightarrow> 16 arr \<Rightarrow> nat \<Rightarrow> AuthInner \<Rightarrow> (AuthError + 16 arr) \<times> AuthInner" where
  "admit device_id nonce now_instant g0 =
     (let queue = filter (\<lambda>(_, expires). now_instant < expires) (nonce_queue g0 device_id);
          g = g0\<lparr>ai_nonces := (ai_nonces g0)(device_id \<mapsto> queue)\<rparr>
      in
      if list_ex (\<lambda>(seen, _). seen = nonce) queue then (Err AuthReplay, g)
      else
        let rate = (case ai_rates g device_id of None \<Rightarrow> (now_instant, 0) | Some rate \<Rightarrow> rate);
            rate = (if RATE_WINDOW \<le> now_instant - fst rate then (now_instant, 0) else rate)
        in
        if RATE_LIMIT_PER_DEVICE \<le> snd rate
        then (Err RateLimited, g\<lparr>ai_rates := (ai_rates g)(device_id \<mapsto> rate)\<rparr>)
        else
          let queue = (if MAX_NONCES_PER_DEVICE \<le> length queue then tl queue else queue)
          in (Ok device_id,
              g\<lparr>ai_rates := (ai_rates g)(device_id \<mapsto> (fst rate, snd rate + 1)),
                ai_nonces := (ai_nonces g)(device_id \<mapsto> queue @ [(nonce, now_instant + NONCE_TTL)])\<rparr>))"

definition authenticate ::
  "primitives \<Rightarrow> sha256 \<Rightarrow> auth_request \<Rightarrow> AuthInner \<Rightarrow> (AuthError + 16 arr) \<times> AuthInner" where
  "authenticate P sha256 q g =
     (case verify_request P sha256 q of
        Err e \<Rightarrow> (Err e, g)
      | Ok (device_id, nonce) \<Rightarrow> admit device_id nonce (aq_instant q) g)"

section \<open>The history of a device\<close>

text \<open>
  The acceptances of a device, each with its nonce and its instant. The state of \<open>admit\<close> is a
  summary of them: the live part of the nonce queue is the live part of the history, and the rate
  window bounds how many of them are recent - \<open>c + 120 k\<close> of them since \<open>k\<close> minutes before the
  window began.
\<close>

type_synonym history = "(16 arr \<times> nat) list"

definition live_nonces :: "nat \<Rightarrow> (16 arr \<times> nat) list \<Rightarrow> (16 arr \<times> nat) list" where
  "live_nonces now queue = filter (\<lambda>(_, expires). now < expires) queue"

definition with_expiry :: "history \<Rightarrow> (16 arr \<times> nat) list" where
  "with_expiry h = map (\<lambda>(nonce, t). (nonce, t + NONCE_TTL)) h"

definition since :: "nat \<Rightarrow> history \<Rightarrow> nat" where
  "since t0 h = length (filter (\<lambda>(_, t). t0 \<le> t) h)"

fun rate_ok :: "nat \<Rightarrow> (nat \<times> u32) option \<Rightarrow> history \<Rightarrow> bool" where
  "rate_ok T None h \<longleftrightarrow> h = []"
| "rate_ok T (Some (w, c)) h \<longleftrightarrow>
     w \<le> T \<and> unat c \<le> 120 \<and> (\<forall>(_, t) \<in> set h. t < w + RATE_WINDOW) \<and>
     (\<forall>k. since (w - k * RATE_WINDOW) h \<le> unat c + 120 * k)"

definition summarises :: "nat \<Rightarrow> (nat \<times> u32) option \<Rightarrow> (16 arr \<times> nat) list \<Rightarrow> history \<Rightarrow> bool" where
  "summarises T rate queue h \<longleftrightarrow>
     (\<forall>(_, t) \<in> set h. t \<le> T) \<and> live_nonces T queue = live_nonces T (with_expiry h) \<and> rate_ok T rate h"

lemma live_nonces_mono: "T \<le> now \<Longrightarrow> live_nonces now (live_nonces T queue) = live_nonces now queue"
  by (auto simp: live_nonces_def filter_filter intro!: filter_cong)

lemma rate_ok_mono: "rate_ok T rate h \<Longrightarrow> T \<le> now \<Longrightarrow> rate_ok now rate h"
  by (induction T rate h rule: rate_ok.induct) auto

lemma summarises_mono:
  assumes "summarises T rate queue h" and "T \<le> now"
  shows "summarises now rate queue h"
proof -
  have "live_nonces now queue = live_nonces now (live_nonces T queue)"
    using assms(2) by (simp add: live_nonces_mono)
  also have "\<dots> = live_nonces now (with_expiry h)"
    using assms by (simp add: summarises_def live_nonces_mono)
  finally have "live_nonces now queue = live_nonces now (with_expiry h)" .
  moreover have "\<forall>(_, t) \<in> set h. t \<le> now"
    using assms unfolding summarises_def by (auto intro: le_trans)
  ultimately show ?thesis
    using assms rate_ok_mono [of T rate h now] by (simp add: summarises_def)
qed

lemma summarises_live: "summarises T rate queue h \<Longrightarrow> summarises T rate (live_nonces T queue) h"
  by (simp add: summarises_def live_nonces_mono)

lemma since_mono: "t0 \<le> t1 \<Longrightarrow> since t1 h \<le> since t0 h"
  unfolding since_def by (induction h) auto

text \<open>A window that starts now: nothing of the history lies in it.\<close>

lemma rate_ok_reset:
  assumes "rate_ok T rate h" and "T \<le> now"
    and "case rate of None \<Rightarrow> True | Some (w, c) \<Rightarrow> RATE_WINDOW \<le> now - w"
  shows "rate_ok now (Some (now, 0)) h"
proof (cases rate)
  case None
  with assms show ?thesis by (simp add: since_def)
next
  case (Some wc)
  obtain w c where wc: "wc = (w, c)" by (cases wc)
  then have w: "w + RATE_WINDOW \<le> now" and c: "unat c \<le> 120"
    and before: "\<forall>(_, t) \<in> set h. t < w + RATE_WINDOW"
    and count: "since (w - k * RATE_WINDOW) h \<le> unat c + 120 * k" for k
    using assms Some by (auto simp: RATE_WINDOW_def)
  have "since (now - k * RATE_WINDOW) h \<le> 120 * k" for k
  proof (cases k)
    case 0
    have "filter (\<lambda>(_, t). now \<le> t) h = []"
      using before w by (auto simp: filter_empty_conv)
    with 0 show ?thesis by (simp add: since_def)
  next
    case (Suc k')
    then have "w - k' * RATE_WINDOW \<le> now - k * RATE_WINDOW"
      using w by simp
    then have "since (now - k * RATE_WINDOW) h \<le> since (w - k' * RATE_WINDOW) h"
      by (rule since_mono)
    also have "\<dots> \<le> 120 * k"
      using count [of k'] c Suc by simp
    finally show ?thesis .
  qed
  moreover have "\<forall>(_, t) \<in> set h. t < now + RATE_WINDOW"
    using before w by fastforce
  ultimately show ?thesis
    by simp
qed

text \<open>The live part of the queue is far below its bound, so nothing is ever evicted.\<close>

lemma rate_ok_live:
  assumes "rate_ok now (Some (w, c)) h"
  shows "length (live_nonces now (with_expiry h)) \<le> 720"
proof -
  have w: "w \<le> now"
    using assms by simp
  have "length (live_nonces now (with_expiry h)) = length (filter (\<lambda>(_, t). now < t + NONCE_TTL) h)"
    by (induction h) (auto simp: live_nonces_def with_expiry_def)
  also have "\<dots> \<le> since (w - 5 * RATE_WINDOW) h"
  proof -
    have "now < t + NONCE_TTL \<Longrightarrow> w - 5 * RATE_WINDOW \<le> t" for t
      using w by (simp add: NONCE_TTL_def RATE_WINDOW_def)
    then show ?thesis
      unfolding since_def by (induction h) auto
  qed
  also have "\<dots> \<le> unat c + 120 * 5"
    using assms unfolding rate_ok.simps by blast
  also have "\<dots> \<le> 720"
    using assms by simp
  finally show ?thesis .
qed

lemma rate_ok_accept:
  assumes "rate_ok now (Some (w, c)) h" and "now < w + RATE_WINDOW" and "c < 120"
  shows "rate_ok now (Some (w, c + 1)) (h @ [(nonce, now)])"
proof -
  have "c \<noteq> - 1"
    using assms(3) by auto
  then have "unat (c + 1) = Suc (unat c)"
    using assms(3) unat_u32_bound [of c] by (simp add: unat_word_ariths word_less_nat_alt)
  moreover have "unat c < 120"
    using assms(3) by (simp add: word_less_nat_alt)
  moreover have "since t0 (h @ [(nonce, now)]) \<le> Suc (since t0 h)" for t0
    by (simp add: since_def)
  then have "since (w - k * RATE_WINDOW) (h @ [(nonce, now)]) \<le> Suc (unat c + 120 * k)" for k
    using assms(1) by (meson Suc_le_mono le_trans rate_ok.simps(2))
  ultimately show ?thesis
    using assms(1,2) by auto
qed

text \<open>What one admission does to the device's rate entry, its queue and its history.\<close>

lemma nonce_queue_update [simp]:
  "nonce_queue (g\<lparr>ai_nonces := (ai_nonces g)(d \<mapsto> queue)\<rparr>) d' = (if d' = d then queue else nonce_queue g d')"
  "nonce_queue (g\<lparr>ai_rates := rates\<rparr>) d' = nonce_queue g d'"
  "nonce_queue (g\<lparr>ai_nonces := (ai_nonces g)(d \<mapsto> queue), ai_rates := rates\<rparr>) d' =
     (if d' = d then queue else nonce_queue g d')"
  by (simp_all add: nonce_queue_def)

definition current_rate :: "nat \<Rightarrow> (nat \<times> u32) option \<Rightarrow> nat \<times> u32" where
  "current_rate now rate =
     (let rate = (case rate of None \<Rightarrow> (now, 0) | Some rate \<Rightarrow> rate)
      in if RATE_WINDOW \<le> now - fst rate then (now, 0) else rate)"

lemma current_rate_ok:
  assumes "rate_ok T rate h" and "T \<le> now"
  shows "rate_ok now (Some (current_rate now rate)) h \<and> now < fst (current_rate now rate) + RATE_WINDOW"
proof (cases "case rate of None \<Rightarrow> True | Some (w, c) \<Rightarrow> RATE_WINDOW \<le> now - w")
  case True
  then have "current_rate now rate = (now, 0)"
    by (auto simp: current_rate_def split: option.splits)
  then show ?thesis
    using rate_ok_reset [OF assms True] by (simp add: RATE_WINDOW_def)
next
  case False
  then obtain w c where "rate = Some (w, c)" "\<not> RATE_WINDOW \<le> now - w"
    by (auto split: option.splits prod.splits)
  then show ?thesis
    using rate_ok_mono [OF assms] by (simp add: current_rate_def)
qed

text \<open>In every state a run reaches, \<open>admit\<close> never evicts a nonce.\<close>

lemma admit_eq:
  assumes "summarises T (ai_rates g d) (nonce_queue g d) h" and "T \<le> now"
  defines "queue \<equiv> live_nonces now (nonce_queue g d)" and "rate \<equiv> current_rate now (ai_rates g d)"
  shows "admit d n now g =
      (if list_ex (\<lambda>(seen, _). seen = n) queue
       then (Err AuthReplay, g\<lparr>ai_nonces := (ai_nonces g)(d \<mapsto> queue)\<rparr>)
       else if 120 \<le> snd rate
       then (Err RateLimited, g\<lparr>ai_nonces := (ai_nonces g)(d \<mapsto> queue),
                                ai_rates := (ai_rates g)(d \<mapsto> rate)\<rparr>)
       else (Ok d, g\<lparr>ai_nonces := (ai_nonces g)(d \<mapsto> queue @ [(n, now + NONCE_TTL)]),
                     ai_rates := (ai_rates g)(d \<mapsto> (fst rate, snd rate + 1))\<rparr>))"
proof -
  have "rate_ok now (Some rate) h"
    using current_rate_ok [of T "ai_rates g d" h now] assms(1,2) by (simp add: summarises_def rate_def)
  then have "length (live_nonces now (with_expiry h)) \<le> 720"
    using rate_ok_live [of now "fst rate" "snd rate" h] by simp
  then have "\<not> MAX_NONCES_PER_DEVICE \<le> length queue"
    using summarises_mono [OF assms(1,2)] by (simp add: summarises_def queue_def MAX_NONCES_PER_DEVICE_def)
  then show ?thesis
    by (simp add: admit_def live_nonces_def [symmetric] current_rate_def RATE_LIMIT_PER_DEVICE_def Let_def
        queue_def rate_def)
qed

lemma admit_cases:
  assumes "admit d n now g = (result, g')" and "summarises T (ai_rates g d) (nonce_queue g d) h"
    and "T \<le> now"
  obtains (refused) e where "result = Err e"
      "nonce_queue g' d = live_nonces now (nonce_queue g d)"
      "ai_rates g' d = ai_rates g d \<or> ai_rates g' d = Some (current_rate now (ai_rates g d))"
      "\<And>d'. d' \<noteq> d \<Longrightarrow> nonce_queue g' d' = nonce_queue g d' \<and> ai_rates g' d' = ai_rates g d'"
  | (admitted) "result = Ok d"
      "\<forall>(n', t) \<in> set h. n' = n \<longrightarrow> t + NONCE_TTL \<le> now"
      "nonce_queue g' d = live_nonces now (nonce_queue g d) @ [(n, now + NONCE_TTL)]"
      "snd (current_rate now (ai_rates g d)) < 120"
      "ai_rates g' d = Some (fst (current_rate now (ai_rates g d)), snd (current_rate now (ai_rates g d)) + 1)"
      "\<And>d'. d' \<noteq> d \<Longrightarrow> nonce_queue g' d' = nonce_queue g d' \<and> ai_rates g' d' = ai_rates g d'"
proof -
  let ?live = "live_nonces now (nonce_queue g d)"
  have live: "?live = live_nonces now (with_expiry h)"
    using summarises_mono [OF assms(2,3)] by (simp add: summarises_def)
  note eq = admit_eq [OF assms(2,3), of n]
  show thesis
  proof (cases result)
    case (Inl e)
    then show thesis
      using assms(1) by (intro refused [of e]) (auto simp: eq split: if_splits)
  next
    case (Inr d')
    have fresh: "\<forall>(n', t) \<in> set h. n' = n \<longrightarrow> t + NONCE_TTL \<le> now"
      if "\<not> list_ex (\<lambda>(seen, _). seen = n) ?live"
      using that unfolding live by (auto simp: live_nonces_def with_expiry_def list_ex_iff not_less)
    show thesis
      using assms(1) Inr fresh by (intro admitted) (auto simp: eq split: if_splits)
  qed
qed

definition auth_rel :: "nat \<Rightarrow> AuthInner \<Rightarrow> (16 arr \<Rightarrow> history) \<Rightarrow> bool" where
  "auth_rel T g H \<longleftrightarrow> (\<forall>d. summarises T (ai_rates g d) (nonce_queue g d) (H d))"

lemma auth_rel_default: "auth_rel 0 AuthState_default (\<lambda>_. [])"
  by (simp add: auth_rel_def AuthState_default_def summarises_def nonce_queue_def with_expiry_def)

lemma admit_rel:
  assumes "auth_rel T g H" and "T \<le> now"
  shows "case admit d n now g of
      (Err e, g') \<Rightarrow> auth_rel now g' H
    | (Ok d', g') \<Rightarrow> d' = d \<and> auth_rel now g' (H(d := H d @ [(n, now)])) \<and>
        (\<forall>(n', t) \<in> set (H d). n' = n \<longrightarrow> t + NONCE_TTL \<le> now)"
proof -
  obtain result g' where a: "admit d n now g = (result, g')"
    by fastforce
  have before: "summarises T (ai_rates g d') (nonce_queue g d') (H d')"
    for d'
    using assms by (simp add: auth_rel_def)
  then have s: "summarises now (ai_rates g d') (nonce_queue g d') (H d')" for d'
    using summarises_mono assms(2) by blast
  let ?rate = "current_rate now (ai_rates g d)"
  have rate: "rate_ok now (Some ?rate) (H d)" "now < fst ?rate + RATE_WINDOW"
    using current_rate_ok [of T "ai_rates g d" "H d" now] before [of d] assms(2)
    by (simp_all add: summarises_def)
  from a before assms(2) show ?thesis
  proof (cases rule: admit_cases)
    case (refused e)
    have "summarises now (ai_rates g' d) (nonce_queue g' d) (H d)"
      using s [of d] refused(2,3) rate(1) by (auto simp: summarises_def live_nonces_mono)
    then have "auth_rel now g' H"
      unfolding auth_rel_def using refused(4) s by metis
    with a refused(1) show ?thesis by simp
  next
    case admitted
    have "rate_ok now (ai_rates g' d) (H d @ [(n, now)])"
      using rate_ok_accept [of now "fst ?rate" "snd ?rate" "H d" n] rate admitted(4,5) by simp
    moreover have "live_nonces now (nonce_queue g' d) = live_nonces now (with_expiry (H d @ [(n, now)]))"
      using s [of d] unfolding admitted(3)
      by (simp add: summarises_def live_nonces_def with_expiry_def filter_filter NONCE_TTL_def)
    ultimately have "summarises now (ai_rates g' d) (nonce_queue g' d) (H d @ [(n, now)])"
      using s [of d] by (auto simp: summarises_def)
    then have "auth_rel now g' (H(d := H d @ [(n, now)]))"
      unfolding auth_rel_def using admitted(6) s by simp
    with a admitted(1,2) show ?thesis by simp
  qed
qed

section \<open>Runs of requests\<close>

definition accepted_at ::
  "primitives \<Rightarrow> sha256 \<Rightarrow> auth_request \<Rightarrow> AuthError + 16 arr \<Rightarrow> (16 arr \<times> 16 arr \<times> nat) option" where
  "accepted_at P sha256 q out =
     (case verify_request P sha256 q of
        Err e \<Rightarrow> None
      | Ok (device_id, nonce) \<Rightarrow> if is_ok out then Some (device_id, nonce, aq_instant q) else None)"

definition history_of :: "(16 arr \<times> 16 arr \<times> nat) list \<Rightarrow> 16 arr \<Rightarrow> history" where
  "history_of accepted d = map snd (filter (\<lambda>(d', _). d' = d) accepted)"

lemma history_of_Nil [simp]: "history_of [] = (\<lambda>_. [])"
  by (simp add: history_of_def fun_eq_iff)

lemma history_of_snoc: "history_of (L @ [(d, n, t)]) = (history_of L)(d := history_of L d @ [(n, t)])"
  by (simp add: history_of_def fun_eq_iff)

text \<open>The same nonce of the same device is accepted again only after its expiry.\<close>

fun spaced :: "16 arr \<times> 16 arr \<times> nat \<Rightarrow> 16 arr \<times> 16 arr \<times> nat \<Rightarrow> bool" where
  "spaced (d, n, t) (d', n', t') \<longleftrightarrow> (d, n) = (d', n') \<longrightarrow> t + NONCE_TTL \<le> t'"

lemma authenticate_rel:
  assumes "auth_rel T g (history_of L)" and "T \<le> aq_instant q" and "sorted_wrt spaced L"
  shows "auth_rel (aq_instant q) (snd (authenticate P sha256 q g))
      (history_of (L @ granted (accepted_at P sha256) [q] [fst (authenticate P sha256 q g)])) \<and>
    sorted_wrt spaced (L @ granted (accepted_at P sha256) [q] [fst (authenticate P sha256 q g)])"
proof (cases "verify_request P sha256 q")
  case (Inl e)
  have "auth_rel (aq_instant q) g (history_of L)"
    using assms(1,2) summarises_mono unfolding auth_rel_def by blast
  with Inl assms(3) show ?thesis
    by (simp add: authenticate_def accepted_at_def)
next
  case (Inr dn)
  obtain d n where dn: "dn = (d, n)" by (cases dn)
  note step = admit_rel [OF assms(1,2), of d n]
  show ?thesis
  proof (cases "fst (admit d n (aq_instant q) g)")
    case (Inl e)
    then show ?thesis
      using step assms(3)
      by (simp add: authenticate_def accepted_at_def Inr dn case_prod_beta)
  next
    case (Inr d')
    then have "\<forall>(n', t) \<in> set (history_of L d). n' = n \<longrightarrow> t + NONCE_TTL \<le> aq_instant q"
      using step by (simp add: case_prod_beta)
    then have "\<forall>x \<in> set L. spaced x (d, n, aq_instant q)"
      by (force simp: history_of_def)
    then show ?thesis
      using step Inr assms(3)
      by (simp add: authenticate_def accepted_at_def \<open>verify_request P sha256 q = Inr dn\<close> dn case_prod_beta
          history_of_snoc sorted_wrt_append)
  qed
qed

lemma run_rel:
  assumes "auth_rel T g (history_of L)" and "sorted_wrt spaced L"
    and "sorted (T # map aq_instant qs)"
  shows "let L' = L @ granted (accepted_at P sha256) qs (fst (run (authenticate P sha256) qs g))
    in auth_rel (last (T # map aq_instant qs)) (snd (run (authenticate P sha256) qs g)) (history_of L') \<and>
       sorted_wrt spaced L'"
  using assms
proof (induction qs arbitrary: T g L)
  case Nil
  then show ?case by simp
next
  case (Cons q qs)
  have le: "T \<le> aq_instant q" and sorted: "sorted (aq_instant q # map aq_instant qs)"
    using Cons.prems(3) by simp_all
  note step = authenticate_rel [OF Cons.prems(1) le Cons.prems(2), of P sha256]
  from Cons.IH [OF conjunct1 [OF step] conjunct2 [OF step] sorted] show ?case
    by (simp only: Let_def run_Cons_outputs run_Cons_state granted_Cons [of _ q qs] append_assoc
        list.map last_ConsR list.distinct not_False_eq_True)
qed

section \<open>Properties\<close>

text \<open>
  C10. Replay protection: over any sequence of requests with a monotonic clock, two acceptances of
  the same nonce from the same device are at least \<open>NONCE_TTL\<close>, five minutes, apart. The bound of
  1024 remembered nonces never weakens this, because the rate limit keeps at most 720 of them
  alive.
\<close>

theorem no_replay_within_ttl:
  assumes "sorted (map aq_instant qs)"
  shows "sorted_wrt (\<lambda>(d, n, t) (d', n', t'). (d, n) = (d', n') \<longrightarrow> t + NONCE_TTL \<le> t')
    (granted (accepted_at P sha256) qs (fst (run (authenticate P sha256) qs AuthState_default)))"
proof -
  have "spaced = (\<lambda>(d, n, t) (d', n', t'). (d, n) = (d', n') \<longrightarrow> t + NONCE_TTL \<le> t')"
    by (auto simp: fun_eq_iff)
  moreover have "sorted (0 # map aq_instant qs)"
    using assms by simp
  ultimately show ?thesis
    using run_rel [of 0 AuthState_default "[]" qs P sha256] auth_rel_default by (simp add: Let_def)
qed

text \<open>
  The rate limit: over any sequence of requests with a monotonic clock, at most 240 requests of
  one device are accepted within any one minute - twice the limit of 120, since the window is
  fixed and the minute can straddle two of them.
\<close>

theorem accepted_requests_per_minute:
  assumes "sorted (map aq_instant qs)" and "\<forall>q \<in> set qs. aq_instant q \<le> now"
  shows "length (filter (\<lambda>(d, n, t). d = device_id \<and> now < t + RATE_WINDOW)
      (granted (accepted_at P sha256) qs (fst (run (authenticate P sha256) qs AuthState_default)))) \<le> 240"
proof -
  let ?g = "snd (run (authenticate P sha256) qs AuthState_default)"
  let ?L = "granted (accepted_at P sha256) qs (fst (run (authenticate P sha256) qs AuthState_default))"
  let ?T = "last (0 # map aq_instant qs)"
  have "auth_rel ?T ?g (history_of ?L)"
    using run_rel [of 0 AuthState_default "[]" qs P sha256] auth_rel_default assms(1)
    by (simp add: Let_def del: last.simps)
  moreover have "?T \<le> now"
    using assms(2) by (cases qs rule: rev_cases) auto
  ultimately have rate: "rate_ok now (ai_rates ?g device_id) (history_of ?L device_id)"
    using rate_ok_mono [of ?T] unfolding auth_rel_def summarises_def by blast
  have "length (filter (\<lambda>(d, n, t). d = device_id \<and> now < t + RATE_WINDOW) L) =
      length (filter (\<lambda>(_, t). now < t + RATE_WINDOW) (history_of L device_id))" for L
    by (induction L) (auto simp: history_of_def)
  moreover have "length (filter (\<lambda>(_, t). now < t + RATE_WINDOW) (history_of ?L device_id)) \<le> 240"
  proof (cases "ai_rates ?g device_id")
    case None
    with rate show ?thesis by simp
  next
    case (Some wc)
    obtain w c where wc: "wc = (w, c)" by (cases wc)
    have w: "w \<le> now" and c: "unat c \<le> 120"
      and count: "since (w - 1 * RATE_WINDOW) (history_of ?L device_id) \<le> unat c + 120 * 1"
      using rate unfolding Some wc rate_ok.simps by blast+
    have "length (filter (\<lambda>(_, t). now < t + RATE_WINDOW) h) \<le> since (w - 1 * RATE_WINDOW) h" for h
      using w unfolding since_def by (induction h) auto
    from this [of "history_of ?L device_id"] count c show ?thesis
      by linarith
  qed
  ultimately show ?thesis by simp
qed

text \<open>A refusal under the lock drops expired nonces and touches nothing else: an elapsed window is never full.\<close>

lemma refused_admission:
  assumes "admit d nonce now g = (Err e, g')"
  shows "g' = g\<lparr>ai_nonces := (ai_nonces g)(d \<mapsto> filter (\<lambda>(seen, expires). now < expires) (nonce_queue g d))\<rparr>"
proof -
  have same: "(ai_rates g)(d \<mapsto> rate) = ai_rates g" if "ai_rates g d = Some rate" for rate
    using that by auto
  show ?thesis
    using assms
    by (auto simp: admit_def Let_def RATE_LIMIT_PER_DEVICE_def same split: if_splits option.splits)
qed

text \<open>
  C22. What an accepted request has proved: the device is the one of the public key it presents, and
  that key signed exactly this method, path, device, timestamp, nonce and body hash, with a
  timestamp within five minutes of the gateway's clock. A request that is refused is not
  remembered and not counted, and makes the gateway forget no nonce that still lives: the only thing
  it may change is that a replay, or a request over the rate limit, drops the nonces of its device
  that have expired.
\<close>

theorem authentication_sound:
  "case authenticate P sha256 q g of
     (Ok d, g') \<Rightarrow> \<exists>public_key signature nonce text timestamp.
       parse_hex (aq_headers q) H_PUBLIC_KEY = Ok public_key \<and>
       parse_hex (aq_headers q) H_SIGNATURE = Ok signature \<and>
       parse_hex (aq_headers q) H_NONCE = Ok nonce \<and>
       header (aq_headers q) H_TIMESTAMP = Ok text \<and> parse_u64 text = Some timestamp \<and>
       d = device_id_from_public_key sha256 public_key \<and> ed_key_ok P public_key \<and>
       ed_verify P public_key (auth_signing_bytes (aq_method q) (aq_path q) d public_key timestamp
         nonce (bytes (sha256 (aq_body q)))) signature \<and>
       unat timestamp \<le> unat (aq_now_ms q) + 300000 \<and>
       unat (aq_now_ms q) \<le> unat timestamp + 300000
   | (Err e, g') \<Rightarrow> g' = g \<or>
       (e \<in> {AuthReplay, RateLimited} \<and>
        (\<exists>d. g' = g\<lparr>ai_nonces := (ai_nonces g)(d \<mapsto>
           filter (\<lambda>(seen, expires). aq_instant q < expires) (nonce_queue g d))\<rparr>))"
proof (cases "verify_request P sha256 q")
  case (Inl e)
  then show ?thesis by (simp add: authenticate_def)
next
  case (Inr dn)
  obtain d nonce where dn: "dn = (d, nonce)" by (cases dn)
  show ?thesis
  proof (cases "admit d nonce (aq_instant q) g")
    case (Pair result g')
    have result: "result = Ok d \<or> result \<in> {Err AuthReplay, Err RateLimited}"
      using Pair by (auto simp: admit_def Let_def split: if_splits)
    have "\<exists>public_key signature nonce text timestamp.
       parse_hex (aq_headers q) H_PUBLIC_KEY = Ok public_key \<and>
       parse_hex (aq_headers q) H_SIGNATURE = Ok signature \<and>
       parse_hex (aq_headers q) H_NONCE = Ok nonce \<and>
       header (aq_headers q) H_TIMESTAMP = Ok text \<and> parse_u64 text = Some timestamp \<and>
       d = device_id_from_public_key sha256 public_key \<and> ed_key_ok P public_key \<and>
       ed_verify P public_key (auth_signing_bytes (aq_method q) (aq_path q) d public_key timestamp
         nonce (bytes (sha256 (aq_body q)))) signature \<and>
       unat timestamp \<le> unat (aq_now_ms q) + 300000 \<and>
       unat (aq_now_ms q) \<le> unat timestamp + 300000"
      using Inr dn unfolding verify_request_def
      by (clarsimp simp: result_simps Let_def not_less word_le_nat_alt unat_u64_saturating_add
          unat_u64_saturating_sub AUTH_MAX_CLOCK_SKEW_MS_def le_diff_conv split: if_splits)
    moreover have "result = Ok d \<or> result \<in> {Err AuthReplay, Err RateLimited} \<and>
        g' = g\<lparr>ai_nonces := (ai_nonces g)(d \<mapsto>
          filter (\<lambda>(seen, expires). aq_instant q < expires) (nonce_queue g d))\<rparr>"
      using result refused_admission [of d nonce "aq_instant q" g _ g'] Pair by (cases result) simp_all
    ultimately show ?thesis
      using Pair Inr dn by (auto simp: authenticate_def)
  qed
qed

lemma byte_string_inject [simp]: "byte_string s = byte_string t \<longleftrightarrow> s = t"
proof -
  have "c = d" if "(of_char c :: u8) = of_char d" for c d
  proof -
    have "unat (of_char c :: u8) = of_char c" for c
      using of_nat_of_char [of c, where 'a = u8, symmetric] nat_of_char_less_256 [of c]
      by (simp add: unat_of_nat)
    with that show ?thesis
      by (metis char_of_char)
  qed
  then have "inj (of_char :: char \<Rightarrow> u8)"
    by (auto intro: injI)
  then show ?thesis
    by (simp add: byte_string_def inj_map_eq_map)
qed

text \<open>
  The signed bytes of a request are unambiguous: two requests with the same signed bytes have
  the same method, path, device, key, timestamp, nonce and body hash, provided the lengths fit the
  16 and 32 bits the encoding casts them to.
\<close>

theorem auth_signature_binds:
  assumes "length m < 2 ^ 16" and "length m' < 2 ^ 16" and "length p < 2 ^ 32" and "length p' < 2 ^ 32"
  shows "auth_signing_bytes m p d k t n h = auth_signing_bytes m' p' d' k' t' n' h' \<longleftrightarrow>
    m = m' \<and> p = p' \<and> d = d' \<and> k = k' \<and> t = t' \<and> n = n' \<and> h = h'"
proof
  assume eq: "auth_signing_bytes m p d k t n h = auth_signing_bytes m' p' d' k' t' n' h'"
  then have "(word_of_nat (length m) :: u16) = word_of_nat (length m')"
    by (simp add: auth_signing_bytes_def Let_def append_inject_length)
  then have "length m = length m'"
    using assms(1,2) by (simp add: word_unat_eq_iff unat_of_nat)
  with eq have m: "m = m'" and "(word_of_nat (length p) :: u32) = word_of_nat (length p')"
    by (simp_all add: auth_signing_bytes_def Let_def append_inject_length)
  then have "length p = length p'"
    using assms(3,4) by (simp add: word_unat_eq_iff unat_of_nat)
  with eq m show "m = m' \<and> p = p' \<and> d = d' \<and> k = k' \<and> t = t' \<and> n = n' \<and> h = h'"
    by (simp add: auth_signing_bytes_def Let_def append_inject_length bytes_eq_iff)
qed simp

lemma verify_later:
  assumes "verify_request P sha256 q = Ok dn"
    and "header (aq_headers q) H_TIMESTAMP = Ok text" and "parse_u64 text = Some timestamp"
    and "aq_now_ms q \<le> timestamp" and "unat (aq_now_ms q) + 300000 < 2 ^ 64"
  shows "verify_request P sha256 (q\<lparr>aq_now_ms := aq_now_ms q + 300000, aq_instant := i\<rparr>) = Ok dn"
proof -
  have later: "unat (aq_now_ms q + 300000) = unat (aq_now_ms q) + 300000"
    using assms(5) by (simp add: unat_word_ariths)
  have "\<not> u64_saturating_add (aq_now_ms q) AUTH_MAX_CLOCK_SKEW_MS < timestamp"
    using assms(1-3) by (auto simp: verify_request_def result_simps Let_def split: if_splits)
  then have "\<not> u64_saturating_add (aq_now_ms q + 300000) AUTH_MAX_CLOCK_SKEW_MS < timestamp"
    by (auto simp: word_less_nat_alt unat_u64_saturating_add later)
  moreover have "\<not> AUTH_MAX_CLOCK_SKEW_MS < u64_saturating_sub (aq_now_ms q + 300000) timestamp"
    using assms(4) by (simp add: word_less_nat_alt word_le_nat_alt unat_u64_saturating_sub later
        AUTH_MAX_CLOCK_SKEW_MS_def)
  ultimately show ?thesis
    using assms(1-3) by (auto simp: verify_request_def result_simps Let_def split: if_splits)
qed

text \<open>
  C34. The nonce cache forgets a request before its timestamp expires: a timestamp is good from
  five minutes before to five minutes after the gateway's clock, the nonce is kept for five minutes
  only. So a request accepted with a timestamp that is not in the past is accepted a second time,
  byte for byte, when it is sent again five minutes later.
\<close>

theorem request_replayable_after_ttl:
  assumes "sorted (map aq_instant qs)" and "\<forall>q' \<in> set qs. aq_instant q' \<le> aq_instant q"
    and "g = snd (run (authenticate P sha256) qs AuthState_default)"
    and "authenticate P sha256 q g = (Ok d, g')"
    and "header (aq_headers q) H_TIMESTAMP = Ok text" and "parse_u64 text = Some timestamp"
    and "aq_now_ms q \<le> timestamp" and "unat (aq_now_ms q) + 300000 < 2 ^ 64"
  shows "fst (authenticate P sha256
      (q\<lparr>aq_now_ms := aq_now_ms q + 300000, aq_instant := aq_instant q + NONCE_TTL\<rparr>) g') = Ok d"
proof -
  let ?L = "granted (accepted_at P sha256) qs (fst (run (authenticate P sha256) qs AuthState_default))"
  let ?T = "last (0 # map aq_instant qs)" and ?now = "aq_instant q + NONCE_TTL"
  have rel: "auth_rel ?T g (history_of ?L)" "sorted_wrt spaced ?L"
    using run_rel [of 0 AuthState_default "[]" qs P sha256] auth_rel_default assms(1,3)
    by (simp_all add: Let_def del: last.simps)
  moreover have "?T \<le> aq_instant q"
    using assms(2) by (cases qs rule: rev_cases) auto
  ultimately obtain H where H: "auth_rel (aq_instant q) g' H"
    using authenticate_rel [of ?T g ?L q P sha256] assms(4) by auto
  obtain n where v: "verify_request P sha256 q = Ok (d, n)"
    using assms(4) by (auto simp: authenticate_def admit_def Let_def split: sum.splits prod.splits if_splits)
  have s: "summarises (aq_instant q) (ai_rates g' d) (nonce_queue g' d) (H d)"
    using H by (simp add: auth_rel_def)
  have "live_nonces ?now (nonce_queue g' d) = live_nonces ?now (with_expiry (H d))"
    using summarises_mono [OF s, of ?now] by (simp add: summarises_def)
  also have "\<dots> = []"
    using s by (auto simp: summarises_def live_nonces_def with_expiry_def filter_empty_conv)
  finally have "filter (\<lambda>(_, expires). ?now < expires) (nonce_queue g' d) = []"
    by (simp add: live_nonces_def)
  moreover have "RATE_WINDOW \<le> ?now - w" if "ai_rates g' d = Some (w, c)" for w c
  proof -
    have "w \<le> aq_instant q"
      using s that by (simp add: summarises_def)
    then show ?thesis
      by (simp add: RATE_WINDOW_def NONCE_TTL_def)
  qed
  ultimately have "fst (admit d n ?now g') = Ok d"
    by (auto simp: admit_def Let_def RATE_LIMIT_PER_DEVICE_def split: option.split)
  then show ?thesis
    using verify_later [OF v assms(5-8)] by (simp add: authenticate_def)
qed

section \<open>A sample request\<close>

text \<open>Every byte of every hexadecimal header is 01, the timestamp is 1000.\<close>

definition sample_headers :: header_map where
  "sample_headers name = Some (Text
     (if name = H_TIMESTAMP then ''1000''
      else if name = H_SIGNATURE then concat (replicate 64 ''01'')
      else if name = H_PUBLIC_KEY then concat (replicate 32 ''01'')
      else concat (replicate 16 ''01'')))"

definition sample_request :: auth_request where
  "sample_request =
     \<lparr>aq_now_ms = 1000, aq_instant = 7, aq_headers = sample_headers, aq_method = ''GET'',
      aq_path = ''/v1/ws'', aq_body = []\<rparr>"

lemma hex_ones: "hex_pairs (byte_string (concat (replicate n ''01''))) = Some (replicate n 1)"
  by (induction n) (simp_all add: byte_string_def hex_nibble_def)

lemma length_ones [simp]: "length (concat (replicate n ''01'')) = 2 * n"
  by (induction n) simp_all

lemma arr_replicate [simp]: "arr (replicate LENGTH('n::len) b) = (fill b :: 'n arr)"
  by (metis arr_bytes bytes_fill)

lemma sample_verify:
  assumes "aq_headers q = sample_headers" and "aq_now_ms q = 1000"
  shows "verify_request sample_primitives (\<lambda>_. fill 1) q = Ok (fill 1, fill 1)"
proof -
  have "(arr (replicate 16 1) :: 16 arr) = fill 1" "(arr (replicate 32 1) :: 32 arr) = fill 1"
    "(arr (replicate 64 1) :: 64 arr) = fill 1"
    using arr_replicate [where 'n = 16] arr_replicate [where 'n = 32] arr_replicate [where 'n = 64]
    by simp_all
  moreover have "parse_u64 ''1000'' = Some 1000"
    by (simp add: parse_u64_def decimal_value_def is_digit_def)
  ultimately show ?thesis
    using assms by (simp add: verify_request_def parse_hex_def header_def sample_headers_def
        H_TIMESTAMP_def H_SIGNATURE_def H_PUBLIC_KEY_def H_DEVICE_ID_def H_NONCE_def hex_ones
        device_id_from_public_key_def Let_def u64_saturating_add_def u64_saturating_sub_def
        AUTH_MAX_CLOCK_SKEW_MS_def)
qed

lemma sample_authenticate_default:
  assumes "aq_headers q = sample_headers" and "aq_now_ms q = 1000"
  shows "fst (authenticate sample_primitives (\<lambda>_. fill 1) q AuthState_default) = Ok (fill 1)"
  using sample_verify [OF assms]
  by (simp add: authenticate_def admit_def AuthState_default_def nonce_queue_def Let_def
      RATE_LIMIT_PER_DEVICE_def RATE_WINDOW_def)

lemma sample_authenticate:
  "fst (authenticate sample_primitives (\<lambda>_. fill 1) sample_request AuthState_default) = Ok (fill 1)"
  by (rule sample_authenticate_default) (simp_all add: sample_request_def)

theorem no_replay_within_ttl_witness:
  "sorted_wrt (\<lambda>(d, n, t) (d', n', t'). (d, n) = (d', n') \<longrightarrow> t + NONCE_TTL \<le> t')
    (granted (accepted_at sample_primitives (\<lambda>_. fill 1)) [sample_request, sample_request]
      (fst (run (authenticate sample_primitives (\<lambda>_. fill 1)) [sample_request, sample_request]
        AuthState_default)))"
  by (rule no_replay_within_ttl) simp

theorem accepted_requests_per_minute_witness:
  "length (filter (\<lambda>(d, n, t). d = fill 1 \<and> 7 < t + RATE_WINDOW)
    (granted (accepted_at sample_primitives (\<lambda>_. fill 1)) [sample_request]
      (fst (run (authenticate sample_primitives (\<lambda>_. fill 1)) [sample_request] AuthState_default)))) \<le> 240"
  by (rule accepted_requests_per_minute) (simp_all add: sample_request_def)

theorem request_replayable_after_ttl_witness:
  "fst (authenticate sample_primitives (\<lambda>_. fill 1)
     (sample_request\<lparr>aq_now_ms := 301000, aq_instant := 7 + NONCE_TTL\<rparr>)
     (snd (authenticate sample_primitives (\<lambda>_. fill 1) sample_request AuthState_default))) = Ok (fill 1)"
proof -
  have "authenticate sample_primitives (\<lambda>_. fill 1) sample_request AuthState_default =
      (Ok (fill 1), snd (authenticate sample_primitives (\<lambda>_. fill 1) sample_request AuthState_default))"
    using sample_authenticate by (simp add: prod_eq_iff)
  moreover have "header (aq_headers sample_request) H_TIMESTAMP = Ok ''1000''"
    by (simp add: sample_request_def header_def sample_headers_def)
  moreover have "parse_u64 ''1000'' = Some 1000"
    by (simp add: parse_u64_def decimal_value_def is_digit_def)
  ultimately show ?thesis
    using request_replayable_after_ttl [where qs = "[]" and q = sample_request and P = sample_primitives
        and ?sha256.0 = "\<lambda>_. fill 1" and g = AuthState_default]
    by (simp add: sample_request_def)
qed

end
