(* ===== verification/Registry.thy ===== *)
theory Registry
  imports Identity Protocol
begin

text \<open>
  The gateway's prekey registry, \<open>backend/src/prekeys.rs\<close>: signed publications with generations,
  revocation, and the exclusive claim of one-time prekeys. The state is behind one mutex, each
  operation is one step, and the clock is an argument.
\<close>

section \<open>Publications\<close>

definition PUBLICATION_DOMAIN :: "u8 list" where
  "PUBLICATION_DOMAIN = byte_string ''M/PREKEY-PUBLICATION/v1''"

definition MAX_LIFETIME_MS :: u64 where
  "MAX_LIFETIME_MS = 30 * 24 * 60 * 60 * 1000"

definition REGISTRY_MAX_CLOCK_SKEW_MS :: u64 where
  "REGISTRY_MAX_CLOCK_SKEW_MS = 5 * 60 * 1000"

record PreKeyPublication =
  pp_bundle :: PreKeyBundle
  pp_generation :: u64
  pp_issued_at_ms :: u64
  pp_expires_at_ms :: u64
  pp_signature :: "64 arr"

datatype PublicationError =
  PubInvalidBundle | PubInvalidVersion | PubInvalidTime | PubExpired | TooLong
| PubInvalidSignature | WrongDevice | StaleGeneration | PubNotFound | AlreadyRevoked
| AlreadyClaimed | InvalidRequest | PubPoisoned

definition PreKeyPublication_signing_bytes :: "PreKeyPublication \<Rightarrow> u8 list" where
  "PreKeyPublication_signing_bytes p =
     (let b = pp_bundle p in
      PUBLICATION_DOMAIN @ u16_to_be (version_number (pb_protocol_version b)) @
      bytes (pb_device_id b) @ bytes (pb_identity_signing_key b) @
      bytes (pb_identity_agreement_key b) @ u32_to_be (pb_signed_prekey_id b) @
      bytes (pb_signed_prekey b) @ bytes (pb_signed_prekey_signature b) @
      u64_to_be (pp_generation p) @ u64_to_be (pp_issued_at_ms p) @ u64_to_be (pp_expires_at_ms p) @
      u32_to_be (word_of_nat (length (pb_one_time_prekeys b))) @
      concat (map (\<lambda>key. u32_to_be (opk_key_id key) @ bytes (opk_public_key key))
                  (pb_one_time_prekeys b)))"

definition verify_signature :: "primitives \<Rightarrow> PreKeyPublication \<Rightarrow> bool" where
  "verify_signature P p \<longleftrightarrow>
     (let key = pb_identity_signing_key (pp_bundle p) in
      ed_key_ok P key \<and> ed_verify P key (PreKeyPublication_signing_bytes p) (pp_signature p))"

definition verify_signed_prekey :: "primitives \<Rightarrow> PreKeyBundle \<Rightarrow> bool" where
  "verify_signed_prekey P b \<longleftrightarrow>
     (let identity = pb_identity_signing_key b;
          bs = byte_string ''NEXA/SPK/v2'' @ u32_to_be (pb_signed_prekey_id b) @
               bytes (pb_signed_prekey b) @ bytes (pb_identity_agreement_key b)
      in ed_key_ok P identity \<and> ed_verify P identity bs (pb_signed_prekey_signature b))"

definition PreKeyPublication_validate ::
  "primitives \<Rightarrow> 16 arr \<Rightarrow> u64 \<Rightarrow> PreKeyPublication \<Rightarrow> PublicationError + unit" where
  "PreKeyPublication_validate P expected_device now_ms p =
     and_then (map_err (\<lambda>_. PubInvalidBundle) (PreKeyBundle_validate (pp_bundle p))) (\<lambda>_.
     if version_number (pb_protocol_version (pp_bundle p)) \<noteq> PROTOCOL_VERSION
     then Err PubInvalidVersion
     else if pb_device_id (pp_bundle p) \<noteq> expected_device then Err WrongDevice
     else if u64_saturating_add now_ms REGISTRY_MAX_CLOCK_SKEW_MS < pp_issued_at_ms p \<or>
             pp_expires_at_ms p \<le> pp_issued_at_ms p
     then Err PubInvalidTime
     else if MAX_LIFETIME_MS < u64_saturating_sub (pp_expires_at_ms p) (pp_issued_at_ms p)
     then Err TooLong
     else if pp_expires_at_ms p \<le> now_ms then Err PubExpired
     else if \<not> verify_signature P p \<or> \<not> verify_signed_prekey P (pp_bundle p)
     then Err PubInvalidSignature
     else Ok ())"

section \<open>The registry\<close>

record OpkClaimRequest =
  cr_request_id :: "16 arr"

record OpkClaim =
  oc_request_id :: "16 arr"
  oc_claimant_device :: "16 arr"
  oc_recipient_device :: "16 arr"
  oc_generation :: u64
  oc_key_id :: u32
  oc_public_key :: "32 arr"

record ClaimKey =
  ck_device :: "16 arr"
  ck_generation :: u64
  ck_key_id :: u32

record RequestKey =
  rk_claimant :: "16 arr"
  rk_request_id :: "16 arr"

record RegistryState =
  rg_publications :: "16 arr \<Rightarrow> PreKeyPublication option"
  rg_revoked :: "16 arr \<Rightarrow> u64 option"
  rg_claims :: "ClaimKey \<Rightarrow> OpkClaim option"
  rg_requests :: "RequestKey \<Rightarrow> ClaimKey option"

definition PreKeyRegistry_default :: RegistryState where
  "PreKeyRegistry_default =
     \<lparr>rg_publications = Map.empty, rg_revoked = Map.empty, rg_claims = Map.empty,
      rg_requests = Map.empty\<rparr>"

definition PreKeyRegistry_publish ::
  "primitives \<Rightarrow> 16 arr \<Rightarrow> PreKeyPublication \<Rightarrow> u64 \<Rightarrow> RegistryState \<Rightarrow>
     (PublicationError + unit) \<times> RegistryState" where
  "PreKeyRegistry_publish P expected_device p now_ms s =
     (let device = pb_device_id (pp_bundle p) in
      case PreKeyPublication_validate P expected_device now_ms p of
        Err e \<Rightarrow> (Err e, s)
      | Ok _ \<Rightarrow>
          if rg_revoked s device \<noteq> None then (Err AlreadyRevoked, s)
          else if (case rg_publications s device of
                     None \<Rightarrow> False
                   | Some current \<Rightarrow> pp_generation p \<le> pp_generation current)
          then (Err StaleGeneration, s)
          else (Ok (), s\<lparr>rg_publications := (rg_publications s)(device \<mapsto> p)\<rparr>))"

definition PreKeyRegistry_get :: "16 arr \<Rightarrow> RegistryState \<Rightarrow> PreKeyPublication option" where
  "PreKeyRegistry_get device s = rg_publications s device"

definition is_revoked :: "16 arr \<Rightarrow> RegistryState \<Rightarrow> bool" where
  "is_revoked device s \<longleftrightarrow> rg_revoked s device \<noteq> None"

definition PreKeyRegistry_revoke ::
  "16 arr \<Rightarrow> u64 \<Rightarrow> u64 \<Rightarrow> RegistryState \<Rightarrow> (PublicationError + unit) \<times> RegistryState" where
  "PreKeyRegistry_revoke device generation now_ms s =
     (case rg_publications s device of
        None \<Rightarrow> (Err PubNotFound, s)
      | Some current \<Rightarrow>
          if pp_generation current \<noteq> generation then (Err StaleGeneration, s)
          else if rg_revoked s device \<noteq> None then (Err AlreadyRevoked, s)
          else (Ok (), s\<lparr>rg_revoked := (rg_revoked s)(device \<mapsto> now_ms)\<rparr>))"

definition get_active :: "16 arr \<Rightarrow> u64 \<Rightarrow> RegistryState \<Rightarrow> PreKeyPublication option" where
  "get_active device now_ms s =
     (if rg_revoked s device \<noteq> None then None
      else Option.bind (rg_publications s device) (\<lambda>p.
        if now_ms < pp_expires_at_ms p then Some p else None))"

definition claim_opk ::
  "16 arr \<Rightarrow> u64 \<Rightarrow> u32 \<Rightarrow> 16 arr \<Rightarrow> 16 arr \<Rightarrow> u64 \<Rightarrow> RegistryState \<Rightarrow>
     (PublicationError + OpkClaim) \<times> RegistryState" where
  "claim_opk recipient generation key_id claimant request_id now_ms s =
     (if request_id = fill 0 then (Err InvalidRequest, s)
      else if rg_revoked s recipient \<noteq> None then (Err PubNotFound, s)
      else case rg_publications s recipient of
        None \<Rightarrow> (Err PubNotFound, s)
      | Some p \<Rightarrow>
          if pp_expires_at_ms p \<le> now_ms then (Err PubNotFound, s)
          else if pp_generation p \<noteq> generation then (Err StaleGeneration, s)
          else
            let claim_key = \<lparr>ck_device = recipient, ck_generation = generation, ck_key_id = key_id\<rparr> in
            (case rg_claims s claim_key of
               Some existing \<Rightarrow>
                 (if oc_claimant_device existing = claimant \<and> oc_request_id existing = request_id
                  then (Ok existing, s) else (Err AlreadyClaimed, s))
             | None \<Rightarrow>
                 let request_key = \<lparr>rk_claimant = claimant, rk_request_id = request_id\<rparr> in
                 if rg_requests s request_key \<noteq> None then (Err InvalidRequest, s)
                 else (case find (\<lambda>key. opk_key_id key = key_id) (pb_one_time_prekeys (pp_bundle p)) of
                     None \<Rightarrow> (Err PubNotFound, s)
                   | Some key \<Rightarrow>
                       let claim = \<lparr>oc_request_id = request_id, oc_claimant_device = claimant,
                                    oc_recipient_device = recipient, oc_generation = generation,
                                    oc_key_id = key_id, oc_public_key = opk_public_key key\<rparr>
                       in (Ok claim,
                           s\<lparr>rg_claims := (rg_claims s)(claim_key \<mapsto> claim),
                             rg_requests := (rg_requests s)(request_key \<mapsto> claim_key)\<rparr>))))"

section \<open>The registry as a machine\<close>

datatype registry_op =
  RegPublish "16 arr" PreKeyPublication u64
| RegRevoke "16 arr" u64 u64
| RegClaim "16 arr" u64 u32 "16 arr" "16 arr" u64

datatype registry_answer =
  RegDone "PublicationError + unit" | RegClaimed "PublicationError + OpkClaim"

fun registry_step :: "primitives \<Rightarrow> registry_op \<Rightarrow> RegistryState \<Rightarrow> registry_answer \<times> RegistryState" where
  "registry_step P (RegPublish expected p now) s =
     apfst RegDone (PreKeyRegistry_publish P expected p now s)"
| "registry_step P (RegRevoke device generation now) s =
     apfst RegDone (PreKeyRegistry_revoke device generation now s)"
| "registry_step P (RegClaim recipient generation key_id claimant request now) s =
     apfst RegClaimed (claim_opk recipient generation key_id claimant request now s)"

definition claim_key_of :: "OpkClaim \<Rightarrow> ClaimKey" where
  "claim_key_of c = \<lparr>ck_device = oc_recipient_device c, ck_generation = oc_generation c,
                     ck_key_id = oc_key_id c\<rparr>"

definition request_key_of :: "OpkClaim \<Rightarrow> RequestKey" where
  "request_key_of c = \<lparr>rk_claimant = oc_claimant_device c, rk_request_id = oc_request_id c\<rparr>"

definition publication_ok :: "primitives \<Rightarrow> 16 arr \<Rightarrow> PreKeyPublication \<Rightarrow> bool" where
  "publication_ok P device p \<longleftrightarrow>
     PreKeyBundle_validate (pp_bundle p) = Ok () \<and> pb_device_id (pp_bundle p) = device \<and>
     pp_issued_at_ms p < pp_expires_at_ms p \<and>
     unat (pp_expires_at_ms p) \<le> unat (pp_issued_at_ms p) + unat MAX_LIFETIME_MS \<and>
     verify_signature P p \<and> verify_signed_prekey P (pp_bundle p)"

definition registry_inv :: "primitives \<Rightarrow> RegistryState \<Rightarrow> bool" where
  "registry_inv P s \<longleftrightarrow>
     (\<forall>d p. rg_publications s d = Some p \<longrightarrow> publication_ok P d p) \<and>
     (\<forall>k c. rg_claims s k = Some c \<longrightarrow>
        claim_key_of c = k \<and> rg_requests s (request_key_of c) = Some k \<and>
        (\<exists>p. rg_publications s (ck_device k) = Some p \<and> ck_generation k \<le> pp_generation p)) \<and>
     (\<forall>r k. rg_requests s r = Some k \<longrightarrow> (\<exists>c. rg_claims s k = Some c \<and> request_key_of c = r))"

lemma validate_Ok:
  "PreKeyPublication_validate P d now p = Ok u \<Longrightarrow>
     publication_ok P d p \<and> now < pp_expires_at_ms p"
  by (auto simp: PreKeyPublication_validate_def publication_ok_def result_simps not_le not_less
      word_le_nat_alt word_less_nat_alt unat_u64_saturating_sub split: if_splits)

lemma publish_cases:
  assumes "PreKeyRegistry_publish P expected p now s = (result, s')"
  obtains (refused) e where "result = Err e" "s' = s"
  | (published) "result = Ok ()" "publication_ok P expected p" "now < pp_expires_at_ms p"
      "rg_revoked s expected = None"
      "pred_option (\<lambda>current. pp_generation current < pp_generation p) (rg_publications s expected)"
      "s' = s\<lparr>rg_publications := (rg_publications s)(expected \<mapsto> p)\<rparr>"
proof (cases "PreKeyPublication_validate P expected now p")
  case (Inl e)
  with assms show thesis
    by (intro refused [of e]) (auto simp: PreKeyRegistry_publish_def)
next
  case (Inr u)
  note ok = validate_Ok [OF Inr]
  then have d: "pb_device_id (pp_bundle p) = expected"
    by (simp add: publication_ok_def)
  show thesis
  proof (cases result)
    case (Inl e)
    with assms Inr show thesis
      by (intro refused [of e]) (auto simp: PreKeyRegistry_publish_def Let_def split: if_splits)
  next
    case (Inr v)
    with assms \<open>PreKeyPublication_validate P expected now p = Inr u\<close> ok d show thesis
      by (intro published)
        (auto simp: PreKeyRegistry_publish_def Let_def option.pred_set not_le split: if_splits option.splits)
  qed
qed

lemma claim_cases:
  assumes "claim_opk recipient generation key_id claimant request now s = (result, s')"
  obtains (refused) e where "result = Err e" "s' = s"
  | (repeated) c where "result = Ok c" "s' = s"
      "rg_claims s \<lparr>ck_device = recipient, ck_generation = generation, ck_key_id = key_id\<rparr> = Some c"
  | (fresh) c p where "result = Ok c" "rg_publications s recipient = Some p"
      "pp_generation p = generation" "rg_claims s (claim_key_of c) = None"
      "claim_key_of c = \<lparr>ck_device = recipient, ck_generation = generation, ck_key_id = key_id\<rparr>"
      "rg_requests s (request_key_of c) = None"
      "s' = s\<lparr>rg_claims := (rg_claims s)(claim_key_of c \<mapsto> c),
              rg_requests := (rg_requests s)(request_key_of c \<mapsto> claim_key_of c)\<rparr>"
proof -
  let ?k = "\<lparr>ck_device = recipient, ck_generation = generation, ck_key_id = key_id\<rparr>"
  show thesis
  proof (cases result)
    case (Inl e)
    then have "s' = s"
      using assms by (auto simp: claim_opk_def Let_def split: if_splits option.splits)
    with Inl show thesis by (rule refused)
  next
    case (Inr c)
    then obtain p where p: "rg_publications s recipient = Some p" "pp_generation p = generation"
      using assms by (auto simp: claim_opk_def split: if_splits option.splits)
    show thesis
    proof (cases "rg_claims s ?k")
      case (Some existing)
      then have "s' = s" "c = existing"
        using assms Inr p by (auto simp: claim_opk_def Let_def split: if_splits)
      with Some Inr show thesis
        by (intro repeated) simp_all
    next
      case None
      then obtain key where "find (\<lambda>key. opk_key_id key = key_id) (pb_one_time_prekeys (pp_bundle p)) = Some key"
        and c: "c = \<lparr>oc_request_id = request, oc_claimant_device = claimant,
          oc_recipient_device = recipient, oc_generation = generation, oc_key_id = key_id,
          oc_public_key = opk_public_key key\<rparr>"
        using assms Inr p by (auto simp: claim_opk_def Let_def split: if_splits option.splits)
      then have k: "claim_key_of c = ?k"
        and r: "request_key_of c = \<lparr>rk_claimant = claimant, rk_request_id = request\<rparr>"
        by (simp_all add: claim_key_of_def request_key_of_def)
      show thesis
        by (rule fresh [OF Inr p]) (use assms Inr p None in
          \<open>auto simp: k r claim_opk_def Let_def split: if_splits option.splits\<close>)
    qed
  qed
qed

section \<open>Invariant and monotonicity\<close>

lemma registry_inv_default: "registry_inv P PreKeyRegistry_default"
  by (simp add: registry_inv_def PreKeyRegistry_default_def)

lemma registry_inv_dest:
  assumes "registry_inv P s"
  shows inv_publication: "rg_publications s d = Some p \<Longrightarrow> publication_ok P d p"
    and inv_claim_key: "rg_claims s k = Some c \<Longrightarrow> claim_key_of c = k"
    and inv_claim_request: "rg_claims s k = Some c \<Longrightarrow> rg_requests s (request_key_of c) = Some k"
    and inv_claim_generation: "rg_claims s k = Some c \<Longrightarrow>
      \<exists>p. rg_publications s (ck_device k) = Some p \<and> ck_generation k \<le> pp_generation p"
    and inv_request: "rg_requests s r = Some k \<Longrightarrow> \<exists>c. rg_claims s k = Some c \<and> request_key_of c = r"
  using assms unfolding registry_inv_def by blast+

lemma registry_invI:
  assumes "\<And>d p. rg_publications s d = Some p \<Longrightarrow> publication_ok P d p"
    and "\<And>k c. rg_claims s k = Some c \<Longrightarrow> claim_key_of c = k"
    and "\<And>k c. rg_claims s k = Some c \<Longrightarrow> rg_requests s (request_key_of c) = Some k"
    and "\<And>k c. rg_claims s k = Some c \<Longrightarrow>
      \<exists>p. rg_publications s (ck_device k) = Some p \<and> ck_generation k \<le> pp_generation p"
    and "\<And>r k. rg_requests s r = Some k \<Longrightarrow> \<exists>c. rg_claims s k = Some c \<and> request_key_of c = r"
  shows "registry_inv P s"
  using assms unfolding registry_inv_def by blast

lemma publish_inv:
  assumes "PreKeyRegistry_publish P expected p now s = (result, s')" and "registry_inv P s"
  shows "registry_inv P s'"
  using assms(1)
proof (cases rule: publish_cases)
  case (refused e)
  with assms(2) show ?thesis by simp
next
  case published
  show ?thesis
  proof (rule registry_invI)
    fix k c
    assume "rg_claims s' k = Some c"
    then have "rg_claims s k = Some c"
      by (simp add: published(6))
    from inv_claim_generation [OF assms(2) this] obtain old where
      old: "rg_publications s (ck_device k) = Some old" "ck_generation k \<le> pp_generation old"
      by blast
    then show "\<exists>p. rg_publications s' (ck_device k) = Some p \<and> ck_generation k \<le> pp_generation p"
      using published(5) by (cases "ck_device k = expected") (auto simp: published(6))
  next
    fix d p'
    assume "rg_publications s' d = Some p'"
    then show "publication_ok P d p'"
      using published(2) inv_publication [OF assms(2)] by (auto simp: published(6) split: if_splits)
  qed (use registry_inv_dest [OF assms(2)] in \<open>simp_all add: published(6)\<close>)
qed

lemma claim_inv:
  assumes "claim_opk recipient generation key_id claimant request now s = (result, s')"
    and inv: "registry_inv P s"
  shows "registry_inv P s'"
  using assms(1)
proof (cases rule: claim_cases)
  case (fresh c p)
  have other: "request_key_of c' \<noteq> request_key_of c" if "rg_claims s k = Some c'" for k c'
    using inv_claim_request [OF inv that] fresh(6) by auto
  have "k \<noteq> claim_key_of c" if "rg_requests s r = Some k" for r k
    using inv_request [OF inv that] fresh(4) by auto
  with inv other fresh show ?thesis
    by (intro registry_invI) (auto split: if_splits dest: registry_inv_dest)
qed (use inv in simp_all)

lemma revoke_inv: "registry_inv P s \<Longrightarrow> registry_inv P (snd (PreKeyRegistry_revoke d g now s))"
  by (auto simp: PreKeyRegistry_revoke_def registry_inv_def split: option.split)

interpretation registry: machine "registry_step P" "registry_inv P" for P
proof (unfold_locales, goal_cases)
  case (1 s op)
  then show ?case
    by (cases op) (auto intro: publish_inv [OF prod.collapse [symmetric]]
        claim_inv [OF prod.collapse [symmetric]] simp: revoke_inv)
qed

text \<open>What an operation can never undo.\<close>

definition grows :: "RegistryState \<Rightarrow> RegistryState \<Rightarrow> bool" where
  "grows s s' \<longleftrightarrow>
     rg_claims s \<subseteq>\<^sub>m rg_claims s' \<and> rg_revoked s \<subseteq>\<^sub>m rg_revoked s' \<and>
     (\<forall>d p. rg_publications s d = Some p \<longrightarrow>
        (\<exists>p'. rg_publications s' d = Some p' \<and> (p' = p \<or> pp_generation p < pp_generation p') \<and>
              (rg_revoked s d \<noteq> None \<longrightarrow> p' = p)))"

lemma grows_refl [simp]: "grows s s"
  by (simp add: grows_def)

lemma grows_claim: "grows s s' \<Longrightarrow> rg_claims s k = Some c \<Longrightarrow> rg_claims s' k = Some c"
  unfolding grows_def map_le_def by (metis domI)

lemma grows_revoked: "grows s s' \<Longrightarrow> rg_revoked s d = Some t \<Longrightarrow> rg_revoked s' d = Some t"
  unfolding grows_def map_le_def by (metis domI)

lemma grows_publication:
  "grows s s' \<Longrightarrow> rg_publications s d = Some p \<Longrightarrow>
     \<exists>p'. rg_publications s' d = Some p' \<and> (p' = p \<or> pp_generation p < pp_generation p') \<and>
          (rg_revoked s d \<noteq> None \<longrightarrow> p' = p)"
  unfolding grows_def by blast

lemma grows_trans:
  assumes "grows s s'" and "grows s' s''"
  shows "grows s s''"
proof -
  have "\<exists>p''. rg_publications s'' d = Some p'' \<and> (p'' = p \<or> pp_generation p < pp_generation p'') \<and>
      (rg_revoked s d \<noteq> None \<longrightarrow> p'' = p)" if p: "rg_publications s d = Some p" for d p
  proof -
    obtain p' where p': "rg_publications s' d = Some p'" "p' = p \<or> pp_generation p < pp_generation p'"
      "rg_revoked s d \<noteq> None \<longrightarrow> p' = p"
      using grows_publication [OF assms(1) p] by blast
    obtain p'' where p'': "rg_publications s'' d = Some p''" "p'' = p' \<or> pp_generation p' < pp_generation p''"
      "rg_revoked s' d \<noteq> None \<longrightarrow> p'' = p'"
      using grows_publication [OF assms(2) p'(1)] by blast
    have "rg_revoked s d \<noteq> None \<Longrightarrow> rg_revoked s' d \<noteq> None"
      using grows_revoked [OF assms(1)] by fastforce
    then show ?thesis
      using p' p'' by (auto intro: less_trans)
  qed
  then show ?thesis
    using assms unfolding grows_def by (blast intro: map_le_trans)
qed

lemma step_grows: "grows s (snd (registry_step P op s))"
proof (cases op)
  case (RegPublish expected p now)
  obtain result s' where e: "PreKeyRegistry_publish P expected p now s = (result, s')"
    by fastforce
  then have "grows s s'"
    by (cases rule: publish_cases) (auto simp: grows_def option.pred_set intro: order_less_imp_le)
  with e show ?thesis
    by (simp add: RegPublish)
next
  case (RegRevoke device generation now)
  then show ?thesis
    by (auto simp: PreKeyRegistry_revoke_def grows_def map_le_def split: option.split)
next
  case (RegClaim recipient generation key_id claimant request now)
  obtain result s' where e: "claim_opk recipient generation key_id claimant request now s = (result, s')"
    by fastforce
  then have "grows s s'"
    by (cases rule: claim_cases) (auto simp: grows_def map_le_def)
  with e show ?thesis
    by (simp add: RegClaim)
qed

lemma run_grows: "grows s (snd (run (registry_step P) ops s))"
  by (induction ops arbitrary: s) (auto intro: grows_trans [OF step_grows])

section \<open>Properties\<close>

fun granted_claim :: "registry_op \<Rightarrow> registry_answer \<Rightarrow> OpkClaim option" where
  "granted_claim op (RegClaimed (Ok c)) = Some c"
| "granted_claim op answer = None"

lemma granted_in_state:
  assumes "registry_inv P s" and "granted_claim op (fst (registry_step P op s)) = Some c"
  shows "rg_claims (snd (registry_step P op s)) (claim_key_of c) = Some c"
proof (cases op)
  case (RegClaim recipient generation key_id claimant request now)
  obtain result s' where e: "claim_opk recipient generation key_id claimant request now s = (result, s')"
    by fastforce
  then show ?thesis
  proof (cases rule: claim_cases)
    case (refused e')
    with assms(2) e show ?thesis by (simp add: RegClaim)
  next
    case (repeated c')
    then have "claim_key_of c' = \<lparr>ck_device = recipient, ck_generation = generation, ck_key_id = key_id\<rparr>"
      using assms(1) by (simp add: registry_inv_def)
    with assms(2) e repeated show ?thesis by (simp add: RegClaim)
  next
    case (fresh c' p)
    with assms(2) e show ?thesis by (auto simp: RegClaim)
  qed
qed (use assms(2) in simp_all)

lemma granted_in_final:
  "registry_inv P s \<Longrightarrow> c \<in> set (granted granted_claim ops (fst (run (registry_step P) ops s))) \<Longrightarrow>
     rg_claims (snd (run (registry_step P) ops s)) (claim_key_of c) = Some c"
proof (induction ops arbitrary: s)
  case (Cons op ops)
  let ?s = "snd (registry_step P op s)"
  show ?case
  proof (cases "granted_claim op (fst (registry_step P op s)) = Some c")
    case True
    from granted_in_state [OF Cons.prems(1) this] show ?thesis
      using grows_claim [OF run_grows] by simp
  next
    case False
    then show ?thesis
      using Cons.IH [of ?s] Cons.prems registry.step_inv [of P s op] by (auto split: option.splits)
  qed
qed simp

text \<open>
  C11. One-time prekey claims are exclusive: over any sequence of publications, revocations and
  claims, by any devices, all successful claims of the same one-time prekey of the same generation
  are one and the same claim - the same claimant, the same request, the same public key - and all
  successful claims under the same request of the same claimant are one and the same claim too. A
  repeated request is answered with the claim it got before.
\<close>

theorem claims_are_exclusive:
  "case run (registry_step P) ops PreKeyRegistry_default of
     (answers, s) \<Rightarrow> inj_on claim_key_of (set (granted granted_claim ops answers)) \<and>
       inj_on request_key_of (set (granted granted_claim ops answers))"
proof -
  let ?s = "snd (run (registry_step P) ops PreKeyRegistry_default)"
  let ?L = "set (granted granted_claim ops (fst (run (registry_step P) ops PreKeyRegistry_default)))"
  have inv: "registry_inv P ?s"
    using registry_inv_default by (rule registry.run_inv)
  have final: "rg_claims ?s (claim_key_of c) = Some c" if "c \<in> ?L" for c
    using granted_in_final [OF registry_inv_default that] .
  have "inj_on claim_key_of ?L"
    using final by (auto intro!: inj_onI) (metis option.inject)
  moreover have "inj_on request_key_of ?L"
  proof (rule inj_onI)
    fix c c'
    assume "c \<in> ?L" "c' \<in> ?L" and same: "request_key_of c = request_key_of c'"
    then have "rg_requests ?s (request_key_of c) = Some (claim_key_of c)"
      "rg_requests ?s (request_key_of c') = Some (claim_key_of c')"
      using inv_claim_request [OF inv final] by blast+
    with same final \<open>c \<in> ?L\<close> \<open>c' \<in> ?L\<close> show "c = c'"
      by (metis option.inject)
  qed
  ultimately show ?thesis
    by (simp add: case_prod_beta)
qed

text \<open>
  C24. What the registry hands out is authentic: whatever was submitted to it, an active publication
  of a device carries a valid bundle of that very device, signed together with its signed prekey
  by the identity key in it, for at most thirty days, not yet expired, of a device not revoked.
\<close>

theorem active_publication_authentic:
  "case get_active device now (snd (run (registry_step P) ops PreKeyRegistry_default)) of
     None \<Rightarrow> True
   | Some p \<Rightarrow> PreKeyBundle_validate (pp_bundle p) = Ok () \<and> pb_device_id (pp_bundle p) = device \<and>
       verify_signature P p \<and> verify_signed_prekey P (pp_bundle p) \<and> now < pp_expires_at_ms p \<and>
       unat (pp_expires_at_ms p) \<le> unat (pp_issued_at_ms p) + 2592000000 \<and>
       \<not> is_revoked device (snd (run (registry_step P) ops PreKeyRegistry_default))"
proof -
  have "registry_inv P (snd (run (registry_step P) ops PreKeyRegistry_default))"
    using registry_inv_default by (rule registry.run_inv)
  then show ?thesis
    by (auto simp: get_active_def is_revoked_def registry_inv_def publication_ok_def MAX_LIFETIME_MS_def
        bind_eq_Some_conv split: option.split if_splits)
qed

text \<open>
  C25. Revocation is permanent and generations never go back. A revocation succeeds exactly for a
  device that is not revoked yet and names the generation of its publication; otherwise it changes
  nothing. Once it has succeeded, after any further operations the device is still revoked, has no
  active publication, accepts none and grants no claim. And the publication of any device has been
  replaced, if at all, by one of a higher generation.
\<close>

theorem revocation_is_permanent:
  "let (answer, s1) = PreKeyRegistry_revoke device generation now0 s;
       s' = snd (run (registry_step P) ops s1) in
   (is_ok answer \<longleftrightarrow>
      \<not> is_revoked device s \<and> map_option pp_generation (PreKeyRegistry_get device s) = Some generation) \<and>
   (if is_ok answer \<or> is_revoked device s
    then is_revoked device s' \<and> get_active device now s' = None \<and>
      \<not> is_ok (fst (PreKeyRegistry_publish P device p now s')) \<and>
      \<not> is_ok (fst (claim_opk device gen key_id claimant request now s'))
    else s1 = s) \<and>
   (case PreKeyRegistry_get device s of
      None \<Rightarrow> True
    | Some old \<Rightarrow> \<exists>new. PreKeyRegistry_get device s' = Some new \<and>
        (new = old \<or> pp_generation old < pp_generation new))"
proof -
  obtain answer s1 where revoke: "PreKeyRegistry_revoke device generation now0 s = (answer, s1)"
    by fastforce
  let ?s = "snd (run (registry_step P) ops s1)"
  have granted: "is_ok answer \<longleftrightarrow>
      \<not> is_revoked device s \<and> map_option pp_generation (PreKeyRegistry_get device s) = Some generation"
    using revoke
    by (auto simp: PreKeyRegistry_revoke_def is_revoked_def PreKeyRegistry_get_def split: option.splits if_splits)
  have s1: "s1 = s" if "\<not> is_ok answer"
    using revoke that by (auto simp: PreKeyRegistry_revoke_def split: option.splits if_splits)
  have kept: "rg_publications s1 = rg_publications s"
    using revoke by (auto simp: PreKeyRegistry_revoke_def split: option.splits if_splits)
  have recorded: "rg_revoked s1 device \<noteq> None" if "is_ok answer \<or> is_revoked device s"
    using revoke that by (auto simp: PreKeyRegistry_revoke_def is_revoked_def split: option.splits if_splits)
  have g: "grows s1 ?s"
    by (rule run_grows)
  have revoked: "rg_revoked ?s device \<noteq> None" if "is_ok answer \<or> is_revoked device s"
    using grows_revoked [OF g] recorded [OF that] by blast
  have "\<not> is_ok (fst (PreKeyRegistry_publish P device p now ?s))" if "rg_revoked ?s device \<noteq> None"
  proof -
    obtain result s' where e: "PreKeyRegistry_publish P device p now ?s = (result, s')"
      by fastforce
    then show ?thesis
      using that e by (cases rule: publish_cases) simp_all
  qed
  then have "if is_ok answer \<or> is_revoked device s
      then is_revoked device ?s \<and> get_active device now ?s = None \<and>
        \<not> is_ok (fst (PreKeyRegistry_publish P device p now ?s)) \<and>
        \<not> is_ok (fst (claim_opk device gen key_id claimant request now ?s))
      else s1 = s"
    using revoked s1 by (auto simp: is_revoked_def get_active_def claim_opk_def)
  moreover have "case PreKeyRegistry_get device s of
      None \<Rightarrow> True
    | Some old \<Rightarrow> \<exists>new. PreKeyRegistry_get device ?s = Some new \<and>
        (new = old \<or> pp_generation old < pp_generation new)"
    using grows_publication [OF g, of device] by (auto simp: PreKeyRegistry_get_def kept split: option.split)
  ultimately show ?thesis
    unfolding revoke Let_def prod.case using granted by (intro conjI)
qed

lemma opk_eq_iff:
  "(x :: OneTimePrekeyPublic) = y \<longleftrightarrow>
     opk_key_id x = opk_key_id y \<and> opk_public_key x = opk_public_key y"
  by (cases x; cases y) simp

lemma opk_wire_inject:
  "length (ks :: OneTimePrekeyPublic list) = length ks' \<Longrightarrow>
   concat (map (\<lambda>key. u32_to_be (opk_key_id key) @ bytes (opk_public_key key)) ks) =
   concat (map (\<lambda>key. u32_to_be (opk_key_id key) @ bytes (opk_public_key key)) ks') \<Longrightarrow> ks = ks'"
  by (induction ks ks' rule: list_induct2)
    (auto simp: append_inject_length bytes_eq_iff opk_eq_iff)

text \<open>
  A publication's signature covers all of it: two publications with at most \<open>2^32 - 1\<close>
  one-time prekeys - a valid bundle has at most 1024 - have the same signed bytes only when they
  agree in everything but the signature, the list of one-time prekeys and its order included.
\<close>

theorem publication_signature_binds:
  assumes "PreKeyPublication_signing_bytes p = PreKeyPublication_signing_bytes q"
    and "length (pb_one_time_prekeys (pp_bundle p)) < 2 ^ 32"
    and "length (pb_one_time_prekeys (pp_bundle q)) < 2 ^ 32"
  shows "p\<lparr>pp_signature := pp_signature q\<rparr> = q"
proof -
  note eq = assms(1) [unfolded PreKeyPublication_signing_bytes_def Let_def]
  then have "(word_of_nat (length (pb_one_time_prekeys (pp_bundle p))) :: u32) =
      word_of_nat (length (pb_one_time_prekeys (pp_bundle q)))"
    by (simp add: append_inject_length)
  then have "length (pb_one_time_prekeys (pp_bundle p)) = length (pb_one_time_prekeys (pp_bundle q))"
    using assms(2,3) by (simp add: word_unat_eq_iff unat_of_nat)
  moreover from this eq have "pb_one_time_prekeys (pp_bundle p) = pb_one_time_prekeys (pp_bundle q)"
    by (intro opk_wire_inject) (simp_all add: append_inject_length)
  ultimately have "pp_bundle p = pp_bundle q"
    using eq by (intro PreKeyBundle.equality)
      (simp_all add: append_inject_length bytes_eq_iff ProtocolVersion.expand)
  then show ?thesis
    using eq by (cases p; cases q) (simp add: append_inject_length)
qed

text \<open>
  C35. Claims are exclusive per generation only: when a device publishes a next generation that
  still carries a one-time prekey already claimed, any device can claim that same public key again
  under the new generation, with any request it has not used.
\<close>

theorem claimed_prekey_reclaimable:
  assumes "s = snd (run (registry_step P) ops PreKeyRegistry_default)"
    and "claim_opk d g k a r now s = (Ok c, s')"
    and "PreKeyRegistry_publish P d p now' s' = (Ok (), s'')"
    and "find (\<lambda>key. opk_key_id key = k) (pb_one_time_prekeys (pp_bundle p)) = Some key"
    and "opk_public_key key = oc_public_key c"
    and "rg_requests s'' \<lparr>rk_claimant = b, rk_request_id = r'\<rparr> = None" and "r' \<noteq> fill 0"
    and "later < pp_expires_at_ms p"
  shows "fst (claim_opk d (pp_generation p) k b r' later s'') =
    Ok \<lparr>oc_request_id = r', oc_claimant_device = b, oc_recipient_device = d,
        oc_generation = pp_generation p, oc_key_id = k, oc_public_key = oc_public_key c\<rparr>"
proof -
  have "registry_inv P s"
    unfolding assms(1) using registry_inv_default by (rule registry.run_inv)
  with assms(2) have inv: "registry_inv P s'"
    by (rule claim_inv)
  show ?thesis
    using assms(3)
  proof (cases rule: publish_cases)
    case published
    have "rg_claims s' \<lparr>ck_device = d, ck_generation = pp_generation p, ck_key_id = k\<rparr> = None"
    proof (rule ccontr)
      assume "\<not> ?thesis"
      then obtain c' where "rg_claims s' \<lparr>ck_device = d, ck_generation = pp_generation p, ck_key_id = k\<rparr> = Some c'"
        by auto
      from inv_claim_generation [OF inv this] show False
        using published(5) by (auto simp: not_less [symmetric])
    qed
    then show ?thesis
      using assms(4-8) published(4) by (simp add: claim_opk_def published(6) Let_def not_le)
  qed simp
qed

section \<open>Samples\<close>

definition sample_publication :: "u64 \<Rightarrow> PreKeyPublication" where
  "sample_publication generation =
     \<lparr>pp_bundle =
        \<lparr>pb_protocol_version = ProtocolVersion PROTOCOL_VERSION, pb_device_id = fill 7,
         pb_identity_signing_key = fill 3, pb_identity_agreement_key = fill 4,
         pb_signed_prekey_id = 1, pb_signed_prekey = fill 5, pb_signed_prekey_signature = fill 1,
         pb_one_time_prekeys = [\<lparr>opk_key_id = 9, opk_public_key = fill 6\<rparr>]\<rparr>,
      pp_generation = generation, pp_issued_at_ms = 1000, pp_expires_at_ms = 2000,
      pp_signature = fill 1\<rparr>"

lemma sample_publication_valid:
  "PreKeyPublication_validate sample_primitives (fill 7) 1500 (sample_publication g) = Ok ()"
  by (simp add: PreKeyPublication_validate_def sample_publication_def PreKeyBundle_validate_def
      PROTOCOL_VERSION_def MAX_ONE_TIME_PREKEYS_def verify_signature_def verify_signed_prekey_def
      u64_saturating_add_def u64_saturating_sub_def REGISTRY_MAX_CLOCK_SKEW_MS_def MAX_LIFETIME_MS_def Let_def)

lemma sample_publication_fields [simp]:
  "pb_device_id (pp_bundle (sample_publication g)) = fill 7"
  "pp_generation (sample_publication g) = g" "pp_expires_at_ms (sample_publication g) = 2000"
  "pb_one_time_prekeys (pp_bundle (sample_publication g)) = [\<lparr>opk_key_id = 9, opk_public_key = fill 6\<rparr>]"
  by (simp_all add: sample_publication_def)

theorem claimed_prekey_reclaimable_witness:
  "\<exists>c s' s''. claim_opk (fill 7) 1 9 (fill 8) (fill 1) 1500
        (snd (run (registry_step sample_primitives) [RegPublish (fill 7) (sample_publication 1) 1500]
           PreKeyRegistry_default)) = (Ok c, s') \<and>
      PreKeyRegistry_publish sample_primitives (fill 7) (sample_publication 2) 1500 s' = (Ok (), s'') \<and>
      oc_public_key c = fill 6 \<and>
      fst (claim_opk (fill 7) 2 9 (fill 10) (fill 2) 1600 s'') =
        Ok \<lparr>oc_request_id = fill 2, oc_claimant_device = fill 10, oc_recipient_device = fill 7,
            oc_generation = 2, oc_key_id = 9, oc_public_key = fill 6\<rparr>"
proof -
  let ?s = "snd (run (registry_step sample_primitives) [RegPublish (fill 7) (sample_publication 1) 1500]
      PreKeyRegistry_default)"
  have s: "?s = PreKeyRegistry_default\<lparr>rg_publications := [fill 7 \<mapsto> sample_publication 1]\<rparr>"
    using sample_publication_valid [of 1]
    by (simp add: PreKeyRegistry_publish_def PreKeyRegistry_default_def)
  obtain c s' where c: "claim_opk (fill 7) 1 9 (fill 8) (fill 1) 1500 ?s = (Ok c, s')"
    and s': "oc_public_key c = fill 6" "rg_revoked s' = Map.empty"
      "rg_publications s' = [fill 7 \<mapsto> sample_publication 1]"
      "rg_requests s' = [\<lparr>rk_claimant = fill 8, rk_request_id = fill 1\<rparr> \<mapsto>
         \<lparr>ck_device = fill 7, ck_generation = 1, ck_key_id = 9\<rparr>]"
    unfolding s by (simp add: claim_opk_def PreKeyRegistry_default_def Let_def)
  obtain s'' where p: "PreKeyRegistry_publish sample_primitives (fill 7) (sample_publication 2) 1500 s' = (Ok (), s'')"
    and s'': "rg_requests s'' = rg_requests s'"
    using sample_publication_valid [of 2] s' by (simp add: PreKeyRegistry_publish_def word_le_nat_alt)
  show ?thesis
    using claimed_prekey_reclaimable [OF refl c p, of "\<lparr>opk_key_id = 9, opk_public_key = fill 6\<rparr>"
        "fill 10" "fill 2" 1600] c p s' s'' by auto
qed

end
