(* ===== verification/Connections.thy ===== *)
theory Connections
  imports Protocol
begin

text \<open>
  The live connections of the gateway, the \<open>ConnectionRegistry\<close> of \<open>backend/src/main.rs\<close>: which
  device has a connection, and the messages that wait for it while its backlog is sent. The bounded
  channels are those of the \<open>tokio\<close> crate; the registry names a channel by a counter and records the
  messages it has passed to \<open>try_send\<close> on its sender, in order - the code drops the result. The
  channel itself, which refuses a message when 256 wait in it, is the parameter of \<open>live_step\<close>, which
  runs the registry, the channel of one connection and the session that receives from it together.
  The registry is behind one mutex that no operation keeps across an await, so each operation is one
  step; the pending messages are passed on by the very task that receives, so that nothing is
  received in between.
\<close>

section \<open>The registry\<close>

definition LIVE_CHANNEL_CAPACITY :: usize where
  "LIVE_CHANNEL_CAPACITY = 256"

record ConnectionState =
  cs_id :: u64
  cs_sender :: nat
  cs_ready :: bool
  cs_pending :: "EncryptedMessage list"

text \<open>\<open>cr_made\<close> counts the channels made, \<open>cr_sends\<close> are the calls on their senders.\<close>

record ConnectionRegistry =
  cr_inner :: "16 arr \<Rightarrow> ConnectionState option"
  cr_next_id :: u64
  cr_made :: nat
  cr_sends :: "nat \<Rightarrow> EncryptedMessage list"

definition ConnectionRegistry_default :: ConnectionRegistry where
  "ConnectionRegistry_default =
     \<lparr>cr_inner = Map.empty, cr_next_id = 1, cr_made = 0, cr_sends = (\<lambda>_. [])\<rparr>"

definition register :: "16 arr \<Rightarrow> ConnectionRegistry \<Rightarrow> (u64 \<times> nat) \<times> ConnectionRegistry" where
  "register device r =
     (let new_id = cr_next_id r;
          channel = cr_made r;
          state = \<lparr>cs_id = new_id, cs_sender = channel, cs_ready = False, cs_pending = []\<rparr>
      in ((new_id, channel),
          r\<lparr>cr_inner := (cr_inner r)(device \<mapsto> state), cr_next_id := new_id + 1,
            cr_made := cr_made r + 1\<rparr>))"

text \<open>
  Its two accesses to what sessions share: the counter, which is an atomic of its own, and the map
  under the mutex. Others may come in between.
\<close>

definition next_connection_id :: "ConnectionRegistry \<Rightarrow> u64 \<times> ConnectionRegistry" where
  "next_connection_id r = (cr_next_id r, r\<lparr>cr_next_id := cr_next_id r + 1\<rparr>)"

definition insert_connection :: "16 arr \<Rightarrow> u64 \<Rightarrow> ConnectionRegistry \<Rightarrow> nat \<times> ConnectionRegistry" where
  "insert_connection device new_id r =
     (let channel = cr_made r;
          state = \<lparr>cs_id = new_id, cs_sender = channel, cs_ready = False, cs_pending = []\<rparr>
      in (channel, r\<lparr>cr_inner := (cr_inner r)(device \<mapsto> state), cr_made := cr_made r + 1\<rparr>))"

lemma register_split:
  "register device r =
     (case next_connection_id r of (i, r) \<Rightarrow>
      case insert_connection device i r of (c, r) \<Rightarrow> ((i, c), r))"
  by (simp add: register_def next_connection_id_def insert_connection_def Let_def)

definition unregister :: "16 arr \<Rightarrow> u64 \<Rightarrow> ConnectionRegistry \<Rightarrow> ConnectionRegistry" where
  "unregister device connection_id r =
     (if (case cr_inner r device of None \<Rightarrow> False | Some state \<Rightarrow> cs_id state = connection_id)
      then r\<lparr>cr_inner := (cr_inner r)(device := None)\<rparr>
      else r)"

text \<open>One call of \<open>try_send\<close> on a sender; \<open>live_step\<close> says what becomes of the message.\<close>

definition sender_try_send ::
  "nat \<Rightarrow> EncryptedMessage \<Rightarrow> (nat \<Rightarrow> EncryptedMessage list) \<Rightarrow> nat \<Rightarrow> EncryptedMessage list" where
  "sender_try_send sender message sends = sends(sender := sends sender @ [message])"

definition try_send :: "16 arr \<Rightarrow> EncryptedMessage \<Rightarrow> ConnectionRegistry \<Rightarrow> ConnectionRegistry" where
  "try_send device message r =
     (case cr_inner r device of
        None \<Rightarrow> r
      | Some state \<Rightarrow>
          if \<not> cs_ready state
          then (if length (cs_pending state) < LIVE_CHANNEL_CAPACITY
                then r\<lparr>cr_inner := (cr_inner r)(device \<mapsto>
                         state\<lparr>cs_pending := cs_pending state @ [message]\<rparr>)\<rparr>
                else r)
          else r\<lparr>cr_sends := sender_try_send (cs_sender state) message (cr_sends r)\<rparr>)"

text \<open>The loop of \<open>activate\<close>.\<close>

fun send_pending ::
  "nat \<Rightarrow> 16 arr set \<Rightarrow> EncryptedMessage list \<Rightarrow> (nat \<Rightarrow> EncryptedMessage list) \<Rightarrow>
     nat \<Rightarrow> EncryptedMessage list" where
  "send_pending sender delivered [] sends = sends"
| "send_pending sender delivered (message # pending) sends =
     send_pending sender delivered pending
       (if em_message_id message \<in> delivered then sends
        else sender_try_send sender message sends)"

definition activate ::
  "16 arr \<Rightarrow> u64 \<Rightarrow> 16 arr set \<Rightarrow> ConnectionRegistry \<Rightarrow> bool \<times> ConnectionRegistry" where
  "activate device connection_id delivered r =
     (case cr_inner r device of
        None \<Rightarrow> (False, r)
      | Some state \<Rightarrow>
          if cs_id state \<noteq> connection_id then (False, r)
          else (True,
                r\<lparr>cr_inner := (cr_inner r)(device \<mapsto> state\<lparr>cs_ready := True, cs_pending := []\<rparr>),
                  cr_sends := send_pending (cs_sender state) delivered (cs_pending state)
                                (cr_sends r)\<rparr>))"

section \<open>The registry as a machine\<close>

datatype connection_op =
  CRegister "16 arr"
| CNextId
| CInsert "16 arr" u64
| CUnregister "16 arr" u64
| CTrySend "16 arr" EncryptedMessage
| CActivate "16 arr" u64 "16 arr set"

datatype connection_answer = CMade u64 nat | CId u64 | CInserted nat | CActivated bool | CDone

fun connection_step :: "connection_op \<Rightarrow> ConnectionRegistry \<Rightarrow> connection_answer \<times> ConnectionRegistry" where
  "connection_step (CRegister d) r = apfst (\<lambda>(i, c). CMade i c) (register d r)"
| "connection_step CNextId r = apfst CId (next_connection_id r)"
| "connection_step (CInsert d i) r = apfst CInserted (insert_connection d i r)"
| "connection_step (CUnregister d i) r = (CDone, unregister d i r)"
| "connection_step (CTrySend d message) r = (CDone, try_send d message r)"
| "connection_step (CActivate d i delivered) r = apfst CActivated (activate d i delivered r)"

text \<open>
  A consistent registry: every connection has a channel of its own, its pending messages are
  bounded, a connection that is ready has none, and nothing was sent on channels not yet made.
\<close>

definition state_ok :: "nat \<Rightarrow> ConnectionState \<Rightarrow> bool" where
  "state_ok made state \<longleftrightarrow>
     cs_sender state < made \<and> length (cs_pending state) \<le> LIVE_CHANNEL_CAPACITY \<and>
     (cs_ready state \<longrightarrow> cs_pending state = [])"

definition connections_inv :: "ConnectionRegistry \<Rightarrow> bool" where
  "connections_inv r \<longleftrightarrow>
     (\<forall>d state. cr_inner r d = Some state \<longrightarrow> state_ok (cr_made r) state) \<and>
     (\<forall>d d' state state'. cr_inner r d = Some state \<longrightarrow> cr_inner r d' = Some state' \<longrightarrow>
        cs_sender state = cs_sender state' \<longrightarrow> d = d') \<and>
     (\<forall>c. cr_made r \<le> c \<longrightarrow> cr_sends r c = [])"

lemma connections_invD:
  assumes "connections_inv r"
  shows "cr_inner r d = Some state \<Longrightarrow> state_ok (cr_made r) state"
    and "cr_inner r d = Some state \<Longrightarrow> cr_inner r d' = Some state' \<Longrightarrow>
           cs_sender state = cs_sender state' \<Longrightarrow> d = d'"
    and "cr_made r \<le> c \<Longrightarrow> cr_sends r c = []"
  using assms unfolding connections_inv_def by blast+

lemma connections_invI:
  assumes "\<And>d state. cr_inner r d = Some state \<Longrightarrow> state_ok (cr_made r) state"
    and "\<And>d d' state state'. cr_inner r d = Some state \<Longrightarrow> cr_inner r d' = Some state' \<Longrightarrow>
           cs_sender state = cs_sender state' \<Longrightarrow> d = d'"
    and "\<And>c. cr_made r \<le> c \<Longrightarrow> cr_sends r c = []"
  shows "connections_inv r"
  using assms unfolding connections_inv_def by blast

lemma default_inv: "connections_inv ConnectionRegistry_default"
  by (rule connections_invI) (simp_all add: ConnectionRegistry_default_def)

lemma sender_fresh: "connections_inv r \<Longrightarrow> cr_inner r d = Some state \<Longrightarrow> cs_sender state < cr_made r"
  using connections_invD(1) [of r d state] by (simp add: state_ok_def)

lemma send_pending_eq:
  "send_pending c D ms sends =
     sends(c := sends c @ filter (\<lambda>m. em_message_id m \<notin> D) ms)"
  by (induction ms arbitrary: sends) (simp_all add: sender_try_send_def)

text \<open>Changes of one connection that keep its channel, and calls on the sender of a connection.\<close>

lemma state_inv:
  assumes inv: "connections_inv r" and d: "cr_inner r d = Some state"
    and state': "cs_sender state' = cs_sender state" "length (cs_pending state') \<le> LIVE_CHANNEL_CAPACITY"
      "cs_ready state' \<longrightarrow> cs_pending state' = []"
  shows "connections_inv (r\<lparr>cr_inner := (cr_inner r)(d \<mapsto> state')\<rparr>)"
proof (rule connections_invI)
  let ?r = "r\<lparr>cr_inner := (cr_inner r)(d \<mapsto> state')\<rparr>"
  fix d1 state1
  assume "cr_inner ?r d1 = Some state1"
  then show "state_ok (cr_made ?r) state1"
    using connections_invD(1) [OF inv] d state' by (auto simp: state_ok_def split: if_splits)
next
  let ?r = "r\<lparr>cr_inner := (cr_inner r)(d \<mapsto> state')\<rparr>"
  fix d1 d2 state1 state2
  assume "cr_inner ?r d1 = Some state1" "cr_inner ?r d2 = Some state2" "cs_sender state1 = cs_sender state2"
  then show "d1 = d2"
    using connections_invD(2) [OF inv] d state'(1) by (auto split: if_splits)
qed (use connections_invD(3) [OF inv] in simp)

lemma sends_inv:
  assumes "connections_inv r" and "c < cr_made r"
  shows "connections_inv (r\<lparr>cr_sends := (cr_sends r)(c := ms)\<rparr>)"
  using assms unfolding connections_inv_def by auto

lemma try_send_inv:
  assumes "connections_inv r"
  shows "connections_inv (try_send d m r)"
proof (cases "cr_inner r d")
  case None
  with assms show ?thesis by (simp add: try_send_def)
next
  case (Some state)
  then show ?thesis
    using state_inv [OF assms Some] sends_inv [OF assms sender_fresh [OF assms Some]] assms
    by (simp add: try_send_def sender_try_send_def)
qed

lemma activate_inv:
  assumes "connections_inv r"
  shows "connections_inv (snd (activate d i D r))"
proof (cases "cr_inner r d")
  case None
  with assms show ?thesis by (simp add: activate_def)
next
  case (Some state)
  let ?r = "r\<lparr>cr_inner := (cr_inner r)(d \<mapsto> state\<lparr>cs_ready := True, cs_pending := []\<rparr>)\<rparr>"
  have "connections_inv ?r"
    using assms Some by (rule state_inv) simp_all
  from sends_inv [OF this, of "cs_sender state"] sender_fresh [OF assms Some] Some assms
  show ?thesis
    by (simp add: activate_def send_pending_eq)
qed

lemma unregister_inv: "connections_inv r \<Longrightarrow> connections_inv (unregister d i r)"
  unfolding connections_inv_def unregister_def by auto

lemma register_fields [simp]:
  "cr_inner (snd (register d r)) = (cr_inner r)(d \<mapsto>
     \<lparr>cs_id = cr_next_id r, cs_sender = cr_made r, cs_ready = False, cs_pending = []\<rparr>)"
  "cr_made (snd (register d r)) = Suc (cr_made r)"
  "cr_sends (snd (register d r)) = cr_sends r"
  "fst (register d r) = (cr_next_id r, cr_made r)"
  by (simp_all add: register_def Let_def)

lemma next_id_fields [simp]:
  "cr_inner (snd (next_connection_id r)) = cr_inner r" "cr_made (snd (next_connection_id r)) = cr_made r"
  "cr_sends (snd (next_connection_id r)) = cr_sends r"
  by (simp_all add: next_connection_id_def)

lemma insert_fields [simp]:
  "cr_inner (snd (insert_connection d i r)) = (cr_inner r)(d \<mapsto>
     \<lparr>cs_id = i, cs_sender = cr_made r, cs_ready = False, cs_pending = []\<rparr>)"
  "cr_made (snd (insert_connection d i r)) = Suc (cr_made r)"
  "cr_sends (snd (insert_connection d i r)) = cr_sends r"
  "fst (insert_connection d i r) = cr_made r"
  by (simp_all add: insert_connection_def Let_def)

lemma next_id_inv: "connections_inv r \<Longrightarrow> connections_inv (snd (next_connection_id r))"
  by (simp add: connections_inv_def)

lemma insert_inv:
  assumes "connections_inv r"
  shows "connections_inv (snd (insert_connection d i r))"
proof (rule connections_invI)
  fix d1 state1
  assume "cr_inner (snd (insert_connection d i r)) d1 = Some state1"
  then show "state_ok (cr_made (snd (insert_connection d i r))) state1"
    using connections_invD(1) [OF assms, of d1 state1]
    by (auto simp: state_ok_def split: if_splits)
next
  fix d1 d2 state1 state2
  assume "cr_inner (snd (insert_connection d i r)) d1 = Some state1"
    "cr_inner (snd (insert_connection d i r)) d2 = Some state2" "cs_sender state1 = cs_sender state2"
  then show "d1 = d2"
    using connections_invD(2) [OF assms] sender_fresh [OF assms, of d1 state1]
      sender_fresh [OF assms, of d2 state2]
    by (auto split: if_splits)
next
  fix c
  assume "cr_made (snd (insert_connection d i r)) \<le> c"
  then show "cr_sends (snd (insert_connection d i r)) c = []"
    using connections_invD(3) [OF assms] by simp
qed

lemma register_inv: "connections_inv r \<Longrightarrow> connections_inv (snd (register d r))"
  by (simp add: register_split case_prod_beta insert_inv next_id_inv)

interpretation connections: machine connection_step connections_inv
proof
  fix r and op :: connection_op
  assume "connections_inv r"
  then show "connections_inv (snd (connection_step op r))"
    by (cases op) (simp_all add: register_inv next_id_inv insert_inv unregister_inv try_send_inv activate_inv)
qed

section \<open>The hand-over\<close>

fun sent_message :: "16 arr \<Rightarrow> connection_op \<Rightarrow> EncryptedMessage option" where
  "sent_message d (CTrySend d' message) = (if d' = d then Some message else None)"
| "sent_message d op = None"

definition sent_to :: "16 arr \<Rightarrow> connection_op list \<Rightarrow> EncryptedMessage list" where
  "sent_to d ops = List.map_filter (sent_message d) ops"

text \<open>
  The operations that leave a given connection to its session: everything but a new registration
  of its device and the end or activation of this very connection. Sessions of the same device that
  were replaced may still unregister and activate, under their own ids.
\<close>

fun leaves :: "16 arr \<Rightarrow> u64 \<Rightarrow> connection_op \<Rightarrow> bool" where
  "leaves d i (CRegister d') \<longleftrightarrow> d' \<noteq> d"
| "leaves d i CNextId \<longleftrightarrow> True"
| "leaves d i (CInsert d' i') \<longleftrightarrow> d' \<noteq> d"
| "leaves d i (CUnregister d' i') \<longleftrightarrow> d' \<noteq> d \<or> i' \<noteq> i"
| "leaves d i (CTrySend d' message) \<longleftrightarrow> True"
| "leaves d i (CActivate d' i' delivered) \<longleftrightarrow> d' \<noteq> d \<or> i' \<noteq> i"

definition waiting :: "16 arr \<Rightarrow> u64 \<Rightarrow> nat \<Rightarrow> EncryptedMessage list \<Rightarrow> ConnectionRegistry \<Rightarrow> bool" where
  "waiting d i c ms r \<longleftrightarrow>
     cr_inner r d = Some \<lparr>cs_id = i, cs_sender = c, cs_ready = False, cs_pending = ms\<rparr> \<and>
     cr_sends r c = []"

definition streaming :: "16 arr \<Rightarrow> u64 \<Rightarrow> nat \<Rightarrow> EncryptedMessage list \<Rightarrow> ConnectionRegistry \<Rightarrow> bool" where
  "streaming d i c ms r \<longleftrightarrow>
     cr_inner r d = Some \<lparr>cs_id = i, cs_sender = c, cs_ready = True, cs_pending = []\<rparr> \<and>
     cr_sends r c = ms"

lemma sent_to_simps [simp]:
  "sent_to d [] = []"
  "sent_to d (op # ops) = (case sent_message d op of None \<Rightarrow> sent_to d ops | Some m \<Rightarrow> m # sent_to d ops)"
  by (simp_all add: sent_to_def List.map_filter_simps split: option.split)

lemma sent_message_Some: "sent_message d op = Some m \<Longrightarrow> op = CTrySend d m"
  by (cases op) (auto split: if_splits)

text \<open>What an operation that leaves a connection alone, and does not send to it, changes of it.\<close>

lemma leaves_frame:
  assumes inv: "connections_inv r" and d: "cr_inner r d = Some state" "cs_id state = i"
    and op: "leaves d i op" "sent_message d op = None"
  shows "cr_inner (snd (connection_step op r)) d = Some state \<and>
    cr_sends (snd (connection_step op r)) (cs_sender state) = cr_sends r (cs_sender state)"
proof -
  have other: "cs_sender state \<noteq> cs_sender state'" if "cr_inner r d' = Some state'" "d' \<noteq> d" for d' state'
    using connections_invD(2) [OF inv d(1)] that by blast
  show ?thesis
    using op d
    by (cases op) (auto simp: unregister_def try_send_def activate_def send_pending_eq
        sender_try_send_def split: if_splits option.split dest: other)
qed

lemma waiting_step:
  assumes "connections_inv r" and "waiting d i c ms r" and "leaves d i op"
  shows "waiting d i c (take LIVE_CHANNEL_CAPACITY (ms @ sent_to d [op])) (snd (connection_step op r))"
proof (cases "sent_message d op")
  case None
  with leaves_frame [OF assms(1) _ _ assms(3) None] assms(2) connections_invD(1) [OF assms(1), of d] show ?thesis
    by (simp add: waiting_def state_ok_def)
next
  case (Some m)
  then show ?thesis
    using assms(2) connections_invD(1) [OF assms(1), of d]
    by (auto simp: sent_message_Some [OF Some] waiting_def try_send_def state_ok_def)
qed

lemma streaming_step:
  assumes "connections_inv r" and "streaming d i c ms r" and "leaves d i op"
  shows "streaming d i c (ms @ sent_to d [op]) (snd (connection_step op r))"
proof (cases "sent_message d op")
  case None
  with leaves_frame [OF assms(1) _ _ assms(3) None] assms(2) show ?thesis
    by (simp add: streaming_def)
next
  case (Some m)
  then show ?thesis
    using assms(2) by (simp add: sent_message_Some [OF Some] streaming_def try_send_def sender_try_send_def)
qed

lemma sent_to_Cons: "sent_to d (op # ops) = sent_to d [op] @ sent_to d ops"
  by (simp split: option.split)

lemma take_take_append: "take n (take n xs @ ys) = take n (xs @ ys)"
  by (cases "length xs \<le> n") (simp_all add: min_def)

lemma waiting_run:
  "connections_inv r \<Longrightarrow> waiting d i c (take LIVE_CHANNEL_CAPACITY ms) r \<Longrightarrow> list_all (leaves d i) ops \<Longrightarrow>
   waiting d i c (take LIVE_CHANNEL_CAPACITY (ms @ sent_to d ops)) (snd (run connection_step ops r))"
proof (induction ops arbitrary: ms r)
  case (Cons op ops)
  have "waiting d i c (take LIVE_CHANNEL_CAPACITY (ms @ sent_to d [op])) (snd (connection_step op r))"
    using waiting_step [OF Cons.prems(1,2), of op] Cons.prems(3)
    by (simp only: take_take_append list.pred_inject)
  from Cons.IH [OF connections.step_inv [OF Cons.prems(1)] this] Cons.prems(3) show ?case
    unfolding sent_to_Cons [of d op ops] by (simp del: sent_to_simps)
qed simp

lemma streaming_run:
  "connections_inv r \<Longrightarrow> streaming d i c ms r \<Longrightarrow> list_all (leaves d i) ops \<Longrightarrow>
   streaming d i c (ms @ sent_to d ops) (snd (run connection_step ops r))"
proof (induction ops arbitrary: ms r)
  case (Cons op ops)
  have "streaming d i c (ms @ sent_to d [op]) (snd (connection_step op r))"
    using streaming_step [OF Cons.prems(1,2), of op] Cons.prems(3) by simp
  from Cons.IH [OF connections.step_inv [OF Cons.prems(1)] this] Cons.prems(3) show ?case
    unfolding sent_to_Cons [of d op ops] by (simp del: sent_to_simps)
qed simp

section \<open>The channel of a connection\<close>

text \<open>
  A bounded channel of \<open>tokio::sync::mpsc\<close>: how one is made, the non-blocking send, which answers
  whether the message was taken, and the receipt, which has nothing when no message waits. What the
  crate documents of it: messages are received in the order they were sent, and a send is refused
  exactly when as many messages wait as the channel was made for.
\<close>

record 'ch mpsc =
  mp_channel :: "usize \<Rightarrow> 'ch"
  mp_try_send :: "EncryptedMessage \<Rightarrow> 'ch \<Rightarrow> bool \<times> 'ch"
  mp_recv :: "'ch \<Rightarrow> EncryptedMessage option \<times> 'ch"

definition bounded_fifo :: "'ch mpsc \<Rightarrow> ('ch \<Rightarrow> EncryptedMessage list) \<Rightarrow> ('ch \<Rightarrow> usize) \<Rightarrow> bool" where
  "bounded_fifo M contents capacity \<longleftrightarrow>
     (\<forall>n. contents (mp_channel M n) = [] \<and> capacity (mp_channel M n) = n) \<and>
     (\<forall>m ch. case mp_try_send M m ch of (taken, ch') \<Rightarrow>
        capacity ch' = capacity ch \<and> taken = (length (contents ch) < capacity ch) \<and>
        contents ch' = (if taken then contents ch @ [m] else contents ch)) \<and>
     (\<forall>ch. case mp_recv M ch of (received, ch') \<Rightarrow>
        capacity ch' = capacity ch \<and>
        contents ch = (case received of None \<Rightarrow> contents ch' | Some m \<Rightarrow> m # contents ch') \<and>
        (received = None \<longrightarrow> contents ch = []))"

text \<open>
  The registry, the channel of one of its connections while the session keeps the receiver, and what
  became of the messages: \<open>lv_taken\<close> are those the session has received, \<open>lv_refused\<close> those the full
  channel refused.
\<close>

record 'ch live =
  lv_registry :: ConnectionRegistry
  lv_channel :: 'ch
  lv_taken :: "EncryptedMessage list"
  lv_refused :: "EncryptedMessage list"

definition live_start :: "'ch mpsc \<Rightarrow> ConnectionRegistry \<Rightarrow> 'ch live" where
  "live_start M r =
     \<lparr>lv_registry = r, lv_channel = mp_channel M LIVE_CHANNEL_CAPACITY, lv_taken = [], lv_refused = []\<rparr>"

definition pass :: "'ch mpsc \<Rightarrow> EncryptedMessage \<Rightarrow> 'ch live \<Rightarrow> 'ch live" where
  "pass M m v =
     (case mp_try_send M m (lv_channel v) of (taken, ch) \<Rightarrow>
        if taken then v\<lparr>lv_channel := ch\<rparr> else v\<lparr>lv_channel := ch, lv_refused := lv_refused v @ [m]\<rparr>)"

datatype live_op = Registry connection_op | Receive
datatype live_answer = Answered connection_answer | Received "EncryptedMessage option"

text \<open>A registry operation passes on what it calls \<open>try_send\<close> with on the sender of this channel.\<close>

fun live_step :: "'ch mpsc \<Rightarrow> nat \<Rightarrow> live_op \<Rightarrow> 'ch live \<Rightarrow> live_answer \<times> 'ch live" where
  "live_step M c (Registry op) v =
     (case connection_step op (lv_registry v) of (answer, r) \<Rightarrow>
        (Answered answer,
         fold (pass M) (drop (length (cr_sends (lv_registry v) c)) (cr_sends r c)) (v\<lparr>lv_registry := r\<rparr>)))"
| "live_step M c Receive v =
     (case mp_recv M (lv_channel v) of (received, ch) \<Rightarrow>
        (Received received,
         v\<lparr>lv_channel := ch,
           lv_taken := lv_taken v @ (case received of None \<Rightarrow> [] | Some m \<Rightarrow> [m])\<rparr>))"

fun registry_op_of :: "live_op \<Rightarrow> connection_op option" where
  "registry_op_of (Registry op) = Some op"
| "registry_op_of Receive = None"

definition registry_ops :: "live_op list \<Rightarrow> connection_op list" where
  "registry_ops ops = List.map_filter registry_op_of ops"

lemma registry_ops_simps [simp]:
  "registry_ops [] = []" "registry_ops (Registry op # ops) = op # registry_ops ops"
  "registry_ops (Receive # ops) = registry_ops ops" "registry_ops (xs @ ys) = registry_ops xs @ registry_ops ys"
  by (simp_all add: registry_ops_def List.map_filter_def)

lemma pass_registry [simp]: "lv_registry (pass M m v) = lv_registry v"
  by (simp add: pass_def case_prod_beta)

lemma fold_pass_registry [simp]: "lv_registry (fold (pass M) ms v) = lv_registry v"
  by (induction ms arbitrary: v) simp_all

lemma live_registry:
  "lv_registry (snd (live_step M c (Registry op) v)) = snd (connection_step op (lv_registry v))"
  "lv_registry (snd (live_step M c Receive v)) = lv_registry v"
  by (simp_all add: case_prod_beta)

lemma live_run_registry:
  "lv_registry (snd (run (live_step M c) ops v)) = snd (run connection_step (registry_ops ops) (lv_registry v))"
proof (induction ops arbitrary: v)
  case (Cons op ops)
  show ?case
    using Cons.IH [of "snd (live_step M c op v)"]
    by (cases op) (simp_all add: live_registry del: live_step.simps)
qed simp

text \<open>A registry operation only adds to the calls on a sender.\<close>

lemma sends_grow: "\<exists>ms. cr_sends (snd (connection_step op r)) c = cr_sends r c @ ms"
  by (cases op) (auto simp: unregister_def try_send_def activate_def send_pending_eq sender_try_send_def
      split: option.split)

text \<open>
  What is known of the channel: what was received and what still waits are, with the refused
  messages, all that was passed to it, in order, and none is refused before 256 were kept.
\<close>

definition kept_of :: "('ch \<Rightarrow> EncryptedMessage list) \<Rightarrow> 'ch live \<Rightarrow> EncryptedMessage list" where
  "kept_of contents v = lv_taken v @ contents (lv_channel v)"

definition channel_ok ::
  "('ch \<Rightarrow> EncryptedMessage list) \<Rightarrow> ('ch \<Rightarrow> usize) \<Rightarrow> EncryptedMessage list \<Rightarrow> 'ch live \<Rightarrow> bool" where
  "channel_ok contents capacity passed v \<longleftrightarrow>
     passed \<in> shuffles (kept_of contents v) (lv_refused v) \<and>
     take LIVE_CHANNEL_CAPACITY passed = take LIVE_CHANNEL_CAPACITY (kept_of contents v) \<and>
     length (contents (lv_channel v)) \<le> LIVE_CHANNEL_CAPACITY \<and> capacity (lv_channel v) = LIVE_CHANNEL_CAPACITY \<and>
     (lv_refused v = [] \<or> LIVE_CHANNEL_CAPACITY \<le> length (kept_of contents v))"

lemma channel_ok_short:
  assumes "channel_ok contents capacity passed v" and "length passed \<le> LIVE_CHANNEL_CAPACITY"
  shows "lv_refused v = [] \<and> kept_of contents v = passed"
proof -
  have "length passed = length (kept_of contents v) + length (lv_refused v)"
    using assms(1) by (simp add: channel_ok_def length_shuffles)
  with assms have "lv_refused v = []"
    by (auto simp: channel_ok_def)
  with assms(1) show ?thesis
    by (simp add: channel_ok_def)
qed

lemma shuffles_snoc:
  "zs \<in> shuffles xs ys \<Longrightarrow> zs @ [z] \<in> shuffles (xs @ [z]) ys"
  "zs \<in> shuffles xs ys \<Longrightarrow> zs @ [z] \<in> shuffles xs (ys @ [z])"
proof (induction zs arbitrary: xs ys)
  case (Cons a zs)
  { case 1
    with Cons.IH(1) show ?case by (force simp: Cons_in_shuffles_iff)
  next
    case 2
    with Cons.IH(2) show ?case by (force simp: Cons_in_shuffles_iff)
  }
qed (simp_all add: Cons_in_shuffles_iff)

lemma fifo_send:
  assumes "bounded_fifo M contents capacity" and "mp_try_send M m ch = (taken, ch')"
  shows "capacity ch' = capacity ch" and "taken = (length (contents ch) < capacity ch)"
    and "contents ch' = (if taken then contents ch @ [m] else contents ch)"
proof -
  note assms(1) [unfolded bounded_fifo_def, THEN conjunct2, THEN conjunct1, THEN spec, THEN spec, of ch m]
  with assms(2) show "capacity ch' = capacity ch" "taken = (length (contents ch) < capacity ch)"
    "contents ch' = (if taken then contents ch @ [m] else contents ch)"
    by simp_all
qed

lemma fifo_recv:
  assumes "bounded_fifo M contents capacity" and "mp_recv M ch = (received, ch')"
  shows "capacity ch' = capacity ch"
    and "contents ch = (case received of None \<Rightarrow> contents ch' | Some m \<Rightarrow> m # contents ch')"
proof -
  note assms(1) [unfolded bounded_fifo_def, THEN conjunct2, THEN conjunct2, THEN spec, of ch]
  with assms(2) show "capacity ch' = capacity ch"
    "contents ch = (case received of None \<Rightarrow> contents ch' | Some m \<Rightarrow> m # contents ch')"
    by simp_all
qed

lemma pass_ok:
  assumes fifo: "bounded_fifo M contents capacity" and ok: "channel_ok contents capacity passed v"
  shows "channel_ok contents capacity (passed @ [m]) (pass M m v)"
proof -
  obtain taken ch where send: "mp_try_send M m (lv_channel v) = (taken, ch)"
    by fastforce
  note ch = fifo_send [OF fifo send]
  have len: "length (kept_of contents v) \<le> length passed"
    using ok by (auto simp: channel_ok_def dest!: length_shuffles)
  show ?thesis
  proof (cases taken)
    case True
    then have kept: "kept_of contents (pass M m v) = kept_of contents v @ [m]"
      "lv_refused (pass M m v) = lv_refused v" "lv_channel (pass M m v) = ch"
      using ch by (simp_all add: pass_def send kept_of_def)
    have "passed = kept_of contents v" if "lv_refused v = []"
      using ok that by (simp add: channel_ok_def)
    then have "take LIVE_CHANNEL_CAPACITY (passed @ [m]) = take LIVE_CHANNEL_CAPACITY (kept_of contents v @ [m])"
      using ok len by (cases "lv_refused v = []") (auto simp: channel_ok_def)
    moreover have "length (contents ch) \<le> LIVE_CHANNEL_CAPACITY"
      using ok ch True by (simp add: channel_ok_def)
    ultimately show ?thesis
      using ok ch kept by (auto simp: channel_ok_def intro: shuffles_snoc)
  next
    case False
    then have kept: "kept_of contents (pass M m v) = kept_of contents v"
      "lv_refused (pass M m v) = lv_refused v @ [m]" "lv_channel (pass M m v) = ch"
      using ch by (simp_all add: pass_def send kept_of_def)
    have "LIVE_CHANNEL_CAPACITY \<le> length (kept_of contents v)"
      using ok ch False by (simp add: channel_ok_def kept_of_def)
    then show ?thesis
      using ok ch False kept len by (auto simp: channel_ok_def intro: shuffles_snoc)
  qed
qed

lemma fold_pass_ok:
  "bounded_fifo M contents capacity \<Longrightarrow> channel_ok contents capacity passed v \<Longrightarrow>
   channel_ok contents capacity (passed @ ms) (fold (pass M) ms v)"
proof (induction ms arbitrary: passed v)
  case (Cons m ms)
  from Cons.IH [OF Cons.prems(1) pass_ok [OF Cons.prems, of m]] show ?case by simp
qed simp

lemma live_step_ok:
  fixes op :: live_op
  assumes fifo: "bounded_fifo M contents capacity"
    and ok: "channel_ok contents capacity (cr_sends (lv_registry v) c) v"
  defines "v' \<equiv> snd (live_step M c op v)"
  shows "channel_ok contents capacity (cr_sends (lv_registry v') c) v'"
proof (cases op)
  case (Registry rop)
  obtain ms where ms: "cr_sends (snd (connection_step rop (lv_registry v))) c = cr_sends (lv_registry v) c @ ms"
    using sends_grow by blast
  have "channel_ok contents capacity (cr_sends (lv_registry v) c) (v\<lparr>lv_registry := snd (connection_step rop (lv_registry v))\<rparr>)"
    using ok by (simp add: channel_ok_def kept_of_def)
  from fold_pass_ok [OF fifo this, of ms] show ?thesis
    by (simp add: v'_def Registry case_prod_beta ms)
next
  case Receive
  obtain received ch where recv: "mp_recv M (lv_channel v) = (received, ch)"
    by fastforce
  note ch = fifo_recv [OF fifo recv]
  then have "kept_of contents v' = kept_of contents v" "lv_refused v' = lv_refused v" "lv_channel v' = ch"
    by (cases received; simp add: v'_def Receive recv kept_of_def)+
  then show ?thesis
    using ok ch by (cases received) (auto simp: channel_ok_def v'_def Receive recv)
qed

lemma live_run_ok:
  "bounded_fifo M contents capacity \<Longrightarrow> channel_ok contents capacity (cr_sends (lv_registry v) c) v \<Longrightarrow>
   channel_ok contents capacity (cr_sends (lv_registry (snd (run (live_step M c) ops v))) c) (snd (run (live_step M c) ops v))"
proof (induction ops arbitrary: v)
  case (Cons op ops)
  from Cons.IH [OF Cons.prems(1) live_step_ok [OF Cons.prems, where op = op]] show ?case
    by (simp del: live_step.simps)
qed simp

section \<open>Properties\<close>

text \<open>The calls of a connection's sender, from its registration over its activation.\<close>

lemma hand_over_calls:
  fixes delivered :: "16 arr set"
  assumes "register d (snd (run connection_step before ConnectionRegistry_default)) = ((i, c), r1)"
    and "list_all (leaves d i) ops1" and "list_all (leaves d i) ops2"
  defines "r2 \<equiv> snd (run connection_step ops1 r1)"
  defines "r3 \<equiv> snd (activate d i delivered r2)"
  defines "r4 \<equiv> snd (run connection_step ops2 r3)"
  shows "fst (activate d i delivered r2)" and "cr_sends r1 c = []" and "cr_sends r2 c = []"
    and "cr_sends r4 c = filter (\<lambda>m. em_message_id m \<notin> delivered) (take 256 (sent_to d ops1)) @ sent_to d ops2"
proof -
  let ?r = "snd (run connection_step before ConnectionRegistry_default)"
  let ?q = "filter (\<lambda>m. em_message_id m \<notin> delivered) (take LIVE_CHANNEL_CAPACITY (sent_to d ops1))"
  have inv: "connections_inv ?r"
    using default_inv by (rule connections.run_inv)
  have r1: "r1 = snd (register d ?r)" and ic: "i = cr_next_id ?r" "c = cr_made ?r"
    using assms(1) by (simp_all add: prod_eq_iff)
  show empty: "cr_sends r1 c = []"
    using connections_invD(3) [OF inv] by (simp add: r1 ic)
  have inv1: "connections_inv r1"
    unfolding r1 using inv by (rule register_inv)
  have "waiting d i c (take LIVE_CHANNEL_CAPACITY []) r1"
    using empty by (simp add: waiting_def r1 ic)
  from waiting_run [OF inv1 this, of ops1]
  have w: "waiting d i c (take LIVE_CHANNEL_CAPACITY (sent_to d ops1)) r2"
    using assms(2) by (simp add: r2_def)
  then show "cr_sends r2 c = []"
    by (simp add: waiting_def)
  have inv2: "connections_inv r2"
    unfolding r2_def using inv1 by (rule connections.run_inv)
  have active: "fst (activate d i delivered r2)" and r3: "streaming d i c ?q r3"
    using w by (auto simp: r3_def waiting_def streaming_def activate_def send_pending_eq)
  show "fst (activate d i delivered r2)"
    by (rule active)
  have "connections_inv r3"
    unfolding r3_def using inv2 by (rule activate_inv)
  from streaming_run [OF this r3 assms(3)]
  show "cr_sends r4 c = filter (\<lambda>m. em_message_id m \<notin> delivered) (take 256 (sent_to d ops1)) @ sent_to d ops2"
    by (simp add: r4_def streaming_def LIVE_CHANNEL_CAPACITY_def)
qed

text \<open>
  C7. The hand-over from the backlog to the live connection, with the bounded channel in between. A
  session registers, then sends the backlog it pulled, then activates with the ids of that backlog,
  and may receive from its channel at any moment. Whatever runs in between and afterwards - other
  devices, replaced sessions of the same device, messages for this device at any moment - the
  activation succeeds, nothing is in the channel before it, and the messages offered to the channel
  are exactly the messages sent to the device, in order, with two exceptions among those sent before
  the activation: the ones whose ids are in the backlog, and those beyond the first 256, which stay
  in the relay only. Of the messages offered, what the session has received and what still waits are
  in the order sent, without repetition, and together with the refused ones are all of them. At most
  256 wait at any time, and the first 256 offered are never refused; so none is refused unless the
  session falls behind by 256 messages.
\<close>

theorem hand_over_complete:
  assumes fifo: "bounded_fifo M contents capacity"
    and "register d (snd (run connection_step before ConnectionRegistry_default)) = ((i, c), r1)"
    and "run (live_step M c) ops1 (live_start M r1) = (outs1, v2)"
    and "live_step M c (Registry (CActivate d i delivered)) v2 = (answer, v3)"
    and "run (live_step M c) ops2 v3 = (outs2, v4)"
    and "list_all (leaves d i) (registry_ops (ops1 @ ops2))"
  shows "answer = Answered (CActivated True) \<and> lv_taken v2 @ contents (lv_channel v2) @ lv_refused v2 = [] \<and>
    (let offered = filter (\<lambda>m. em_message_id m \<notin> delivered) (take 256 (sent_to d (registry_ops ops1))) @
           sent_to d (registry_ops ops2);
         kept = lv_taken v4 @ contents (lv_channel v4)
     in offered \<in> shuffles kept (lv_refused v4) \<and> take 256 offered = take 256 kept \<and>
        length (contents (lv_channel v4)) \<le> 256 \<and>
        (if length offered \<le> 256 then lv_refused v4 = [] \<and> kept = offered else True))"
proof -
  let ?r2 = "snd (run connection_step (registry_ops ops1) r1)"
  let ?r3 = "snd (activate d i delivered ?r2)"
  let ?r4 = "snd (run connection_step (registry_ops ops2) ?r3)"
  have r2: "lv_registry v2 = ?r2"
    using live_run_registry [of M c ops1 "live_start M r1"] assms(3) by (simp add: live_start_def)
  have r3: "lv_registry v3 = ?r3"
    using live_registry(1) [of M c "CActivate d i delivered" v2] assms(4) r2 by (simp del: live_step.simps)
  have r4: "lv_registry v4 = ?r4"
    using live_run_registry [of M c ops2 v3] assms(5) r3 by simp
  have leaves: "list_all (leaves d i) (registry_ops ops1)" "list_all (leaves d i) (registry_ops ops2)"
    using assms(6) by simp_all
  have calls: "fst (activate d i delivered ?r2)" "cr_sends r1 c = []" "cr_sends ?r2 c = []"
    "cr_sends ?r4 c = filter (\<lambda>m. em_message_id m \<notin> delivered) (take 256 (sent_to d (registry_ops ops1))) @
      sent_to d (registry_ops ops2)"
    by (rule hand_over_calls [OF assms(2) leaves])+
  have "channel_ok contents capacity (cr_sends (lv_registry (live_start M r1)) c) (live_start M r1)"
    using fifo calls(2) by (simp add: channel_ok_def kept_of_def live_start_def bounded_fifo_def)
  note ok2 = live_run_ok [OF fifo this, of ops1]
  note ok3 = live_step_ok [OF fifo ok2, where op = "Registry (CActivate d i delivered)"]
  note ok4 = live_run_ok [OF fifo ok3, of ops2]
  have "lv_taken v2 @ contents (lv_channel v2) @ lv_refused v2 = []"
    using ok2 assms(3) r2 calls(3) by (simp add: channel_ok_def kept_of_def)
  moreover have "answer = Answered (CActivated True)"
    using assms(4) calls(1) r2 by (auto simp: case_prod_beta)
  moreover have "channel_ok contents capacity (cr_sends ?r4 c) v4"
    using ok4 assms(3-5) r4 by (simp del: live_step.simps)
  moreover note channel_ok_short [OF this]
  ultimately show ?thesis
    unfolding calls(4) channel_ok_def kept_of_def Let_def LIVE_CHANNEL_CAPACITY_def by simp
qed

text \<open>
  Waiting for a session never grows memory: after any operations every list of pending messages
  holds at most 256 messages, a connection that is ready has none, and no two devices share a
  channel.
\<close>

theorem live_buffers_bounded:
  "let r = snd (run connection_step ops ConnectionRegistry_default)
   in (\<forall>d. pred_option (\<lambda>state. length (cs_pending state) \<le> 256 \<and>
         (if cs_ready state then cs_pending state = [] else True)) (cr_inner r d)) \<and>
      inj_on (\<lambda>d. map_option cs_sender (cr_inner r d)) (dom (cr_inner r))"
proof -
  let ?r = "snd (run connection_step ops ConnectionRegistry_default)"
  have inv: "connections_inv ?r"
    using default_inv by (rule connections.run_inv)
  have "pred_option (\<lambda>state. length (cs_pending state) \<le> 256 \<and>
      (if cs_ready state then cs_pending state = [] else True)) (cr_inner ?r d)" for d
    using connections_invD(1) [OF inv, of d]
    by (cases "cr_inner ?r d") (auto simp: state_ok_def LIVE_CHANNEL_CAPACITY_def)
  moreover have "inj_on (\<lambda>d. map_option cs_sender (cr_inner ?r d)) (dom (cr_inner ?r))"
    using connections_invD(2) [OF inv] by (intro inj_onI) auto
  ultimately show ?thesis
    by (simp add: Let_def)
qed

text \<open>
  A session that was replaced can not disturb its successor: once a device has registered again,
  unregistering or activating under the id of the earlier session changes nothing, and the new
  session has a channel of its own.
\<close>

theorem stale_session_harmless:
  assumes "register d r = ((old, c), r1)" and "register d r1 = ((new, c'), r2)"
  shows "unregister d old r2 = r2 \<and> activate d old delivered r2 = (False, r2) \<and> c \<noteq> c'"
proof -
  have r1: "r1 = snd (register d r)" "old = cr_next_id r" "c = cr_made r"
    and r2: "r2 = snd (register d r1)" "new = cr_next_id r1" "c' = cr_made r1"
    using assms by (simp_all add: prod_eq_iff)
  have "cr_next_id r1 = old + 1"
    by (simp add: r1 register_def Let_def)
  then have "cr_next_id r1 \<noteq> old"
    by simp
  then show ?thesis
    by (simp add: r1 r2 unregister_def activate_def)
qed

definition sample_live :: "u8 \<Rightarrow> EncryptedMessage" where
  "sample_live n = EncryptedMessage_new (fill n) (fill 2) (fill 3) (fill 8) [4] [5] 1"

lemma sample_live_id [simp]: "em_message_id (sample_live n) = fill n"
  by (simp add: sample_live_def EncryptedMessage_new_def)

text \<open>A channel as a list with its capacity.\<close>

definition list_mpsc :: "(nat \<times> EncryptedMessage list) mpsc" where
  "list_mpsc =
     \<lparr>mp_channel = (\<lambda>n. (n, [])),
      mp_try_send = (\<lambda>m (n, ms). if length ms < n then (True, (n, ms @ [m])) else (False, (n, ms))),
      mp_recv = (\<lambda>(n, ms). case ms of [] \<Rightarrow> (None, (n, [])) | m # ms \<Rightarrow> (Some m, (n, ms)))\<rparr>"

lemma list_mpsc_fifo: "bounded_fifo list_mpsc snd fst"
  by (auto simp: bounded_fifo_def list_mpsc_def split: list.split)

theorem hand_over_complete_witness:
  "\<exists>r1 v2 v3 v4 outs1 outs2.
     register (fill 8) ConnectionRegistry_default = ((1, 0), r1) \<and>
     run (live_step list_mpsc 0) [Registry (CTrySend (fill 8) (sample_live 1)), Registry (CTrySend (fill 8) (sample_live 2))]
       (live_start list_mpsc r1) = (outs1, v2) \<and>
     live_step list_mpsc 0 (Registry (CActivate (fill 8) 1 {fill 1})) v2 = (Answered (CActivated True), v3) \<and>
     run (live_step list_mpsc 0) [Receive, Registry (CTrySend (fill 8) (sample_live 3)), Registry (CRegister (fill 9))] v3 =
       (outs2, v4) \<and>
     lv_refused v4 = [] \<and> lv_taken v4 @ snd (lv_channel v4) = [sample_live 2, sample_live 3]"
proof -
  let ?ops1 = "[Registry (CTrySend (fill 8) (sample_live 1)), Registry (CTrySend (fill 8) (sample_live 2))]"
  let ?ops2 = "[Receive, Registry (CTrySend (fill 8) (sample_live 3)), Registry (CRegister (fill 9))]"
  obtain r1 where r1: "register (fill 8) (snd (run connection_step [] ConnectionRegistry_default)) = ((1, 0), r1)"
    by (simp add: register_def ConnectionRegistry_default_def Let_def)
  obtain outs1 v2 where v2: "run (live_step list_mpsc 0) ?ops1 (live_start list_mpsc r1) = (outs1, v2)"
    by fastforce
  obtain answer v3 where v3: "live_step list_mpsc 0 (Registry (CActivate (fill 8) 1 {fill 1})) v2 = (answer, v3)"
    by fastforce
  obtain outs2 v4 where v4: "run (live_step list_mpsc 0) ?ops2 v3 = (outs2, v4)"
    by fastforce
  have leaves: "list_all (leaves (fill 8) 1) (registry_ops (?ops1 @ ?ops2))"
    by simp
  note hand_over_complete [OF list_mpsc_fifo r1 v2 v3 v4 leaves]
  then have "answer = Answered (CActivated True) \<and> lv_refused v4 = [] \<and>
      lv_taken v4 @ snd (lv_channel v4) = [sample_live 2, sample_live 3]"
    by (simp add: Let_def)
  with r1 v2 v3 v4 show ?thesis
    by auto
qed

theorem stale_session_harmless_witness:
  "\<exists>r1 r2. register (fill 8) ConnectionRegistry_default = ((1, 0), r1) \<and>
     register (fill 8) r1 = ((2, 1), r2) \<and> unregister (fill 8) 1 r2 = r2"
proof -
  obtain r1 where r1: "register (fill 8) ConnectionRegistry_default = ((1, 0), r1)"
    and n: "cr_next_id r1 = 2" "cr_made r1 = 1"
    by (simp add: register_def ConnectionRegistry_default_def Let_def)
  obtain r2 where r2: "register (fill 8) r1 = ((2, 1), r2)"
    using n by (simp add: register_def Let_def)
  from stale_session_harmless [OF r1 r2] r1 r2 show ?thesis
    by blast
qed

end
