(* ===== verification/Gateway.thy ===== *)
theory Gateway
  imports Transport Relay Auth Registry Connections
begin

text \<open>
  The gateway's front end, \<open>backend/src/main.rs\<close>: the request handlers and the WebSocket sessions
  over the relay, the authentication state, the prekey registry and the live connections. JSON
  parsing (\<open>serde_json\<close>) is a parameter; what \<open>axum\<close> hands a handler - headers, path parameters,
  body - is its argument, and so are the clock readings. Every handler is one step; a session is
  a state machine with a step for each stretch between two awaits.
\<close>

section \<open>Status codes\<close>

datatype StatusCode =
  ACCEPTED | NO_CONTENT | BAD_REQUEST | UNAUTHORIZED | FORBIDDEN | NOT_FOUND | CONFLICT
| TOO_MANY_REQUESTS | INTERNAL_SERVER_ERROR

fun auth_status :: "AuthError \<Rightarrow> StatusCode" where
  "auth_status RateLimited = TOO_MANY_REQUESTS"
| "auth_status MissingHeader = UNAUTHORIZED"
| "auth_status InvalidAuthHeader = UNAUTHORIZED"
| "auth_status InvalidTimestamp = UNAUTHORIZED"
| "auth_status InvalidDevice = UNAUTHORIZED"
| "auth_status InvalidSignature = UNAUTHORIZED"
| "auth_status AuthReplay = UNAUTHORIZED"

fun publication_status :: "PublicationError \<Rightarrow> StatusCode" where
  "publication_status PubInvalidBundle = BAD_REQUEST"
| "publication_status PubInvalidVersion = BAD_REQUEST"
| "publication_status PubInvalidTime = BAD_REQUEST"
| "publication_status PubExpired = BAD_REQUEST"
| "publication_status TooLong = BAD_REQUEST"
| "publication_status PubInvalidSignature = BAD_REQUEST"
| "publication_status InvalidRequest = BAD_REQUEST"
| "publication_status WrongDevice = FORBIDDEN"
| "publication_status StaleGeneration = CONFLICT"
| "publication_status AlreadyClaimed = CONFLICT"
| "publication_status AlreadyRevoked = CONFLICT"
| "publication_status PubNotFound = NOT_FOUND"
| "publication_status PubPoisoned = INTERNAL_SERVER_ERROR"

section \<open>Device ids in paths\<close>

text \<open>
  A slice of a \<open>str\<close> panics unless it begins and ends at a character of the UTF-8 text, so the
  parser returns, or panics. \<open>u8::from_str_radix\<close> takes an optional plus sign.
\<close>

datatype 'a panicking = Panics | Returns 'a

definition is_char_boundary :: "u8 list \<Rightarrow> bool" where
  "is_char_boundary rest \<longleftrightarrow> (case rest of [] \<Rightarrow> True | b # _ \<Rightarrow> b < 128 \<or> 192 \<le> b)"

definition to_digit_16 :: "u8 \<Rightarrow> nat option" where
  "to_digit_16 b =
     (if 48 \<le> b \<and> b \<le> 57 then Some (unat b - 48)
      else if 97 \<le> b \<and> b \<le> 102 then Some (unat b - 97 + 10)
      else if 65 \<le> b \<and> b \<le> 70 then Some (unat b - 65 + 10)
      else None)"

fun digits_16 :: "nat \<Rightarrow> u8 list \<Rightarrow> nat option" where
  "digits_16 n [] = Some n"
| "digits_16 n (b # bs) = Option.bind (to_digit_16 b) (\<lambda>d. digits_16 (16 * n + d) bs)"

definition u8_from_str_radix_16 :: "u8 list \<Rightarrow> u8 option" where
  "u8_from_str_radix_16 src =
     (let digits = (case src of b # rest \<Rightarrow> if b = 43 \<and> rest \<noteq> [] then rest else src | [] \<Rightarrow> src) in
      if digits = [] then None
      else Option.bind (digits_16 0 digits) (\<lambda>n. if n < 256 then Some (word_of_nat n) else None))"

text \<open>The loop over the slots, on what is left of the input; its beginning is a boundary.\<close>

fun hex_slots :: "u8 list \<Rightarrow> u8 list option panicking" where
  "hex_slots (a # b # rest) =
     (if \<not> is_char_boundary rest then Panics
      else case u8_from_str_radix_16 [a, b] of
        None \<Rightarrow> Returns None
      | Some v \<Rightarrow> (case hex_slots rest of
            Panics \<Rightarrow> Panics
          | Returns out \<Rightarrow> Returns (map_option ((#) v) out)))"
| "hex_slots _ = Returns (Some [])"

definition hex_to_16 :: "string \<Rightarrow> 16 arr option panicking" where
  "hex_to_16 input =
     (if length input \<noteq> 32 then Returns None
      else case hex_slots (byte_string input) of
        Panics \<Rightarrow> Panics
      | Returns out \<Rightarrow> Returns (map_option arr out))"

section \<open>Requests\<close>

record gateway_env =
  ge_primitives :: primitives
  ge_sha256 :: sha256
  ge_json_message :: "u8 list \<Rightarrow> EncryptedMessage option"
  ge_json_publication :: "u8 list \<Rightarrow> PreKeyPublication option"
  ge_json_claim :: "u8 list \<Rightarrow> OpkClaimRequest option"

text \<open>
  A request as a handler sees it, with the readings of the wall clock during authentication and
  after it, and of the monotonic clock.
\<close>

record http_request =
  hq_headers :: header_map
  hq_body :: "u8 list"
  hq_auth_now_ms :: u64
  hq_instant :: nat
  hq_now_ms :: u64

record AppState =
  ap_relay :: RelayInner
  ap_auth :: AuthInner
  ap_connections :: ConnectionRegistry
  ap_prekeys :: RegistryState

definition AppState_default :: AppState where
  "AppState_default =
     \<lparr>ap_relay = RelayStore_default, ap_auth = AuthState_default,
      ap_connections = ConnectionRegistry_default, ap_prekeys = PreKeyRegistry_default\<rparr>"

definition bind_state ::
  "('e + 'a) \<times> 's \<Rightarrow> ('a \<Rightarrow> 's \<Rightarrow> ('e + 'b) \<times> 's) \<Rightarrow> ('e + 'b) \<times> 's" where
  "bind_state r f = (case r of (Err e, s) \<Rightarrow> (Err e, s) | (Ok v, s) \<Rightarrow> f v s)"

definition or_bad_request ::
  "'a option panicking \<Rightarrow> 's \<Rightarrow> ('a \<Rightarrow> ((StatusCode + 'b) \<times> 's) panicking) \<Rightarrow>
     ((StatusCode + 'b) \<times> 's) panicking" where
  "or_bad_request r s f =
     (case r of
        Panics \<Rightarrow> Panics
      | Returns None \<Rightarrow> Returns (Err BAD_REQUEST, s)
      | Returns (Some v) \<Rightarrow> f v)"

definition authorize ::
  "gateway_env \<Rightarrow> http_request \<Rightarrow> string \<Rightarrow> string \<Rightarrow> u8 list \<Rightarrow> AppState \<Rightarrow>
     (StatusCode + 16 arr) \<times> AppState" where
  "authorize E q method path body s =
     (case authenticate (ge_primitives E) (ge_sha256 E)
             \<lparr>aq_now_ms = hq_auth_now_ms q, aq_instant = hq_instant q, aq_headers = hq_headers q,
              aq_method = method, aq_path = path, aq_body = body\<rparr> (ap_auth s) of
        (result, auth) \<Rightarrow> (map_err auth_status result, s\<lparr>ap_auth := auth\<rparr>))"

section \<open>Handlers\<close>

definition enqueue ::
  "gateway_env \<Rightarrow> http_request \<Rightarrow> AppState \<Rightarrow> (StatusCode + StatusCode) \<times> AppState" where
  "enqueue E q s =
     bind_state (authorize E q ''POST'' ''/v1/relay'' (hq_body q) s) (\<lambda>device s.
     case ge_json_message E (hq_body q) of
       None \<Rightarrow> (Err BAD_REQUEST, s)
     | Some message \<Rightarrow>
         if em_sender_device_id message \<noteq> device then (Err FORBIDDEN, s)
         else
           let recipient = em_recipient_device_id message;
               (pushed, relay) = RelayStore_push (hq_now_ms q) message (ap_relay s);
               s = s\<lparr>ap_relay := relay\<rparr>
           in (case pushed of
                 Accepted \<Rightarrow>
                   (Ok ACCEPTED, s\<lparr>ap_connections := try_send recipient message (ap_connections s)\<rparr>)
               | Duplicate \<Rightarrow> (Ok CONFLICT, s)
               | Invalid \<Rightarrow> (Ok BAD_REQUEST, s)
               | Full \<Rightarrow> (Ok TOO_MANY_REQUESTS, s)))"

definition poll ::
  "gateway_env \<Rightarrow> http_request \<Rightarrow> string \<Rightarrow> AppState \<Rightarrow>
     ((StatusCode + EncryptedMessage list) \<times> AppState) panicking" where
  "poll E q device s =
     or_bad_request (hex_to_16 device) s (\<lambda>device_id. Returns
       (bind_state (authorize E q ''GET'' (''/v1/relay/'' @ device) [] s) (\<lambda>authenticated s.
        if authenticated \<noteq> device_id then (Err FORBIDDEN, s)
        else case RelayStore_pull (hq_now_ms q) device_id (ap_relay s) of
          (messages, relay) \<Rightarrow> (Ok messages, s\<lparr>ap_relay := relay\<rparr>))))"

definition ack ::
  "gateway_env \<Rightarrow> http_request \<Rightarrow> string \<Rightarrow> string \<Rightarrow> AppState \<Rightarrow>
     ((StatusCode + StatusCode) \<times> AppState) panicking" where
  "ack E q device message_id s =
     or_bad_request (hex_to_16 device) s (\<lambda>device_id.
     or_bad_request (hex_to_16 message_id) s (\<lambda>message_id_bytes. Returns
       (bind_state (authorize E q ''POST'' (''/v1/relay/'' @ device @ ''/'' @ message_id @ ''/ack'') [] s)
         (\<lambda>authenticated s.
          if authenticated \<noteq> device_id then (Err FORBIDDEN, s)
          else case RelayStore_ack device_id message_id_bytes (ap_relay s) of
            (removed, relay) \<Rightarrow>
              (Ok (if removed then NO_CONTENT else NOT_FOUND), s\<lparr>ap_relay := relay\<rparr>)))))"

definition publish_prekeys ::
  "gateway_env \<Rightarrow> http_request \<Rightarrow> AppState \<Rightarrow> (StatusCode + StatusCode) \<times> AppState" where
  "publish_prekeys E q s =
     bind_state (authorize E q ''POST'' ''/v1/prekeys'' (hq_body q) s) (\<lambda>authenticated s.
     case ge_json_publication E (hq_body q) of
       None \<Rightarrow> (Err BAD_REQUEST, s)
     | Some publication \<Rightarrow>
         if pb_device_id (pp_bundle publication) \<noteq> authenticated then (Err FORBIDDEN, s)
         else case PreKeyRegistry_publish (ge_primitives E) authenticated publication (hq_now_ms q)
                     (ap_prekeys s) of
           (result, prekeys) \<Rightarrow>
             (and_then (map_err publication_status result) (\<lambda>_. Ok ACCEPTED),
              s\<lparr>ap_prekeys := prekeys\<rparr>))"

definition get_prekeys ::
  "http_request \<Rightarrow> string \<Rightarrow> AppState \<Rightarrow> ((StatusCode + PreKeyPublication) \<times> AppState) panicking" where
  "get_prekeys q device s =
     or_bad_request (hex_to_16 device) s (\<lambda>device_id.
       Returns (ok_or (get_active device_id (hq_now_ms q) (ap_prekeys s)) NOT_FOUND, s))"

definition revoke_prekeys ::
  "gateway_env \<Rightarrow> http_request \<Rightarrow> string \<Rightarrow> u64 \<Rightarrow> AppState \<Rightarrow>
     ((StatusCode + StatusCode) \<times> AppState) panicking" where
  "revoke_prekeys E q device generation s =
     or_bad_request (hex_to_16 device) s (\<lambda>device_id. Returns
       (bind_state (authorize E q ''POST''
            (''/v1/prekeys/'' @ device @ ''/'' @ decimal (unat generation) @ ''/revoke'') [] s)
         (\<lambda>authenticated s.
          if authenticated \<noteq> device_id then (Err FORBIDDEN, s)
          else case PreKeyRegistry_revoke device_id generation (hq_now_ms q) (ap_prekeys s) of
            (result, prekeys) \<Rightarrow>
              (and_then (map_err publication_status result) (\<lambda>_. Ok NO_CONTENT),
               s\<lparr>ap_prekeys := prekeys\<rparr>))))"

definition claim_prekey ::
  "gateway_env \<Rightarrow> http_request \<Rightarrow> string \<Rightarrow> u64 \<Rightarrow> u32 \<Rightarrow> AppState \<Rightarrow>
     ((StatusCode + OpkClaim) \<times> AppState) panicking" where
  "claim_prekey E q recipient generation key_id s =
     or_bad_request (hex_to_16 recipient) s (\<lambda>recipient_id. Returns
       (bind_state (authorize E q ''POST''
            (''/v1/prekeys/'' @ recipient @ ''/'' @ decimal (unat generation) @ ''/'' @
             decimal (unat key_id) @ ''/claim'') (hq_body q) s)
         (\<lambda>claimant s.
          case ge_json_claim E (hq_body q) of
            None \<Rightarrow> (Err BAD_REQUEST, s)
          | Some request \<Rightarrow>
              (case claim_opk recipient_id generation key_id claimant (cr_request_id request)
                      (hq_now_ms q) (ap_prekeys s) of
                 (result, prekeys) \<Rightarrow>
                   (map_err publication_status result, s\<lparr>ap_prekeys := prekeys\<rparr>)))))"

section \<open>Sockets\<close>

text \<open>
  WebSocket messages, and a socket as the list of messages sent on it. Whether a send fails is up
  to the network: \<open>so_fails\<close> says which attempts do.
\<close>

datatype ws_message =
  WsBinary "u8 list" | WsText string | WsPing "u8 list" | WsPong "u8 list" | WsClose

record socket =
  so_sent :: "ws_message list"
  so_attempts :: nat
  so_fails :: "nat \<Rightarrow> bool"

definition WS_MAX_MESSAGE :: usize where
  "WS_MAX_MESSAGE = MAX_FRAME + 8"

text \<open>Instants are in nanoseconds, as in the authentication.\<close>

definition WS_IDLE_TIMEOUT :: nat where
  "WS_IDLE_TIMEOUT = 90 * 1000000000"

definition socket_send :: "ws_message \<Rightarrow> socket \<Rightarrow> (unit + unit) \<times> socket" where
  "socket_send m so =
     (let attempted = so\<lparr>so_attempts := so_attempts so + 1\<rparr> in
      if so_fails so (so_attempts so) then (Err (), attempted)
      else (Ok (), attempted\<lparr>so_sent := so_sent so @ [m]\<rparr>))"

definition ws_close :: "socket \<Rightarrow> socket" where
  "ws_close so = snd (socket_send WsClose so)"

definition send_frame :: "FrameKind \<Rightarrow> u8 \<Rightarrow> u8 list \<Rightarrow> socket \<Rightarrow> (unit + unit) \<times> socket" where
  "send_frame kind flags payload so =
     (case and_then (Frame_new kind flags payload) Frame_to_bytes of
        Err e \<Rightarrow> (Err (), so)
      | Ok bs \<Rightarrow> socket_send (WsBinary bs) so)"

definition send_hello :: "16 arr \<Rightarrow> socket \<Rightarrow> (unit + unit) \<times> socket" where
  "send_hello device so = send_frame ClientHello 1 (bytes device) so"

definition send_encrypted :: "EncryptedMessage \<Rightarrow> socket \<Rightarrow> (unit + unit) \<times> socket" where
  "send_encrypted message so =
     (case EncryptedMessage_encode message of
        Err e \<Rightarrow> (Err (), so)
      | Ok payload \<Rightarrow> send_frame EncryptedMessageFrame 0 payload so)"

text \<open>The checks of the first message; there is none after a timeout or on a broken connection.\<close>

definition ws_accepts_hello :: "16 arr \<Rightarrow> ws_message option \<Rightarrow> bool" where
  "ws_accepts_hello device first \<longleftrightarrow>
     (case first of
        Some (WsBinary bs) \<Rightarrow>
          \<not> WS_MAX_MESSAGE < length bs \<and>
          (case Frame_from_bytes bs of
             Err e \<Rightarrow> False
           | Ok frame \<Rightarrow>
               (case Frame_kind frame of
                  Err e \<Rightarrow> False
                | Ok kind \<Rightarrow> kind = ClientHello \<and> fr_payload frame = bytes device))
      | _ \<Rightarrow> False)"

text \<open>
  One message of an authenticated device. The result says whether the session goes on (\<open>Ok True\<close>),
  ends (\<open>Ok False\<close>) or fails.
\<close>

definition handle_frame ::
  "u64 \<Rightarrow> FrameKind \<Rightarrow> u8 list \<Rightarrow> 16 arr \<Rightarrow> socket \<times> AppState \<Rightarrow> (unit + bool) \<times> socket \<times> AppState" where
  "handle_frame now kind payload device w =
     (case w of (so, s) \<Rightarrow>
      (case kind of
         Ping \<Rightarrow> (case send_frame Pong 0 payload so of
             (Err e, so) \<Rightarrow> (Err (), so, s)
           | (Ok _, so) \<Rightarrow> (Ok True, so, s))
       | Pong \<Rightarrow> (Ok True, so, s)
       | EncryptedMessageFrame \<Rightarrow>
           (case EncryptedMessage_decode payload of
              Err e \<Rightarrow> (Err (), so, s)
            | Ok message \<Rightarrow>
                if em_sender_device_id message \<noteq> device then (Err (), ws_close so, s)
                else
                  let recipient = em_recipient_device_id message;
                      (pushed, relay) = RelayStore_push now message (ap_relay s);
                      s = s\<lparr>ap_relay := relay\<rparr>
                  in (case pushed of
                        Accepted \<Rightarrow>
                          (Ok True, so,
                           s\<lparr>ap_connections := try_send recipient message (ap_connections s)\<rparr>)
                      | Duplicate \<Rightarrow> (Ok True, so, s)
                      | _ \<Rightarrow> (Err (), ws_close so, s)))
       | MessageAck \<Rightarrow>
           (case decode_message_ack payload of
              Err e \<Rightarrow> (Err (), so, s)
            | Ok message_id \<Rightarrow>
                (Ok True, so,
                 s\<lparr>ap_relay := snd (RelayStore_ack device message_id (ap_relay s))\<rparr>))
       | _ \<Rightarrow> (Err (), ws_close so, s)))"

definition handle_authenticated_message ::
  "u64 \<Rightarrow> ws_message \<Rightarrow> 16 arr \<Rightarrow> socket \<times> AppState \<Rightarrow> (unit + bool) \<times> socket \<times> AppState" where
  "handle_authenticated_message now message device w =
     (case w of (so, s) \<Rightarrow>
      (case message of
         WsBinary bs \<Rightarrow>
           if WS_MAX_MESSAGE < length bs then (Err (), ws_close so, s)
           else (case Frame_from_bytes bs of
               Err e \<Rightarrow> (Err (), so, s)
             | Ok frame \<Rightarrow>
                 (case Frame_kind frame of
                    Err e \<Rightarrow> (Err (), so, s)
                  | Ok kind \<Rightarrow> handle_frame now kind (fr_payload frame) device (so, s)))
       | WsPing bs \<Rightarrow>
           (case socket_send (WsPong bs) so of
              (Err e, so) \<Rightarrow> (Err (), so, s)
            | (Ok _, so) \<Rightarrow> (Ok True, so, s))
       | WsPong bs \<Rightarrow> (Ok True, so, s)
       | _ \<Rightarrow> (Ok False, so, s)))"

section \<open>Sessions\<close>

text \<open>
  \<open>websocket_session\<close> as a state machine. The phases are the places where it waits: for the first
  message, then between registering, greeting, pulling the backlog, sending it, and finally in the
  select loop, which remembers the last activity. What its receiver yields is an input: a message,
  or none when the channel is closed.
\<close>

datatype ws_phase =
  AwaitHello
| Registered u64 nat
| Greeted u64 nat
| SendingBacklog u64 nat "16 arr set" "EncryptedMessage list"
| Live u64 nat nat
| Ended

record ws_session =
  ss_device :: "16 arr"
  ss_socket :: socket
  ss_phase :: ws_phase

datatype session_event =
  FirstMessage "ws_message option"
| Greet
| PullBacklog u64
| SendNext nat
| IdleTimeout nat
| Inbound "ws_message option" u64 nat
| Outbound "EncryptedMessage option"

text \<open>The end of a session: with its connection unregistered, or already replaced by another.\<close>

definition session_end ::
  "bool \<Rightarrow> u64 \<Rightarrow> ws_session \<times> AppState \<Rightarrow> ws_session \<times> AppState" where
  "session_end unregisters connection_id w =
     (case w of (session, s) \<Rightarrow>
      (session\<lparr>ss_phase := Ended\<rparr>,
       if unregisters
       then s\<lparr>ap_connections := unregister (ss_device session) connection_id (ap_connections s)\<rparr>
       else s))"

text \<open>Going on after a send, or ending because it failed.\<close>

definition or_end ::
  "(unit + unit) \<times> socket \<Rightarrow> u64 \<Rightarrow> ws_phase \<Rightarrow> ws_session \<times> AppState \<Rightarrow> ws_session \<times> AppState" where
  "or_end result connection_id phase w =
     (case w of (session, s) \<Rightarrow>
      let session = session\<lparr>ss_socket := snd result\<rparr> in
      if is_ok (fst result) then (session\<lparr>ss_phase := phase\<rparr>, s)
      else session_end True connection_id (session, s))"

definition select_inbound ::
  "u64 \<Rightarrow> nat \<Rightarrow> ws_message option \<Rightarrow> u64 \<Rightarrow> nat \<Rightarrow> ws_session \<times> AppState \<Rightarrow> ws_session \<times> AppState" where
  "select_inbound connection_id outbound inbound now instant w =
     (case inbound of
        None \<Rightarrow> session_end True connection_id w
      | Some message \<Rightarrow>
          (case w of (session, s) \<Rightarrow>
           case handle_authenticated_message now message (ss_device session) (ss_socket session, s) of
             (result, so, s) \<Rightarrow>
               let session = session\<lparr>ss_socket := so\<rparr> in
               if result = Ok True
               then (session\<lparr>ss_phase := Live connection_id outbound instant\<rparr>, s)
               else session_end True connection_id (session, s)))"

definition select_outbound ::
  "u64 \<Rightarrow> nat \<Rightarrow> EncryptedMessage option \<Rightarrow> nat \<Rightarrow> ws_session \<times> AppState \<Rightarrow> ws_session \<times> AppState" where
  "select_outbound connection_id outbound received last_activity w =
     (case received of
        None \<Rightarrow> session_end True connection_id w
      | Some message \<Rightarrow>
          or_end (send_encrypted message (ss_socket (fst w))) connection_id
            (Live connection_id outbound last_activity) w)"

fun session_step :: "session_event \<Rightarrow> ws_session \<times> AppState \<Rightarrow> ws_session \<times> AppState" where
  "session_step event (session, s) =
     (case (ss_phase session, event) of
        (AwaitHello, FirstMessage first) \<Rightarrow>
          if \<not> ws_accepts_hello (ss_device session) first
          then (session\<lparr>ss_socket := ws_close (ss_socket session), ss_phase := Ended\<rparr>, s)
          else (case register (ss_device session) (ap_connections s) of
            ((connection_id, outbound), conns) \<Rightarrow>
              (session\<lparr>ss_phase := Registered connection_id outbound\<rparr>, s\<lparr>ap_connections := conns\<rparr>))
      | (Registered connection_id outbound, Greet) \<Rightarrow>
          or_end (send_hello (ss_device session) (ss_socket session)) connection_id
            (Greeted connection_id outbound) (session, s)
      | (Greeted connection_id outbound, PullBacklog now) \<Rightarrow>
          (case RelayStore_pull now (ss_device session) (ap_relay s) of
             (backlog, relay) \<Rightarrow>
               (session\<lparr>ss_phase := SendingBacklog connection_id outbound
                          (em_message_id ` set backlog) backlog\<rparr>,
                s\<lparr>ap_relay := relay\<rparr>))
      | (SendingBacklog connection_id outbound delivered_ids (message # backlog), SendNext instant) \<Rightarrow>
          or_end (send_encrypted message (ss_socket session)) connection_id
            (SendingBacklog connection_id outbound delivered_ids backlog) (session, s)
      | (SendingBacklog connection_id outbound delivered_ids [], SendNext instant) \<Rightarrow>
          (case activate (ss_device session) connection_id delivered_ids (ap_connections s) of
             (active, conns) \<Rightarrow>
               if \<not> active
               then session_end False connection_id (session, s\<lparr>ap_connections := conns\<rparr>)
               else (session\<lparr>ss_phase := Live connection_id outbound instant\<rparr>,
                     s\<lparr>ap_connections := conns\<rparr>))
      | (Live connection_id outbound last_activity, IdleTimeout instant) \<Rightarrow>
          if instant < last_activity + WS_IDLE_TIMEOUT then (session, s)
          else session_end True connection_id
            (session\<lparr>ss_socket := ws_close (ss_socket session)\<rparr>, s)
      | (Live connection_id outbound last_activity, Inbound inbound now instant) \<Rightarrow>
          select_inbound connection_id outbound inbound now instant (session, s)
      | (Live connection_id outbound last_activity, Outbound received) \<Rightarrow>
          select_outbound connection_id outbound received last_activity (session, s)
      | _ \<Rightarrow> (session, s))"

text \<open>\<open>websocket\<close>: the upgrade of an authenticated request starts a session for its device.\<close>

definition websocket ::
  "gateway_env \<Rightarrow> http_request \<Rightarrow> socket \<Rightarrow> AppState \<Rightarrow> (StatusCode + ws_session) \<times> AppState" where
  "websocket E q so s =
     bind_state (authorize E q ''GET'' ''/v1/ws'' [] s) (\<lambda>device s.
       (Ok \<lparr>ss_device = device, ss_socket = so, ss_phase = AwaitHello\<rparr>, s))"

section \<open>Start-up\<close>

text \<open>
  What \<open>main\<close> decides before it listens: the address - parsing it is the standard library's, a
  parameter - and that production without TLS in front has to be allowed explicitly. \<open>env\<close> are the
  environment variables that are set to Unicode text; a start that is refused panics.
\<close>

definition to_ascii_lowercase :: "u8 \<Rightarrow> u8" where
  "to_ascii_lowercase b = (if 65 \<le> b \<and> b \<le> 90 then b + 32 else b)"

definition eq_ignore_ascii_case :: "string \<Rightarrow> string \<Rightarrow> bool" where
  "eq_ignore_ascii_case v w \<longleftrightarrow>
     map to_ascii_lowercase (byte_string v) = map to_ascii_lowercase (byte_string w)"

definition gateway_main ::
  "(string \<Rightarrow> 'addr option) \<Rightarrow> (string \<Rightarrow> string option) \<Rightarrow> (AppState \<times> 'addr) panicking" where
  "gateway_main parse_addr env =
     (let state = AppState_default;
          bound = (case env ''NEXA_BIND'' of None \<Rightarrow> ''127.0.0.1:8787'' | Some v \<Rightarrow> v)
      in case parse_addr bound of
           None \<Rightarrow> Panics
         | Some addr \<Rightarrow>
             let production = (case env ''NEXA_ENV'' of
                                 None \<Rightarrow> False | Some v \<Rightarrow> eq_ignore_ascii_case v ''production'');
                 insecure_allowed = (case env ''NEXA_ALLOW_INSECURE_HTTP'' of
                                       None \<Rightarrow> False | Some v \<Rightarrow> v = ''true'')
             in if production \<and> \<not> insecure_allowed then Panics else Returns (state, addr))"

lemma production_needs_permission:
  "gateway_main parse_addr env = Returns (s, addr) \<Longrightarrow> env ''NEXA_ENV'' = Some v \<Longrightarrow>
   eq_ignore_ascii_case v ''production'' \<Longrightarrow> env ''NEXA_ALLOW_INSECURE_HTTP'' = Some ''true''"
  by (auto simp: gateway_main_def Let_def split: option.splits if_splits)

lemma production_spelling:
  "eq_ignore_ascii_case ''Production'' ''production'' \<and> \<not> eq_ignore_ascii_case ''prod'' ''production''"
  by (simp add: eq_ignore_ascii_case_def byte_string_def to_ascii_lowercase_def)

section \<open>Parsing of path ids\<close>

definition hex_digit :: "nat \<Rightarrow> u8" where
  "hex_digit n = word_of_nat (if n < 10 then 48 + n else 87 + n)"

text \<open>The text clients put in a path: two lower-case digits per byte.\<close>

definition hex_byte :: "u8 \<Rightarrow> u8 list" where
  "hex_byte b = [hex_digit (unat b div 16), hex_digit (unat b mod 16)]"

definition char_of_byte :: "u8 \<Rightarrow> char" where
  "char_of_byte b = char_of (unat b)"

definition hex_text :: "16 arr \<Rightarrow> string" where
  "hex_text d = map char_of_byte (concat (map hex_byte (bytes d)))"

lemma hex_digits_read:
  "list_all (\<lambda>n. to_digit_16 (hex_digit n) = Some n \<and> hex_digit n < 128 \<and> hex_digit n \<noteq> 43) [0..<16]"
  by (simp add: upt_rec to_digit_16_def hex_digit_def)

lemma hex_digit_read:
  "n < 16 \<Longrightarrow> to_digit_16 (hex_digit n) = Some n \<and> hex_digit n < 128 \<and> hex_digit n \<noteq> 43"
  using hex_digits_read by (auto simp: list_all_iff)

lemma hex_byte_read: "u8_from_str_radix_16 (hex_byte b) = Some b"
proof -
  have "unat b < 256"
    using unat_bound [of b] by simp
  then have "unat b div 16 < 16"
    by (simp add: less_mult_imp_div_less)
  then show ?thesis
    using hex_digit_read [of "unat b div 16"] hex_digit_read [of "unat b mod 16"] \<open>unat b < 256\<close>
    by (simp add: u8_from_str_radix_16_def hex_byte_def)
qed

lemma hex_slots_hex: "hex_slots (concat (map hex_byte bs)) = Returns (Some bs)"
proof (induction bs)
  case (Cons b bs)
  have "hd (hex_byte b') < 128" for b'
    using unat_bound [of b'] hex_digit_read [of "unat b' div 16"]
    by (simp add: hex_byte_def less_mult_imp_div_less)
  then have "is_char_boundary (concat (map hex_byte bs))"
    by (cases bs) (simp_all add: is_char_boundary_def hex_byte_def)
  moreover have "concat (map hex_byte (b # bs)) =
      hex_digit (unat b div 16) # hex_digit (unat b mod 16) # concat (map hex_byte bs)"
    by (simp add: hex_byte_def)
  ultimately show ?case
    using Cons.IH hex_byte_read [of b] by (simp add: hex_byte_def [of b] del: concat.simps list.map)
qed simp

lemma byte_string_char_of: "byte_string (map char_of_byte bs) = bs"
proof -
  have "(of_char (char_of_byte b) :: u8) = b" for b
  proof -
    have "(of_char (char_of_byte b) :: u8) = word_of_nat (of_char (char_of_byte b))"
      by (rule of_nat_of_char [symmetric])
    also have "\<dots> = b"
      using unat_bound [of b] by (simp add: char_of_byte_def)
    finally show ?thesis .
  qed
  then show ?thesis
    by (induction bs) (simp_all add: byte_string_def)
qed

lemma ascii_slots: "list_all (\<lambda>b. b < 128) bs \<Longrightarrow> hex_slots bs \<noteq> Panics"
proof (induction bs rule: hex_slots.induct)
  case (1 a b rest)
  then have "is_char_boundary rest"
    by (cases rest) (simp_all add: is_char_boundary_def)
  with 1 show ?case
    by (cases "u8_from_str_radix_16 [a, b]") (auto split: panicking.split)
qed simp_all

text \<open>
  C33. Path ids. The text of a device id is read back as this id, and ASCII text never panics. But the
  parser slices a \<open>str\<close> by bytes before anything has been authenticated: 32 bytes with a character
  of two bytes across a slice panic. And it takes \<open>+\<close> for a leading sign, so an id has more than one
  spelling in paths.
\<close>

theorem path_id_parsing:
  "hex_to_16 (hex_text d) = Returns (Some d) \<and>
   (if list_all (\<lambda>b. b < 128) (byte_string input) then hex_to_16 input \<noteq> Panics else True) \<and>
   hex_to_16 (map char_of_byte ([97, 195, 169 :: u8] @ replicate 29 97)) = Panics \<and>
   hex_to_16 (concat (replicate 16 ''+f'')) = Returns (Some (fill 15))"
proof (intro conjI)
  have "length (concat (map hex_byte bs)) = 2 * length bs" for bs
    by (induction bs) (simp_all add: hex_byte_def)
  then show "hex_to_16 (hex_text d) = Returns (Some d)"
    by (simp add: hex_to_16_def hex_text_def byte_string_char_of hex_slots_hex)
  show "if list_all (\<lambda>b. b < 128) (byte_string input) then hex_to_16 input \<noteq> Panics else True"
    using ascii_slots [of "byte_string input"] by (auto simp: hex_to_16_def split: panicking.split)
  show "hex_to_16 (map char_of_byte ([97, 195, 169 :: u8] @ replicate 29 97)) = Panics"
    by (simp add: hex_to_16_def byte_string_char_of is_char_boundary_def del: list.map)
  have signed: "hex_slots (concat (replicate n [43, 102])) = Returns (Some (replicate n 15))" for n
  proof (induction n)
    case (Suc n)
    have "is_char_boundary (concat (replicate n [43, 102 :: u8]))"
      by (cases n) (simp_all add: is_char_boundary_def)
    moreover have "u8_from_str_radix_16 [43, 102] = Some 15"
      by (simp add: u8_from_str_radix_16_def to_digit_16_def)
    ultimately show ?case
      using Suc by simp
  qed simp
  have "byte_string (concat (replicate 16 ''+f'')) = concat (replicate 16 [43, 102])"
    by (simp add: byte_string_def numeral_eq_Suc)
  moreover have "length (concat (replicate 16 ''+f'')) = 32"
    by (simp add: numeral_eq_Suc)
  moreover have "arr (replicate 16 15) = (fill 15 :: 16 arr)"
    using arr_replicate [of 15, where 'n = 16] by simp
  ultimately show "hex_to_16 (concat (replicate 16 ''+f'')) = Returns (Some (fill 15))"
    by (simp add: hex_to_16_def signed)
qed

end
