(* ===== verification/Service.thy ===== *)
theory Service
  imports Gateway
begin

text \<open>
  The gateway as a whole: its handlers and sessions as one machine over the shared state, the
  device each operation acts for, and what follows for the messages it stores and delivers.
\<close>

section \<open>The machine\<close>

record gateway =
  gw_app :: AppState
  gw_sessions :: "ws_session list"

definition gateway_start :: gateway where
  "gateway_start = \<lparr>gw_app = AppState_default, gw_sessions = []\<rparr>"

datatype gateway_op =
  OpEnqueue http_request
| OpPoll http_request string
| OpAck http_request string string
| OpPublish http_request
| OpGetPrekeys http_request string
| OpRevoke http_request string u64
| OpClaim http_request string u64 u32
| OpUpgrade http_request "nat \<Rightarrow> bool"
| OpSession nat session_event

datatype gateway_answer =
  AnsStatus "StatusCode + StatusCode"
| AnsMessages "StatusCode + EncryptedMessage list"
| AnsPublication "StatusCode + PreKeyPublication"
| AnsClaim "StatusCode + OpkClaim"
| AnsUpgrade "StatusCode + nat"
| AnsSession
| AnsPanic

text \<open>A handler that panics ends its own request and leaves the rest of the gateway running.\<close>

definition answered ::
  "('a \<Rightarrow> gateway_answer) \<Rightarrow> ('a \<times> AppState) panicking \<Rightarrow> gateway \<Rightarrow> gateway_answer \<times> gateway" where
  "answered answer r g =
     (case r of
        Panics \<Rightarrow> (AnsPanic, g)
      | Returns (v, s) \<Rightarrow> (answer v, g\<lparr>gw_app := s\<rparr>))"

fun gateway_step :: "gateway_env \<Rightarrow> gateway_op \<Rightarrow> gateway \<Rightarrow> gateway_answer \<times> gateway" where
  "gateway_step E (OpEnqueue q) g = answered AnsStatus (Returns (enqueue E q (gw_app g))) g"
| "gateway_step E (OpPoll q device) g = answered AnsMessages (poll E q device (gw_app g)) g"
| "gateway_step E (OpAck q device message_id) g =
     answered AnsStatus (ack E q device message_id (gw_app g)) g"
| "gateway_step E (OpPublish q) g = answered AnsStatus (Returns (publish_prekeys E q (gw_app g))) g"
| "gateway_step E (OpGetPrekeys q device) g =
     answered AnsPublication (get_prekeys q device (gw_app g)) g"
| "gateway_step E (OpRevoke q device generation) g =
     answered AnsStatus (revoke_prekeys E q device generation (gw_app g)) g"
| "gateway_step E (OpClaim q recipient generation key_id) g =
     answered AnsClaim (claim_prekey E q recipient generation key_id (gw_app g)) g"
| "gateway_step E (OpUpgrade q fails) g =
     (case websocket E q \<lparr>so_sent = [], so_attempts = 0, so_fails = fails\<rparr> (gw_app g) of
        (Err e, s) \<Rightarrow> (AnsUpgrade (Err e), g\<lparr>gw_app := s\<rparr>)
      | (Ok session, s) \<Rightarrow>
          (AnsUpgrade (Ok (length (gw_sessions g))),
           g\<lparr>gw_app := s, gw_sessions := gw_sessions g @ [session]\<rparr>))"
| "gateway_step E (OpSession n event) g =
     (if length (gw_sessions g) \<le> n then (AnsSession, g)
      else case session_step event (gw_sessions g ! n, gw_app g) of
        (session, s) \<Rightarrow>
          (AnsSession, g\<lparr>gw_app := s, gw_sessions := (gw_sessions g)[n := session]\<rparr>))"

section \<open>Whom an operation acts for\<close>

text \<open>What an operation has to prove: method, path and body of its request.\<close>

fun op_request :: "gateway_op \<Rightarrow> (http_request \<times> string \<times> string \<times> u8 list) option" where
  "op_request (OpEnqueue q) = Some (q, ''POST'', ''/v1/relay'', hq_body q)"
| "op_request (OpPoll q device) = Some (q, ''GET'', ''/v1/relay/'' @ device, [])"
| "op_request (OpAck q device message_id) =
     Some (q, ''POST'', ''/v1/relay/'' @ device @ ''/'' @ message_id @ ''/ack'', [])"
| "op_request (OpPublish q) = Some (q, ''POST'', ''/v1/prekeys'', hq_body q)"
| "op_request (OpGetPrekeys q device) = None"
| "op_request (OpRevoke q device generation) =
     Some (q, ''POST'', ''/v1/prekeys/'' @ device @ ''/'' @ decimal (unat generation) @ ''/revoke'', [])"
| "op_request (OpClaim q recipient generation key_id) =
     Some (q, ''POST'', ''/v1/prekeys/'' @ recipient @ ''/'' @ decimal (unat generation) @ ''/'' @
       decimal (unat key_id) @ ''/claim'', hq_body q)"
| "op_request (OpUpgrade q fails) = Some (q, ''GET'', ''/v1/ws'', [])"
| "op_request (OpSession n event) = None"

text \<open>
  The device an operation acts for: the one its request authenticates as, or the one whose session
  it is.
\<close>

definition actor :: "gateway_env \<Rightarrow> gateway_op \<Rightarrow> gateway \<Rightarrow> 16 arr option" where
  "actor E op g =
     (case op of
        OpSession n event \<Rightarrow>
          if n < length (gw_sessions g) then Some (ss_device (gw_sessions g ! n)) else None
      | _ \<Rightarrow>
          (case op_request op of
             None \<Rightarrow> None
           | Some (q, method, path, body) \<Rightarrow>
               (case fst (authorize E q method path body (gw_app g)) of
                  Err e \<Rightarrow> None
                | Ok device \<Rightarrow> Some device)))"

text \<open>
  The operation of the relay that an operation of the gateway comes down to, if any, and the
  message it stored, if any.
\<close>

definition frame_op :: "u64 \<Rightarrow> FrameKind \<Rightarrow> u8 list \<Rightarrow> 16 arr \<Rightarrow> relay_op option" where
  "frame_op now kind payload device =
     (case kind of
        EncryptedMessageFrame \<Rightarrow>
          (case EncryptedMessage_decode payload of
             Err e \<Rightarrow> None
           | Ok message \<Rightarrow>
               if em_sender_device_id message = device then Some (RPush now message) else None)
      | MessageAck \<Rightarrow>
          (case decode_message_ack payload of
             Err e \<Rightarrow> None
           | Ok message_id \<Rightarrow> Some (RAck device message_id))
      | _ \<Rightarrow> None)"

definition message_op :: "u64 \<Rightarrow> ws_message \<Rightarrow> 16 arr \<Rightarrow> relay_op option" where
  "message_op now message device =
     (case message of
        WsBinary bs \<Rightarrow>
          if WS_MAX_MESSAGE < length bs then None
          else (case and_then (Frame_from_bytes bs)
                       (\<lambda>f. and_then (Frame_kind f) (\<lambda>kind. Ok (kind, fr_payload f))) of
              Err e \<Rightarrow> None
            | Ok (kind, payload) \<Rightarrow> frame_op now kind payload device)
      | _ \<Rightarrow> None)"

fun phase_op :: "16 arr \<Rightarrow> ws_phase \<Rightarrow> session_event \<Rightarrow> relay_op option" where
  "phase_op device (Greeted i c) (PullBacklog now) = Some (RPull now device)"
| "phase_op device (Live i c t) (Inbound (Some message) now instant) = message_op now message device"
| "phase_op device phase event = None"

definition if_device :: "'e + 16 arr \<Rightarrow> 16 arr \<Rightarrow> relay_op \<Rightarrow> relay_op option" where
  "if_device who d rop = (if who = Ok d then Some rop else None)"

fun relay_op_of :: "gateway_env \<Rightarrow> gateway_op \<Rightarrow> gateway \<Rightarrow> relay_op option" where
  "relay_op_of E (OpEnqueue q) g =
     Option.bind (ge_json_message E (hq_body q)) (\<lambda>message.
       if_device (fst (authorize E q ''POST'' ''/v1/relay'' (hq_body q) (gw_app g)))
         (em_sender_device_id message) (RPush (hq_now_ms q) message))"
| "relay_op_of E (OpPoll q device) g =
     (case hex_to_16 device of
        Returns (Some device_id) \<Rightarrow>
          if_device (fst (authorize E q ''GET'' (''/v1/relay/'' @ device) [] (gw_app g)))
            device_id (RPull (hq_now_ms q) device_id)
      | _ \<Rightarrow> None)"
| "relay_op_of E (OpAck q device message_id) g =
     (case (hex_to_16 device, hex_to_16 message_id) of
        (Returns (Some device_id), Returns (Some i)) \<Rightarrow>
          if_device (fst (authorize E q ''POST''
              (''/v1/relay/'' @ device @ ''/'' @ message_id @ ''/ack'') [] (gw_app g)))
            device_id (RAck device_id i)
      | _ \<Rightarrow> None)"
| "relay_op_of E (OpSession n event) g =
     (if n < length (gw_sessions g)
      then phase_op (ss_device (gw_sessions g ! n)) (ss_phase (gw_sessions g ! n)) event else None)"
| "relay_op_of E op g = None"

definition accepted_by :: "gateway_env \<Rightarrow> gateway_op \<Rightarrow> gateway \<Rightarrow> EncryptedMessage option" where
  "accepted_by E op g =
     Option.bind (relay_op_of E op g) (\<lambda>rop.
       accepted_message rop (fst (relay_step rop (ap_relay (gw_app g)))))"

fun relay_by :: "16 arr \<Rightarrow> relay_op \<Rightarrow> bool" where
  "relay_by d (RPush now message) \<longleftrightarrow> em_sender_device_id message = d"
| "relay_by d (RPull now d') \<longleftrightarrow> d' = d"
| "relay_by d (RAck d' message_id) \<longleftrightarrow> d' = d"

fun registry_by :: "16 arr \<Rightarrow> registry_op \<Rightarrow> bool" where
  "registry_by d (RegPublish d' p now) \<longleftrightarrow> d' = d"
| "registry_by d (RegRevoke d' generation now) \<longleftrightarrow> d' = d"
| "registry_by d (RegClaim recipient generation key_id claimant request now) \<longleftrightarrow> claimant = d"

lemma authorize_cases:
  obtains (denied) e auth where "authorize E q method path body s = (Err e, s\<lparr>ap_auth := auth\<rparr>)"
  | (granted) d auth where "authorize E q method path body s = (Ok d, s\<lparr>ap_auth := auth\<rparr>)"
proof (cases "authorize E q method path body s")
  case (Pair result s')
  then have "s' = s\<lparr>ap_auth := ap_auth s'\<rparr>"
    by (auto simp: authorize_def split: prod.splits)
  with Pair that show thesis
    by (cases result) metis+
qed

lemma bind_state_simps [simp]:
  "bind_state (Ok v, s) f = f v s" "bind_state (Err e, s) f = (Err e, s)"
  by (simp_all add: bind_state_def)

lemma or_bad_request_simps [simp]:
  "or_bad_request Panics s f = Panics"
  "or_bad_request (Returns None) s f = Returns (Err BAD_REQUEST, s)"
  "or_bad_request (Returns (Some v)) s f = f v"
  by (simp_all add: or_bad_request_def)

lemma answered_simps [simp]:
  "answered f Panics g = (AnsPanic, g)"
  "answered f (Returns (v, s)) g = (f v, g\<lparr>gw_app := s\<rparr>)"
  by (simp_all add: answered_def)

lemma or_bad_request_Returns:
  "or_bad_request r s f = Returns (v, s') \<longleftrightarrow>
     r = Returns None \<and> v = Err BAD_REQUEST \<and> s' = s \<or>
     (\<exists>x. r = Returns (Some x) \<and> f x = Returns (v, s'))"
proof (cases r)
  case (Returns x)
  then show ?thesis by (cases x) auto
qed simp

text \<open>
  How an operation of a device can change the shared state, in the terms of the components: at
  most one operation of the relay or of the registry, in the device's own name, and operations on
  the live connections.
\<close>

inductive effect :: "primitives \<Rightarrow> 16 arr \<Rightarrow> relay_op option \<Rightarrow> AppState \<Rightarrow> AppState \<Rightarrow> bool" for P d where
  unchanged: "effect P d None s (s\<lparr>ap_auth := auth\<rparr>)"
| accepted: "RelayStore_push now message (ap_relay s) = (Accepted, relay) \<Longrightarrow>
    em_sender_device_id message = d \<Longrightarrow>
    effect P d (Some (RPush now message)) s (s\<lparr>ap_auth := auth, ap_relay := relay,
      ap_connections := try_send (em_recipient_device_id message) message (ap_connections s)\<rparr>)"
| refused: "RelayStore_push now message (ap_relay s) = (result, relay) \<Longrightarrow> result \<noteq> Accepted \<Longrightarrow>
    em_sender_device_id message = d \<Longrightarrow>
    effect P d (Some (RPush now message)) s (s\<lparr>ap_auth := auth, ap_relay := relay\<rparr>)"
| pulled: "RelayStore_pull now d (ap_relay s) = (messages, relay) \<Longrightarrow>
    effect P d (Some (RPull now d)) s (s\<lparr>ap_auth := auth, ap_relay := relay\<rparr>)"
| acked: "RelayStore_ack d message_id (ap_relay s) = (removed, relay) \<Longrightarrow>
    effect P d (Some (RAck d message_id)) s (s\<lparr>ap_auth := auth, ap_relay := relay\<rparr>)"
| published: "PreKeyRegistry_publish P d publication now (ap_prekeys s) = (done, prekeys) \<Longrightarrow>
    effect P d None s (s\<lparr>ap_auth := auth, ap_prekeys := prekeys\<rparr>)"
| revoked: "PreKeyRegistry_revoke d generation now (ap_prekeys s) = (done, prekeys) \<Longrightarrow>
    effect P d None s (s\<lparr>ap_auth := auth, ap_prekeys := prekeys\<rparr>)"
| claimed: "claim_opk recipient generation key_id d request now (ap_prekeys s) = (claim, prekeys) \<Longrightarrow>
    effect P d None s (s\<lparr>ap_auth := auth, ap_prekeys := prekeys\<rparr>)"

text \<open>What a handler's answer and state say about whom it acted for.\<close>

definition effect_of ::
  "primitives \<Rightarrow> StatusCode + 16 arr \<Rightarrow> relay_op option \<Rightarrow> AppState \<Rightarrow> AppState \<Rightarrow> bool" where
  "effect_of P who rop s s' \<longleftrightarrow>
     (case who of Err e \<Rightarrow> rop = None \<and> (\<exists>auth. s' = s\<lparr>ap_auth := auth\<rparr>) | Ok d \<Rightarrow> effect P d rop s s')"

lemma effect_refl: "effect P d None s s"
  using effect.unchanged [of P d s "ap_auth s"] by simp

lemma effect_of_unchanged [simp]: "effect_of P who None s (s\<lparr>ap_auth := auth\<rparr>)" "effect_of P who None s s"
  by (auto simp: effect_of_def split: sum.split intro: effect.unchanged effect_refl exI [of _ "ap_auth s"])

lemma effect_of_Ok [simp]: "effect_of P (Ok d) rop s s' \<longleftrightarrow> effect P d rop s s'"
  by (simp add: effect_of_def)

lemmas effect_snd = effect.pulled [OF prod.collapse [symmetric]] effect.acked [OF prod.collapse [symmetric]]
  effect.published [OF prod.collapse [symmetric]] effect.revoked [OF prod.collapse [symmetric]]
  effect.claimed [OF prod.collapse [symmetric]] effect.unchanged effect_refl

lemma enqueue_effect:
  "effect_of (ge_primitives E) (fst (authorize E q ''POST'' ''/v1/relay'' (hq_body q) (gw_app g)))
     (relay_op_of E (OpEnqueue q) g) (gw_app g) (snd (enqueue E q (gw_app g)))"
proof (cases rule: authorize_cases [of E q "''POST''" "''/v1/relay''" "hq_body q" "gw_app g"])
  case (granted d auth)
  then show ?thesis
    by (auto simp: enqueue_def Let_def if_device_def split: option.split prod.split PushResult.split
        intro: effect.intros effect_refl)
qed (simp add: enqueue_def if_device_def split: option.split)

lemma poll_effect:
  "poll E q device (gw_app g) = Returns (v, s') \<Longrightarrow>
     effect_of P (fst (authorize E q ''GET'' (''/v1/relay/'' @ device) [] (gw_app g)))
       (relay_op_of E (OpPoll q device) g) (gw_app g) s'"
  by (cases rule: authorize_cases [of E q "''GET''" "''/v1/relay/'' @ device" "[]" "gw_app g"])
    (auto simp: poll_def or_bad_request_Returns case_prod_beta if_device_def split: if_splits
      intro: effect_snd)

lemma ack_effect:
  "ack E q device message_id (gw_app g) = Returns (v, s') \<Longrightarrow>
     effect_of P (fst (authorize E q ''POST''
       (''/v1/relay/'' @ device @ ''/'' @ message_id @ ''/ack'') [] (gw_app g)))
       (relay_op_of E (OpAck q device message_id) g) (gw_app g) s'"
  by (cases rule: authorize_cases [of E q "''POST''"
        "''/v1/relay/'' @ device @ ''/'' @ message_id @ ''/ack''" "[]" "gw_app g"])
    (auto simp: ack_def or_bad_request_Returns case_prod_beta if_device_def split: if_splits
      intro: effect_snd)

lemma publish_effect:
  "effect_of (ge_primitives E) (fst (authorize E q ''POST'' ''/v1/prekeys'' (hq_body q) s)) None s
     (snd (publish_prekeys E q s))"
proof (cases rule: authorize_cases [of E q "''POST''" "''/v1/prekeys''" "hq_body q" s])
  case (granted d auth)
  then show ?thesis
    by (auto simp: publish_prekeys_def case_prod_beta split: option.split intro: effect_snd)
qed (simp add: publish_prekeys_def)

lemma revoke_effect:
  "revoke_prekeys E q device generation s = Returns (v, s') \<Longrightarrow>
     effect_of P (fst (authorize E q ''POST''
       (''/v1/prekeys/'' @ device @ ''/'' @ decimal (unat generation) @ ''/revoke'') [] s)) None s s'"
  by (cases rule: authorize_cases [of E q "''POST''"
        "''/v1/prekeys/'' @ device @ ''/'' @ decimal (unat generation) @ ''/revoke''" "[]" s])
    (auto simp: revoke_prekeys_def or_bad_request_Returns case_prod_beta split: if_splits intro: effect_snd)

lemma claim_effect:
  "claim_prekey E q recipient generation key_id s = Returns (v, s') \<Longrightarrow>
     effect_of P (fst (authorize E q ''POST''
       (''/v1/prekeys/'' @ recipient @ ''/'' @ decimal (unat generation) @ ''/'' @
        decimal (unat key_id) @ ''/claim'') (hq_body q) s)) None s s'"
  by (cases rule: authorize_cases [of E q "''POST''"
        "''/v1/prekeys/'' @ recipient @ ''/'' @ decimal (unat generation) @ ''/'' @
          decimal (unat key_id) @ ''/claim''" "hq_body q" s])
    (auto simp: claim_prekey_def or_bad_request_Returns case_prod_beta
      split: if_splits option.splits intro: effect_snd)

lemma get_unchanged: "get_prekeys q device s = Returns (v, s') \<Longrightarrow> s' = s"
  by (auto simp: get_prekeys_def or_bad_request_Returns)

end
