(* ===== verification/Delivery.thy ===== *)
theory Delivery
  imports Service
begin

text \<open>
  What the gateway delivers: every message that is stored, waits for a connection, lies in a
  channel or has been sent on a socket was accepted from its authenticated sender and is addressed
  to the device that gets it. The invariant is kept by every step of every session and by every
  request; a run of the gateway is, for the relay, a run of the relay.
\<close>

section \<open>What the live connections carry\<close>

text \<open>
  \<open>owner\<close> is the device each channel was made for. Messages that wait for a device or were sent on
  one of its channels satisfy \<open>Q\<close> of it.
\<close>

definition carries ::
  "(16 arr \<Rightarrow> EncryptedMessage \<Rightarrow> bool) \<Rightarrow> (nat \<Rightarrow> 16 arr) \<Rightarrow> ConnectionRegistry \<Rightarrow> bool" where
  "carries Q owner r \<longleftrightarrow>
     (\<forall>d state. cr_inner r d = Some state \<longrightarrow>
        owner (cs_sender state) = d \<and> list_all (Q d) (cs_pending state)) \<and>
     (\<forall>c. list_all (Q (owner c)) (cr_sends r c))"

lemma carriesD:
  assumes "carries Q owner r"
  shows "cr_inner r d = Some state \<Longrightarrow> owner (cs_sender state) = d"
    and "cr_inner r d = Some state \<Longrightarrow> list_all (Q d) (cs_pending state)"
    and "list_all (Q (owner c)) (cr_sends r c)"
  using assms by (auto simp: carries_def)

lemma carries_default: "carries Q owner ConnectionRegistry_default"
  by (simp add: carries_def ConnectionRegistry_default_def)

lemma carries_mono:
  "carries Q owner r \<Longrightarrow> (\<And>d m. Q d m \<Longrightarrow> Q' d m) \<Longrightarrow> carries Q' owner r"
  unfolding carries_def by (meson list.pred_mono_strong)

lemma carries_register:
  assumes "connections_inv r" and "carries Q owner r"
  shows "carries Q (owner(cr_made r := d)) (snd (register d r))"
proof -
  have "cs_sender state \<noteq> cr_made r" if "cr_inner r d' = Some state" for d' state
    using sender_fresh [OF assms(1) that] by simp
  then show ?thesis
    using carriesD [OF assms(2)] connections_invD(3) [OF assms(1)]
    unfolding carries_def by (auto split: if_splits)
qed

lemma carries_unregister: "carries Q owner r \<Longrightarrow> carries Q owner (unregister d i r)"
  by (auto simp: carries_def unregister_def)

lemma list_all_filter: "list_all P xs \<Longrightarrow> list_all P (filter R xs)"
  by (induction xs) simp_all

lemma carries_activate:
  assumes "carries Q owner r"
  shows "carries Q owner (snd (activate d i D r))"
proof (cases "cr_inner r d")
  case None
  with assms show ?thesis by (simp add: activate_def)
next
  case (Some state)
  have "owner (cs_sender state) = d" "list_all (Q d) (cs_pending state)"
    using assms Some by (auto dest: carriesD)
  with assms Some show ?thesis
    by (auto simp: activate_def carries_def send_pending_eq list_all_filter)
qed

lemma carries_try_send:
  assumes "carries Q owner r" and "Q d m"
  shows "carries Q owner (try_send d m r)"
proof (cases "cr_inner r d")
  case None
  with assms show ?thesis by (simp add: try_send_def)
next
  case (Some state)
  have "owner (cs_sender state) = d"
    using assms(1) Some by (rule carriesD)
  with assms Some show ?thesis
    by (auto simp: try_send_def carries_def sender_try_send_def)
qed

lemma made_frame [simp]:
  "cr_made (unregister d i r) = cr_made r" "cr_made (try_send d m r) = cr_made r"
  "cr_made (snd (activate d i D r)) = cr_made r"
  by (auto simp: unregister_def try_send_def activate_def split: option.split)

section \<open>What is sent\<close>

definition msg_ok :: "EncryptedMessage set \<Rightarrow> 16 arr \<Rightarrow> EncryptedMessage \<Rightarrow> bool" where
  "msg_ok A d m \<longleftrightarrow> m \<in> A \<and> valid_message m \<and> em_recipient_device_id m = d"

text \<open>
  What may be sent on a socket of a device: a close, pongs, its hello, and well-formed frames with
  messages of a given set that are addressed to it.
\<close>

definition delivery_ok :: "EncryptedMessage set \<Rightarrow> 16 arr \<Rightarrow> ws_message \<Rightarrow> bool" where
  "delivery_ok A d sent \<longleftrightarrow>
     (case sent of
        WsBinary bs \<Rightarrow>
          length bs \<le> WS_MAX_MESSAGE \<and>
          (case and_then (Frame_from_bytes bs) (\<lambda>f. and_then (Frame_kind f) (\<lambda>k. Ok (k, fr_payload f))) of
             Ok (ClientHello, payload) \<Rightarrow> payload = bytes d
           | Ok (Pong, payload) \<Rightarrow> True
           | Ok (EncryptedMessageFrame, payload) \<Rightarrow>
               (case EncryptedMessage_decode payload of
                  Ok m \<Rightarrow> m \<in> A \<and> em_recipient_device_id m = d
                | Err e \<Rightarrow> False)
           | _ \<Rightarrow> False)
      | WsPong bs \<Rightarrow> True
      | WsClose \<Rightarrow> True
      | _ \<Rightarrow> False)"

definition sends_ok :: "EncryptedMessage set \<Rightarrow> 16 arr \<Rightarrow> socket \<Rightarrow> bool" where
  "sends_ok A d so \<longleftrightarrow> list_all (delivery_ok A d) (so_sent so)"

lemma delivery_ok_simps [simp]: "delivery_ok A d WsClose" "delivery_ok A d (WsPong bs)"
  by (simp_all add: delivery_ok_def)

lemma delivery_ok_mono: "delivery_ok A d w \<Longrightarrow> A \<subseteq> B \<Longrightarrow> delivery_ok B d w"
proof (cases w)
  case (WsBinary bs)
  assume w: "delivery_ok A d w" and "A \<subseteq> B"
  show ?thesis
  proof (cases "and_then (Frame_from_bytes bs) (\<lambda>f. and_then (Frame_kind f) (\<lambda>k. Ok (k, fr_payload f)))")
    case (Inr kp)
    obtain k payload where "kp = (k, payload)"
      by (cases kp)
    with w Inr WsBinary \<open>A \<subseteq> B\<close> show ?thesis
      by (cases k) (auto simp: delivery_ok_def split: sum.splits)
  qed (use w WsBinary in \<open>simp add: delivery_ok_def\<close>)
qed (simp_all add: delivery_ok_def)

lemma sends_ok_mono: "sends_ok A d so \<Longrightarrow> A \<subseteq> B \<Longrightarrow> sends_ok B d so"
  unfolding sends_ok_def by (meson delivery_ok_mono list.pred_mono_strong)

lemma sends_ok_send: "sends_ok A d so \<Longrightarrow> delivery_ok A d w \<Longrightarrow> sends_ok A d (snd (socket_send w so))"
  by (simp add: sends_ok_def socket_send_def Let_def)

lemma sends_ok_close: "sends_ok A d so \<Longrightarrow> sends_ok A d (ws_close so)"
  by (simp add: ws_close_def sends_ok_send)

text \<open>A frame the gateway builds is one its peer can read.\<close>

lemma built_frame:
  assumes "and_then (Frame_new kind flags payload) Frame_to_bytes = Ok bs"
  shows "and_then (Frame_from_bytes bs) (\<lambda>f. and_then (Frame_kind f) (\<lambda>k. Ok (k, fr_payload f))) =
      Ok (kind, payload) \<and> length bs = 8 + length payload \<and> length payload \<le> MAX_FRAME"
proof -
  obtain f where f: "Frame_new kind flags payload = Ok f" "Frame_to_bytes f = Ok bs"
    using assms by (auto simp: and_then_Ok)
  moreover have "length payload \<le> MAX_FRAME"
    using f(1) by (auto simp: Frame_new_def split: if_splits)
  ultimately show ?thesis
    using frame_new_round_trip [OF f(1)] by (auto simp: HEADER_LEN_def)
qed

lemma sends_ok_frame:
  assumes "sends_ok A d so"
    and "\<And>bs. length bs \<le> WS_MAX_MESSAGE \<Longrightarrow>
      and_then (Frame_from_bytes bs) (\<lambda>f. and_then (Frame_kind f) (\<lambda>k. Ok (k, fr_payload f))) =
        Ok (kind, payload) \<Longrightarrow> delivery_ok A d (WsBinary bs)"
  shows "sends_ok A d (snd (send_frame kind flags payload so))"
proof (cases "and_then (Frame_new kind flags payload) Frame_to_bytes")
  case (Inl e)
  with assms(1) show ?thesis by (simp add: send_frame_def)
next
  case (Inr bs)
  note built = built_frame [OF Inr]
  then have "delivery_ok A d (WsBinary bs)"
    by (intro assms(2)) (simp_all add: WS_MAX_MESSAGE_def)
  with Inr assms(1) show ?thesis
    by (simp add: send_frame_def sends_ok_send)
qed

lemma sends_ok_hello: "sends_ok A d so \<Longrightarrow> sends_ok A d (snd (send_hello d so))"
  unfolding send_hello_def by (rule sends_ok_frame) (simp_all add: delivery_ok_def)

lemma sends_ok_pong: "sends_ok A d so \<Longrightarrow> sends_ok A d (snd (send_frame Pong flags payload so))"
  by (rule sends_ok_frame) (simp_all add: delivery_ok_def)

lemma valid_message_fits: "valid_message m \<Longrightarrow> fits_u32 m"
  by (simp add: valid_message_def fits_u32_def MAX_RATCHET_HEADER_def RELAY_MAX_CIPHERTEXT_def u32_MAX_nat_def)

lemma sends_ok_encrypted:
  assumes "sends_ok A d so" and "msg_ok A d m"
  shows "sends_ok A d (snd (send_encrypted m so))"
proof -
  have "EncryptedMessage_decode (message_wire m) = Ok m"
    using assms(2) by (intro EncryptedMessage_decode_wire)
      (auto simp: msg_ok_def valid_message_fits valid_message_def)
  moreover have "EncryptedMessage_encode m = Ok (message_wire m)"
    using assms(2) by (simp add: EncryptedMessage_encode_eq msg_ok_def valid_message_fits)
  ultimately show ?thesis
    using assms by (auto simp: send_encrypted_def delivery_ok_def msg_ok_def intro!: sends_ok_frame)
qed

section \<open>The invariant\<close>

definition stored_in :: "EncryptedMessage set \<Rightarrow> RelayInner \<Rightarrow> bool" where
  "stored_in A g \<longleftrightarrow> (\<forall>d. \<forall>stored \<in> set (held d g). sm_message stored \<in> A)"

definition app_ok :: "primitives \<Rightarrow> EncryptedMessage set \<Rightarrow> (nat \<Rightarrow> 16 arr) \<Rightarrow> AppState \<Rightarrow> bool" where
  "app_ok P A owner s \<longleftrightarrow>
     relay_inv (ap_relay s) \<and> stored_in A (ap_relay s) \<and> registry_inv P (ap_prekeys s) \<and>
     connections_inv (ap_connections s) \<and> carries (msg_ok A) owner (ap_connections s)"

lemma stored_in_step:
  assumes "relay_inv g" and "stored_in A g"
    and "\<And>m. accepted_message op (fst (relay_step op g)) = Some m \<Longrightarrow> m \<in> A"
  shows "stored_in A (snd (relay_step op g))"
  unfolding stored_in_def
proof (intro allI ballI)
  fix d stored
  assume stored: "stored \<in> set (held d (snd (relay_step op g)))"
  obtain P where P: "held d (snd (relay_step op g)) = filter P (held d g) @
      (case accepted_message op (fst (relay_step op g)) of
         Some message \<Rightarrow> (case op of RPush now m \<Rightarrow> if em_recipient_device_id m = d then [accept now m] else [])
       | None \<Rightarrow> [])"
    using step_held [OF assms(1)] by blast
  show "sm_message stored \<in> A"
  proof (cases "accepted_message op (fst (relay_step op g))")
    case None
    with stored P assms(2) show ?thesis
      by (auto simp: stored_in_def)
  next
    case (Some message)
    then obtain now where "op = RPush now message"
      by (cases "(op, fst (relay_step op g))" rule: accepted_message.cases) auto
    with stored P assms(2) assms(3) [OF Some] Some show ?thesis
      by (auto simp: stored_in_def accept_def split: if_splits)
  qed
qed

lemma run_stored_in:
  assumes "relay_inv g" and "stored_in A g" and "\<forall>op \<in> set ops. case op of RPush now m \<Rightarrow> m \<in> A | _ \<Rightarrow> True"
  shows "stored_in A (snd (run relay_step ops g))"
  using assms
proof (induction ops arbitrary: g)
  case (Cons op ops)
  have "m \<in> A" if "accepted_message op (fst (relay_step op g)) = Some m" for m
    using Cons.prems(3) that
    by (cases "(op, fst (relay_step op g))" rule: accepted_message.cases) auto
  then have "stored_in A (snd (relay_step op g))"
    using Cons.prems by (intro stored_in_step)
  then show ?case
    using Cons.IH Cons.prems relay.step_inv by simp
qed simp

lemma effect_app_ok:
  assumes "effect P d rop s s'" and ok: "app_ok P A owner s"
    and A: "\<And>now m. rop = Some (RPush now m) \<Longrightarrow> fst (RelayStore_push now m (ap_relay s)) = Accepted \<Longrightarrow> m \<in> A"
  shows "app_ok P A owner s' \<and> cr_made (ap_connections s') = cr_made (ap_connections s)"
  using assms(1)
proof cases
  case (accepted now message relay auth)
  have inv: "relay_inv (ap_relay s)"
    using ok by (simp add: app_ok_def)
  have m: "message \<in> A" "valid_message message"
    using A [of now message] accepted push_cases [OF inv accepted(3)] by auto
  have "stored_in A relay"
    using stored_in_step [OF inv, of A "RPush now message"] ok accepted(3) m(1) by (simp add: app_ok_def)
  moreover have "relay_inv relay"
    using inv accepted(3) by (rule push_inv)
  moreover have "msg_ok A (em_recipient_device_id message) message"
    using m by (simp add: msg_ok_def)
  ultimately show ?thesis
    using ok accepted(2) by (simp add: app_ok_def carries_try_send try_send_inv)
next
  case (refused now message result relay auth)
  have inv: "relay_inv (ap_relay s)"
    using ok by (simp add: app_ok_def)
  have "stored_in A relay"
    using stored_in_step [OF inv, of A "RPush now message"] ok refused(3,4)
    by (cases result) (simp_all add: app_ok_def)
  moreover have "relay_inv relay"
    using inv refused(3) by (rule push_inv)
  ultimately show ?thesis
    using ok refused(2) by (simp add: app_ok_def)
next
  case (pulled now messages relay auth)
  then show ?thesis
    using ok stored_in_step [of "ap_relay s" A "RPull now d"] pull_inv [of "ap_relay s" now d]
    by (simp add: app_ok_def)
next
  case (acked message_id removed relay auth)
  then show ?thesis
    using ok stored_in_step [of "ap_relay s" A "RAck d message_id"] ack_inv [of "ap_relay s" d message_id]
    by (simp add: app_ok_def)
next
  case (revoked generation now result prekeys auth)
  then show ?thesis
    using ok revoke_inv [of P "ap_prekeys s" d generation now] by (simp add: app_ok_def)
qed (use ok in \<open>auto simp: app_ok_def intro: publish_inv claim_inv\<close>)

text \<open>The relay and the registry change by exactly one operation, in the name of the device.\<close>

definition by_relay :: "relay_op option \<Rightarrow> RelayInner \<Rightarrow> RelayInner" where
  "by_relay rop g = (case rop of None \<Rightarrow> g | Some rop \<Rightarrow> snd (relay_step rop g))"

lemma effect_relay:
  "effect P d rop s s' \<Longrightarrow> ap_relay s' = by_relay rop (ap_relay s) \<and> pred_option (relay_by d) rop"
  by (induction rule: effect.induct) (simp_all add: by_relay_def)

lemma effect_registry:
  "effect P d rop s s' \<Longrightarrow> ap_prekeys s' = ap_prekeys s \<or>
     (\<exists>op. registry_by d op \<and> ap_prekeys s' = snd (registry_step P op (ap_prekeys s)))"
proof (induction rule: effect.induct)
  case (published publication now s "done" prekeys auth)
  then show ?case
    by (intro disjI2 exI [of _ "RegPublish d publication now"]) simp
next
  case (revoked generation now s "done" prekeys auth)
  then show ?case
    by (intro disjI2 exI [of _ "RegRevoke d generation now"]) simp
next
  case (claimed recipient generation key_id request now s claim prekeys auth)
  then show ?case
    by (intro disjI2 exI [of _ "RegClaim recipient generation key_id d request now"]) simp
qed simp_all

section \<open>Sessions keep it\<close>

lemma effect_in_session:
  "RelayStore_push now message (ap_relay s) = (Accepted, relay) \<Longrightarrow> em_sender_device_id message = d \<Longrightarrow>
     effect P d (Some (RPush now message)) s (s\<lparr>ap_relay := relay,
       ap_connections := try_send (em_recipient_device_id message) message (ap_connections s)\<rparr>)"
  "RelayStore_push now message (ap_relay s) = (result, relay) \<Longrightarrow> result \<noteq> Accepted \<Longrightarrow>
     em_sender_device_id message = d \<Longrightarrow> effect P d (Some (RPush now message)) s (s\<lparr>ap_relay := relay\<rparr>)"
  "effect P d (Some (RPull now d)) s (s\<lparr>ap_relay := snd (RelayStore_pull now d (ap_relay s))\<rparr>)"
  "effect P d (Some (RAck d message_id)) s (s\<lparr>ap_relay := snd (RelayStore_ack d message_id (ap_relay s))\<rparr>)"
  using effect.accepted [where auth = "ap_auth s" and s = s and P = P]
    effect.refused [where auth = "ap_auth s" and s = s and P = P]
    effect_snd(1) [where auth = "ap_auth s" and s = s and P = P]
    effect_snd(2) [where auth = "ap_auth s" and s = s and P = P]
  by simp_all

lemma handle_frame_effect:
  assumes "handle_frame now kind payload d (so, s) = (r, so', s')"
  shows "effect P d (frame_op now kind payload d) s s' \<and> (sends_ok A d so \<longrightarrow> sends_ok A d so')"
proof (cases kind)
  case EncryptedMessageFrame
  show ?thesis
  proof (cases "EncryptedMessage_decode payload")
    case (Inr message)
    obtain pushed relay where p: "RelayStore_push now message (ap_relay s) = (pushed, relay)"
      by fastforce
    show ?thesis
      using assms EncryptedMessageFrame Inr p
      by (cases pushed) (auto simp: handle_frame_def frame_op_def Let_def sends_ok_close effect_refl
          split: if_splits intro: effect_in_session)
  qed (use assms EncryptedMessageFrame in \<open>auto simp: handle_frame_def frame_op_def effect_refl\<close>)
next
  case Ping
  then show ?thesis
    using assms sends_ok_pong [of A d so 0 payload]
    by (auto simp: handle_frame_def frame_op_def effect_refl split: prod.splits sum.splits)
qed (use assms in \<open>auto simp: handle_frame_def frame_op_def effect_refl sends_ok_close split: sum.splits
      intro: effect_in_session\<close>)

lemma handle_message_effect:
  assumes "handle_authenticated_message now message d (so, s) = (r, so', s')"
  shows "effect P d (message_op now message d) s s' \<and> (sends_ok A d so \<longrightarrow> sends_ok A d so')"
proof (cases message)
  case (WsBinary bs)
  then show ?thesis
    using assms handle_frame_effect
    by (auto simp: handle_authenticated_message_def message_op_def effect_refl sends_ok_close
        split: sum.splits if_splits)
next
  case (WsPing bs)
  then show ?thesis
    using assms sends_ok_send [of A d so "WsPong bs"]
    by (auto simp: handle_authenticated_message_def message_op_def effect_refl split: prod.splits sum.splits)
qed (use assms in \<open>auto simp: handle_authenticated_message_def message_op_def effect_refl\<close>)

definition owns :: "(nat \<Rightarrow> 16 arr) \<Rightarrow> nat \<Rightarrow> 16 arr \<Rightarrow> nat \<Rightarrow> bool" where
  "owns owner made d c \<longleftrightarrow> owner c = d \<and> c < made"

fun phase_ok ::
  "EncryptedMessage set \<Rightarrow> (nat \<Rightarrow> 16 arr) \<Rightarrow> nat \<Rightarrow> 16 arr \<Rightarrow> ws_phase \<Rightarrow> bool" where
  "phase_ok A owner made d AwaitHello \<longleftrightarrow> True"
| "phase_ok A owner made d (Registered i c) \<longleftrightarrow> owns owner made d c"
| "phase_ok A owner made d (Greeted i c) \<longleftrightarrow> owns owner made d c"
| "phase_ok A owner made d (SendingBacklog i c delivered ms) \<longleftrightarrow>
     owns owner made d c \<and> list_all (msg_ok A d) ms"
| "phase_ok A owner made d (Live i c t) \<longleftrightarrow> owns owner made d c"
| "phase_ok A owner made d Ended \<longleftrightarrow> True"

definition session_ok ::
  "EncryptedMessage set \<Rightarrow> (nat \<Rightarrow> 16 arr) \<Rightarrow> nat \<Rightarrow> ws_session \<Rightarrow> bool" where
  "session_ok A owner made session \<longleftrightarrow>
     sends_ok A (ss_device session) (ss_socket session) \<and>
     phase_ok A owner made (ss_device session) (ss_phase session)"

text \<open>A session and the shared state, together with what may be said about the device it serves.\<close>

definition served ::
  "primitives \<Rightarrow> EncryptedMessage set \<Rightarrow> (nat \<Rightarrow> 16 arr) \<Rightarrow> nat \<Rightarrow> 16 arr \<Rightarrow> ws_session \<times> AppState \<Rightarrow> bool"
where
  "served P A owner made d w \<longleftrightarrow>
     app_ok P A owner (snd w) \<and> session_ok A owner made (fst w) \<and> ss_device (fst w) = d \<and>
     cr_made (ap_connections (snd w)) = made"

lemma app_ok_connections:
  "app_ok P A owner s \<Longrightarrow> connections_inv r \<Longrightarrow> carries (msg_ok A) owner r \<Longrightarrow>
     app_ok P A owner (s\<lparr>ap_connections := r\<rparr>)"
  by (simp add: app_ok_def)

lemma served_end:
  assumes "app_ok P A owner s" and "sends_ok A d (ss_socket session)" and "ss_device session = d"
    and "cr_made (ap_connections s) = made"
  shows "served P A owner made d (session_end u i (session, s))"
  using assms
  by (auto simp: served_def session_end_def session_ok_def app_ok_def unregister_inv carries_unregister)

lemma served_or_end:
  assumes "app_ok P A owner s" and "sends_ok A d (snd result)" and "ss_device session = d"
    and "cr_made (ap_connections s) = made" and "phase_ok A owner made d phase"
  shows "served P A owner made d (or_end result i phase (session, s))"
  using assms
  by (auto simp: or_end_def Let_def served_def [of P A owner made d "(session\<lparr>ss_socket := snd result, ss_phase := phase\<rparr>, s)"]
      session_ok_def intro!: served_end)

lemma session_end_relay [simp]:
  "ap_relay (snd (session_end u i w)) = ap_relay (snd w)"
  "ap_prekeys (snd (session_end u i w)) = ap_prekeys (snd w)"
  "ss_device (fst (session_end u i w)) = ss_device (fst w)"
  by (simp_all add: session_end_def Let_def case_prod_beta)

lemma or_end_relay [simp]:
  "ap_relay (snd (or_end result i phase w)) = ap_relay (snd w)"
  "ap_prekeys (snd (or_end result i phase w)) = ap_prekeys (snd w)"
  "ss_device (fst (or_end result i phase w)) = ss_device (fst w)"
  by (simp_all add: or_end_def Let_def case_prod_beta)

lemma served_inbound:
  assumes "served P A owner made d (session, s)" and "owns owner made d c"
    and "\<And>message now' m. inbound = Some message \<Longrightarrow> message_op now message d = Some (RPush now' m) \<Longrightarrow>
      fst (RelayStore_push now' m (ap_relay s)) = Accepted \<Longrightarrow> m \<in> A"
  shows "served P A owner made d (select_inbound i c inbound now t (session, s))"
proof (cases inbound)
  case None
  have "served P A owner made d (session_end True i (session, s))"
    using assms(1) by (intro served_end) (auto simp: served_def session_ok_def)
  with None show ?thesis
    by (simp add: select_inbound_def)
next
  case (Some message)
  obtain r so' s' where h: "handle_authenticated_message now message d (ss_socket session, s) = (r, so', s')"
    by (metis prod_cases3)
  have d: "ss_device session = d" and so: "sends_ok A d (ss_socket session)" and ok: "app_ok P A owner s"
    and made: "cr_made (ap_connections s) = made"
    using assms(1) by (auto simp: served_def session_ok_def)
  have e: "effect P d (message_op now message d) s s'" "sends_ok A d so'"
    using handle_message_effect [OF h] so by blast+
  have ok': "app_ok P A owner s'" "cr_made (ap_connections s') = made"
    using effect_app_ok [OF e(1) ok] assms(3) [OF Some] made by blast+
  show ?thesis
  proof (cases "r = Ok True")
    case True
    then show ?thesis
      using h ok' e(2) assms(2) d by (simp add: select_inbound_def Some Let_def served_def session_ok_def)
  next
    case False
    then have "select_inbound i c inbound now t (session, s) =
        session_end True i (session\<lparr>ss_socket := so'\<rparr>, s')"
      using h by (simp add: select_inbound_def Some d Let_def)
    then show ?thesis
      using ok' e(2) d by (simp add: served_end)
  qed
qed

text \<open>
  What the model relies on of the channels of \<open>tokio\<close>: a session receives only messages that were
  sent on its channel.
\<close>

fun phase_received :: "ws_phase \<Rightarrow> session_event \<Rightarrow> (nat \<times> EncryptedMessage) option" where
  "phase_received (Live i c t) (Outbound (Some m)) = Some (c, m)"
| "phase_received phase event = None"

definition channel_ok :: "ws_phase \<Rightarrow> session_event \<Rightarrow> AppState \<Rightarrow> bool" where
  "channel_ok phase event s \<longleftrightarrow>
     (case phase_received phase event of
        None \<Rightarrow> True | Some (c, m) \<Rightarrow> m \<in> set (cr_sends (ap_connections s) c))"

lemma served_outbound:
  assumes "served P A owner made d (session, s)" and "owns owner made d c"
    and "\<And>m. received = Some m \<Longrightarrow> m \<in> set (cr_sends (ap_connections s) c)"
  shows "served P A owner made d (select_outbound i c received t (session, s))"
proof (cases received)
  case None
  with assms(1) show ?thesis
    by (auto simp: select_outbound_def served_def [of P A owner made d "(session, s)"] session_ok_def
        intro: served_end)
next
  case (Some m)
  have "msg_ok A d m"
    using assms(1,2) assms(3) [OF Some] carriesD(3) [of "msg_ok A" owner "ap_connections s" c]
    by (auto simp: served_def app_ok_def owns_def list_all_iff)
  with assms(1,2) Some show ?thesis
    by (auto simp: select_outbound_def served_def [of P A owner made d "(session, s)"] session_ok_def
        intro!: served_or_end sends_ok_encrypted)
qed

text \<open>Every step of a session but the registration, which makes a channel.\<close>

lemma served_step:
  assumes w: "served P A owner made d (session, s)" and "ss_phase session \<noteq> AwaitHello"
    and A: "\<And>now m. phase_op d (ss_phase session) event = Some (RPush now m) \<Longrightarrow>
      fst (RelayStore_push now m (ap_relay s)) = Accepted \<Longrightarrow> m \<in> A"
    and "channel_ok (ss_phase session) event s"
  shows "served P A owner made d (session_step event (session, s))"
proof -
  have d: "ss_device session = d" and so: "sends_ok A d (ss_socket session)" and ok: "app_ok P A owner s"
    and made: "cr_made (ap_connections s) = made" and inv: "connections_inv (ap_connections s)"
    and carries: "carries (msg_ok A) owner (ap_connections s)"
    and relay: "relay_inv (ap_relay s)" "stored_in A (ap_relay s)"
    using w by (auto simp: served_def session_ok_def app_ok_def)
  have phase: "phase_ok A owner made d (ss_phase session)"
    using w by (auto simp: served_def session_ok_def)
  show ?thesis
  proof (cases "ss_phase session")
    case (Registered i c)
    with phase ok so d made w show ?thesis
      by (cases event) (simp_all add: served_or_end sends_ok_hello)
  next
    case (Greeted i c)
    show ?thesis
    proof (cases "\<exists>now. event = PullBacklog now")
      case True
      then obtain now where now: "event = PullBacklog now" ..
      obtain backlog relay' where pull: "RelayStore_pull now d (ap_relay s) = (backlog, relay')"
        by fastforce
      have "list_all (msg_ok A d) backlog"
        using pull_held [OF relay(1), of now d] pull live_queue_ok [OF relay(1), of d now] relay(2)
        by (auto simp: list_all_iff msg_ok_def queue_ok_def live_queue_held stored_in_def)
      moreover have "app_ok P A owner (s\<lparr>ap_relay := relay'\<rparr>)"
        using effect_app_ok [OF effect_in_session(3) [where now = now and d = d] ok] pull by simp
      ultimately show ?thesis
        using phase Greeted now pull d so made by (simp add: served_def session_ok_def)
    next
      case False
      with Greeted w show ?thesis
        by (cases event) simp_all
    qed
  next
    case (SendingBacklog i c delivered backlog)
    show ?thesis
    proof (cases "\<exists>t. event = SendNext t")
      case True
      then obtain t where t: "event = SendNext t" ..
      show ?thesis
      proof (cases backlog)
        case Nil
        obtain active r where act: "activate d i delivered (ap_connections s) = (active, r)"
          by fastforce
        have "app_ok P A owner (s\<lparr>ap_connections := r\<rparr>)" "cr_made r = made"
          using activate_inv [OF inv, of d i delivered] carries_activate [OF carries, of d i delivered]
            made_frame(3) [of d i delivered "ap_connections s"] act ok made
          by (simp_all add: app_ok_connections)
        then show ?thesis
          using phase SendingBacklog Nil t act d so
          by (simp add: served_end) (simp add: served_def session_ok_def)
      next
        case (Cons m rest)
        with phase SendingBacklog t ok so d made show ?thesis
          by (simp add: served_or_end sends_ok_encrypted)
      qed
    next
      case False
      with SendingBacklog w show ?thesis
        by (cases event; cases backlog) simp_all
    qed
  next
    case (Live i c t)
    show ?thesis
    proof (cases event)
      case (IdleTimeout instant)
      with Live ok so d made w show ?thesis
        by (simp add: served_end sends_ok_close)
    next
      case (Inbound inbound now instant)
      with Live w phase A show ?thesis
        by (simp add: served_inbound)
    next
      case (Outbound received)
      then have "m \<in> set (cr_sends (ap_connections s) c)" if "received = Some m" for m
        using assms(4) Live that by (simp add: channel_ok_def)
      with Live Outbound w phase show ?thesis
        by (simp add: served_outbound)
    qed (use Live w in simp_all)
  next
    case Ended
    with w show ?thesis
      by (cases event) simp_all
  qed (use assms(2) in simp)
qed

text \<open>The first message, which may register the session.\<close>

lemma served_first:
  assumes w: "served P A owner made d (session, s)" and "ss_phase session = AwaitHello"
  shows "\<exists>owner' made'. served P A owner' made' d (session_step event (session, s)) \<and>
    made \<le> made' \<and> (\<forall>c < made. owner' c = owner c)"
proof (cases "\<exists>first. event = FirstMessage first")
  case True
  then obtain first where first: "event = FirstMessage first" ..
  have d: "ss_device session = d" and so: "sends_ok A d (ss_socket session)" and ok: "app_ok P A owner s"
    and made: "cr_made (ap_connections s) = made" and inv: "connections_inv (ap_connections s)"
    and carries: "carries (msg_ok A) owner (ap_connections s)"
    using w by (auto simp: served_def session_ok_def app_ok_def)
  show ?thesis
  proof (cases "ws_accepts_hello d first")
    case True
    obtain i c r where reg: "register d (ap_connections s) = ((i, c), r)"
      by (metis prod.exhaust)
    then have r: "r = snd (register d (ap_connections s))" "c = made"
      using register_fields(4) [of d "ap_connections s"] made by simp_all
    let ?owner = "owner(made := d)"
    have "app_ok P A ?owner (s\<lparr>ap_connections := r\<rparr>)" "cr_made r = Suc made"
      using ok register_inv [OF inv, of d] carries_register [OF inv carries, of d] made
      by (simp_all add: app_ok_def r)
    then have "served P A ?owner (Suc made) d (session_step event (session, s))"
      using first assms(2) reg d so True r(2)
      by (simp add: served_def session_ok_def owns_def)
    then show ?thesis
      by (intro exI [of _ ?owner] exI [of _ "Suc made"]) simp
  next
    case False
    then have "served P A owner made d (session_step event (session, s))"
      using first assms(2) d so ok made
      by (simp add: served_def session_ok_def sends_ok_close)
    then show ?thesis by blast
  qed
next
  case False
  then have "session_step event (session, s) = (session, s)"
    using assms(2) by (cases event) simp_all
  with w show ?thesis by auto
qed

lemma handle_frame_prekeys:
  "handle_frame now kind payload d (so, s) = (r, so', s') \<Longrightarrow> ap_prekeys s' = ap_prekeys s"
proof (cases kind)
  case EncryptedMessageFrame
  assume h: "handle_frame now kind payload d (so, s) = (r, so', s')"
  show ?thesis
  proof (cases "EncryptedMessage_decode payload")
    case (Inr message)
    obtain pushed relay where "RelayStore_push now message (ap_relay s) = (pushed, relay)"
      by fastforce
    with h EncryptedMessageFrame Inr show ?thesis
      by (cases pushed) (auto simp: handle_frame_def Let_def split: if_splits)
  qed (use h EncryptedMessageFrame in \<open>auto simp: handle_frame_def\<close>)
qed (auto simp: handle_frame_def split: prod.splits sum.splits)

lemma handle_message_prekeys:
  "handle_authenticated_message now message d (so, s) = (r, so', s') \<Longrightarrow> ap_prekeys s' = ap_prekeys s"
  by (cases message) (auto simp: handle_authenticated_message_def dest: handle_frame_prekeys
      split: prod.splits sum.splits if_splits)

lemma session_step_effect:
  "ap_relay (snd (session_step event (session, s))) =
     by_relay (phase_op (ss_device session) (ss_phase session) event) (ap_relay s) \<and>
   ap_prekeys (snd (session_step event (session, s))) = ap_prekeys s \<and>
   ss_device (fst (session_step event (session, s))) = ss_device session \<and>
   pred_option (relay_by (ss_device session)) (phase_op (ss_device session) (ss_phase session) event)"
proof (cases "ss_phase session")
  case AwaitHello
  then show ?thesis
    by (cases event) (simp_all add: by_relay_def case_prod_beta)
next
  case (Registered i c)
  then show ?thesis
    by (cases event) (simp_all add: by_relay_def)
next
  case (Greeted i c)
  then show ?thesis
    by (cases event) (simp_all add: by_relay_def case_prod_beta)
next
  case (SendingBacklog i c delivered backlog)
  then show ?thesis
    by (cases event; cases backlog) (simp_all add: by_relay_def case_prod_beta)
next
  case (Live i c t)
  show ?thesis
  proof (cases event)
    case (Inbound inbound now instant)
    show ?thesis
    proof (cases inbound)
      case None
      with Live Inbound show ?thesis
        by (simp add: by_relay_def select_inbound_def)
    next
      case (Some message)
      obtain r so' s' where h: "handle_authenticated_message now message (ss_device session)
          (ss_socket session, s) = (r, so', s')"
        by (metis prod_cases3)
      have e: "effect undefined (ss_device session) (message_op now message (ss_device session)) s s'"
        using handle_message_effect [OF h] by blast
      with handle_message_prekeys [OF h] effect_relay [OF e] Live Inbound Some h show ?thesis
        by (simp add: select_inbound_def Let_def)
    qed
  next
    case (Outbound received)
    with Live show ?thesis
      by (simp add: by_relay_def select_outbound_def split: option.split)
  qed (use Live in \<open>simp_all add: by_relay_def\<close>)
next
  case Ended
  then show ?thesis
    by (cases event) (simp_all add: by_relay_def)
qed

section \<open>The gateway keeps it\<close>

lemma or_bad_request_Panics:
  "or_bad_request r s f = Panics \<longleftrightarrow> r = Panics \<or> (\<exists>x. r = Returns (Some x) \<and> f x = Panics)"
proof (cases r)
  case (Returns x)
  then show ?thesis by (cases x) auto
qed simp

fun is_request :: "gateway_op \<Rightarrow> bool" where
  "is_request (OpUpgrade q fails) = False"
| "is_request (OpSession n event) = False"
| "is_request op = True"

definition actor_effect ::
  "primitives \<Rightarrow> 16 arr option \<Rightarrow> relay_op option \<Rightarrow> AppState \<Rightarrow> AppState \<Rightarrow> bool" where
  "actor_effect P who rop s s' \<longleftrightarrow>
     (case who of None \<Rightarrow> rop = None \<and> (\<exists>auth. s' = s\<lparr>ap_auth := auth\<rparr>) | Some d \<Rightarrow> effect P d rop s s')"

lemma answered_effect:
  assumes "gateway_step E op g = answered f r g"
    and "actor E op g = (case who of Err e \<Rightarrow> None | Ok d \<Rightarrow> Some d)"
    and "\<And>v s'. r = Returns (v, s') \<Longrightarrow> effect_of P who (relay_op_of E op g) (gw_app g) s'"
    and "r = Panics \<Longrightarrow> relay_op_of E op g = None"
  shows "actor_effect P (actor E op g) (relay_op_of E op g) (gw_app g)
      (gw_app (snd (gateway_step E op g))) \<and>
    gw_sessions (snd (gateway_step E op g)) = gw_sessions g"
proof -
  have "effect_of P who (relay_op_of E op g) (gw_app g) (gw_app (snd (gateway_step E op g)))"
    using assms(1,3,4) by (cases r) auto
  then show ?thesis
    using assms(1,2) by (cases who; cases r) (auto simp: effect_of_def actor_effect_def)
qed

lemma request_effect:
  assumes "is_request op"
  shows "actor_effect (ge_primitives E) (actor E op g) (relay_op_of E op g) (gw_app g)
      (gw_app (snd (gateway_step E op g))) \<and>
    gw_sessions (snd (gateway_step E op g)) = gw_sessions g"
proof (cases op)
  case (OpEnqueue q)
  then show ?thesis
    by (intro answered_effect [where r = "Returns (enqueue E q (gw_app g))"])
      (use enqueue_effect [of E q g] in \<open>simp_all add: actor_def\<close>)
next
  case (OpPoll q device)
  then show ?thesis
    by (intro answered_effect [where r = "poll E q device (gw_app g)"])
      (use poll_effect [of E q device g] in \<open>auto simp: actor_def poll_def or_bad_request_Panics\<close>)
next
  case (OpAck q device message_id)
  then show ?thesis
    by (intro answered_effect [where r = "ack E q device message_id (gw_app g)"])
      (use ack_effect [of E q device message_id g] in
        \<open>auto simp: actor_def ack_def or_bad_request_Panics split: panicking.split option.split\<close>)
next
  case (OpPublish q)
  then show ?thesis
    by (intro answered_effect [where r = "Returns (publish_prekeys E q (gw_app g))"])
      (use publish_effect [of E q "gw_app g"] in \<open>simp_all add: actor_def\<close>)
next
  case (OpGetPrekeys q device)
  then have "gw_app (snd (gateway_step E op g)) = gw_app g" "gw_sessions (snd (gateway_step E op g)) = gw_sessions g"
    by (auto simp: answered_def dest: get_unchanged split: panicking.split)
  then show ?thesis
    using OpGetPrekeys
    by (auto simp: actor_def actor_effect_def intro: exI [of _ "ap_auth (gw_app g)"])
next
  case (OpRevoke q device generation)
  then show ?thesis
    by (intro answered_effect [where r = "revoke_prekeys E q device generation (gw_app g)"])
      (use revoke_effect [of E q device generation "gw_app g"] in \<open>auto simp: actor_def\<close>)
next
  case (OpClaim q recipient generation key_id)
  then show ?thesis
    by (intro answered_effect [where r = "claim_prekey E q recipient generation key_id (gw_app g)"])
      (use claim_effect [of E q recipient generation key_id "gw_app g"] in \<open>auto simp: actor_def\<close>)
qed (use assms in simp_all)

lemma upgrade_cases:
  obtains (denied) auth where "actor E (OpUpgrade q fails) g = None"
      "snd (gateway_step E (OpUpgrade q fails) g) = g\<lparr>gw_app := (gw_app g)\<lparr>ap_auth := auth\<rparr>\<rparr>"
  | (upgraded) d auth where "actor E (OpUpgrade q fails) g = Some d"
      "snd (gateway_step E (OpUpgrade q fails) g) =
         g\<lparr>gw_app := (gw_app g)\<lparr>ap_auth := auth\<rparr>,
           gw_sessions := gw_sessions g @
             [\<lparr>ss_device = d, ss_socket = \<lparr>so_sent = [], so_attempts = 0, so_fails = fails\<rparr>,
               ss_phase = AwaitHello\<rparr>]\<rparr>"
proof (cases rule: authorize_cases [of E q "''GET''" "''/v1/ws''" "[]" "gw_app g"])
  case (denied e auth)
  then show thesis
    by (intro that(1) [of auth]) (simp_all add: actor_def websocket_def)
next
  case (granted d auth)
  then show thesis
    by (intro that(2) [of d auth]) (simp_all add: actor_def websocket_def)
qed

definition authority ::
  "primitives \<Rightarrow> 16 arr option \<Rightarrow> relay_op option \<Rightarrow> AppState \<Rightarrow> AppState \<Rightarrow> bool" where
  "authority P who rop s s' \<longleftrightarrow>
     ap_relay s' = by_relay rop (ap_relay s) \<and>
     (case who of
        None \<Rightarrow> rop = None \<and> ap_prekeys s' = ap_prekeys s
      | Some d \<Rightarrow> pred_option (relay_by d) rop \<and>
          (ap_prekeys s' = ap_prekeys s \<or>
           (\<exists>op. registry_by d op \<and> ap_prekeys s' = snd (registry_step P op (ap_prekeys s)))))"

lemma step_authority:
  "authority (ge_primitives E) (actor E op g) (relay_op_of E op g) (gw_app g)
     (gw_app (snd (gateway_step E op g)))"
proof (cases "is_request op")
  case True
  note effect = request_effect [OF True, of E g, THEN conjunct1]
  show ?thesis
  proof (cases "actor E op g")
    case None
    with effect show ?thesis
      by (auto simp: authority_def actor_effect_def by_relay_def)
  next
    case (Some d)
    with effect have "effect (ge_primitives E) d (relay_op_of E op g) (gw_app g)
        (gw_app (snd (gateway_step E op g)))"
      by (simp add: actor_effect_def)
    from effect_relay [OF this] effect_registry [OF this] Some show ?thesis
      by (simp add: authority_def)
  qed
next
  case False
  show ?thesis
  proof (cases op)
    case (OpUpgrade q fails)
    then show ?thesis
      by (cases rule: upgrade_cases [of E q fails g])
        (auto simp: authority_def by_relay_def simp del: gateway_step.simps)
  next
    case (OpSession n event)
    show ?thesis
    proof (cases "n < length (gw_sessions g)")
      case True
      then show ?thesis
        using session_step_effect [of event "gw_sessions g ! n" "gw_app g"]
        by (simp add: OpSession authority_def actor_def case_prod_beta)
    qed (simp add: OpSession authority_def actor_def by_relay_def)
  qed (use False in simp_all)
qed

definition gateway_inv :: "primitives \<Rightarrow> EncryptedMessage set \<Rightarrow> gateway \<Rightarrow> bool" where
  "gateway_inv P A g \<longleftrightarrow>
     (\<exists>owner. app_ok P A owner (gw_app g) \<and>
        (\<forall>session \<in> set (gw_sessions g).
           session_ok A owner (cr_made (ap_connections (gw_app g))) session))"

lemma phase_ok_mono:
  "phase_ok A owner made d phase \<Longrightarrow> made \<le> made' \<Longrightarrow> \<forall>c < made. owner' c = owner c \<Longrightarrow>
     phase_ok A owner' made' d phase"
  by (cases phase) (auto simp: owns_def)

lemma session_ok_mono:
  "session_ok A owner made session \<Longrightarrow> made \<le> made' \<Longrightarrow> \<forall>c < made. owner' c = owner c \<Longrightarrow>
     session_ok A owner' made' session"
  by (auto simp: session_ok_def intro: phase_ok_mono)

lemma session_inv:
  assumes inv: "gateway_inv P A g" and n: "n < length (gw_sessions g)"
    and A: "\<And>m. accepted_by E (OpSession n event) g = Some m \<Longrightarrow> m \<in> A"
    and channel: "channel_ok (ss_phase (gw_sessions g ! n)) event (gw_app g)"
  shows "gateway_inv P A (snd (gateway_step E (OpSession n event) g))"
proof -
  let ?session = "gw_sessions g ! n" and ?s = "gw_app g"
  let ?d = "ss_device ?session" and ?made = "cr_made (ap_connections ?s)"
  let ?w = "session_step event (?session, ?s)"
  obtain owner where ok: "app_ok P A owner ?s"
    and sessions: "\<forall>session \<in> set (gw_sessions g). session_ok A owner ?made session"
    using inv by (auto simp: gateway_inv_def)
  have w: "served P A owner ?made ?d (?session, ?s)"
    using ok sessions n by (simp add: served_def)
  have "\<exists>owner' made'. served P A owner' made' ?d ?w \<and> ?made \<le> made' \<and> (\<forall>c < ?made. owner' c = owner c)"
  proof (cases "ss_phase ?session = AwaitHello")
    case True
    with w show ?thesis by (rule served_first)
  next
    case False
    have "m \<in> A" if "phase_op ?d (ss_phase ?session) event = Some (RPush now m)"
      "fst (RelayStore_push now m (ap_relay ?s)) = Accepted" for now m
      using A [of m] that n by (simp add: accepted_by_def)
    with w False channel have "served P A owner ?made ?d ?w"
      by (intro served_step) blast+
    then show ?thesis by blast
  qed
  then obtain owner' made' where w': "served P A owner' made' ?d ?w" and "?made \<le> made'"
    and "\<forall>c < ?made. owner' c = owner c"
    by blast
  then have "session_ok A owner' made' session" if "session \<in> set (gw_sessions g)" for session
    using sessions that session_ok_mono by blast
  moreover have "session_ok A owner' made' (fst ?w)" "app_ok P A owner' (snd ?w)"
    "cr_made (ap_connections (snd ?w)) = made'"
    using w' by (auto simp: served_def)
  ultimately show ?thesis
    using n set_update_subset_insert [of "gw_sessions g" n "fst ?w"]
    by (auto simp: gateway_inv_def case_prod_beta intro!: exI [of _ owner'])
qed

definition op_channel_ok :: "gateway_op \<Rightarrow> gateway \<Rightarrow> bool" where
  "op_channel_ok op g \<longleftrightarrow>
     (case op of
        OpSession n event \<Rightarrow>
          if n < length (gw_sessions g) then channel_ok (ss_phase (gw_sessions g ! n)) event (gw_app g)
          else True
      | _ \<Rightarrow> True)"

lemma request_inv:
  assumes inv: "gateway_inv (ge_primitives E) A g" and "is_request op"
    and A: "\<And>m. accepted_by E op g = Some m \<Longrightarrow> m \<in> A"
  shows "gateway_inv (ge_primitives E) A (snd (gateway_step E op g))"
proof -
  let ?s = "gw_app g" and ?s' = "gw_app (snd (gateway_step E op g))"
  note effect = request_effect [OF assms(2), of E g]
  obtain owner where ok: "app_ok (ge_primitives E) A owner ?s"
    and sessions: "\<forall>session \<in> set (gw_sessions g). session_ok A owner (cr_made (ap_connections ?s)) session"
    using inv by (auto simp: gateway_inv_def)
  have "app_ok (ge_primitives E) A owner ?s' \<and> cr_made (ap_connections ?s') = cr_made (ap_connections ?s)"
  proof (cases "actor E op g")
    case None
    with effect ok show ?thesis
      by (auto simp: actor_effect_def app_ok_def)
  next
    case (Some d)
    with effect have "effect (ge_primitives E) d (relay_op_of E op g) ?s ?s'"
      by (simp add: actor_effect_def)
    moreover have "m \<in> A" if "relay_op_of E op g = Some (RPush now m)"
      "fst (RelayStore_push now m (ap_relay ?s)) = Accepted" for now m
      using A [of m] that by (simp add: accepted_by_def)
    ultimately show ?thesis
      using ok by (intro effect_app_ok)
  qed
  with sessions effect show ?thesis
    by (auto simp: gateway_inv_def)
qed

lemma step_inv:
  assumes inv: "gateway_inv (ge_primitives E) A g" and A: "\<And>m. accepted_by E op g = Some m \<Longrightarrow> m \<in> A"
    and "op_channel_ok op g"
  shows "gateway_inv (ge_primitives E) A (snd (gateway_step E op g))"
proof (cases op)
  case (OpSession n event)
  show ?thesis
  proof (cases "n < length (gw_sessions g)")
    case True
    then show ?thesis
      using session_inv [OF inv True, of E event] A assms(3)
      unfolding OpSession by (simp add: op_channel_ok_def)
  qed (use inv OpSession in simp)
next
  case (OpUpgrade q fails)
  show ?thesis
    unfolding OpUpgrade
  proof (cases rule: upgrade_cases [of E q fails g])
    case (upgraded d auth)
    with inv show "gateway_inv (ge_primitives E) A (snd (gateway_step E (OpUpgrade q fails) g))"
      by (auto simp: gateway_inv_def app_ok_def session_ok_def sends_ok_def simp del: gateway_step.simps)
  qed (use inv in \<open>auto simp: gateway_inv_def app_ok_def simp del: gateway_step.simps\<close>)
qed (use request_inv [OF inv _ A] in \<open>simp_all del: gateway_step.simps\<close>)

section \<open>The components keep their own invariants\<close>

text \<open>Whatever the channels do, the live connections change by operations of their own only.\<close>

definition evolves :: "ConnectionRegistry \<Rightarrow> ConnectionRegistry \<Rightarrow> bool" where
  "evolves r r' \<longleftrightarrow> (\<exists>cops. r' = snd (run connection_step cops r))"

lemma evolves_refl [simp]: "evolves r r"
  unfolding evolves_def by (rule exI [of _ "[]"]) simp

lemma evolves_step: "evolves r (snd (connection_step cop r))"
  unfolding evolves_def by (rule exI [of _ "[cop]"]) simp

lemma evolves_trans: "evolves r r' \<Longrightarrow> evolves r' r'' \<Longrightarrow> evolves r r''"
  unfolding evolves_def using run_append_state [of connection_step] by metis

lemma evolves_inv: "evolves r r' \<Longrightarrow> connections_inv r \<Longrightarrow> connections_inv r'"
  by (auto simp: evolves_def connections.run_inv)

lemmas evolves_ops = evolves_step [of _ "CRegister d" for d, simplified]
  evolves_step [of _ "CUnregister d i" for d i, simplified]
  evolves_step [of _ "CTrySend d m" for d m, simplified]
  evolves_step [of _ "CActivate d i D" for d i D, simplified]

lemma effect_evolves: "effect P d rop s s' \<Longrightarrow> evolves (ap_connections s) (ap_connections s')"
  by (induction rule: effect.induct) (simp_all add: evolves_ops)

lemma end_evolves: "evolves (ap_connections s) (ap_connections (snd (session_end u i (session, s))))"
  by (simp add: session_end_def evolves_ops)

lemma or_end_evolves: "evolves (ap_connections s) (ap_connections (snd (or_end result i phase (session, s))))"
  by (simp add: or_end_def Let_def end_evolves)

lemma session_evolves: "evolves (ap_connections s) (ap_connections (snd (session_step event (session, s))))"
proof (cases "ss_phase session")
  case AwaitHello
  then show ?thesis
    by (cases event) (simp_all add: case_prod_beta evolves_ops)
next
  case (Registered i c)
  then show ?thesis
    by (cases event) (simp_all add: or_end_evolves)
next
  case (Greeted i c)
  then show ?thesis
    by (cases event) (simp_all add: case_prod_beta)
next
  case (SendingBacklog i c delivered backlog)
  have "evolves (ap_connections s) (ap_connections (snd (session_end False i
      (session, s\<lparr>ap_connections := snd (activate (ss_device session) i delivered (ap_connections s))\<rparr>))))"
    by (simp add: session_end_def evolves_ops)
  with SendingBacklog show ?thesis
    by (cases event; cases backlog) (simp_all add: case_prod_beta or_end_evolves evolves_ops)
next
  case (Live i c t)
  show ?thesis
  proof (cases event)
    case (Inbound inbound now instant)
    show ?thesis
    proof (cases inbound)
      case None
      with Live Inbound show ?thesis
        by (simp add: select_inbound_def end_evolves)
    next
      case (Some message)
      obtain r so' s' where h: "handle_authenticated_message now message (ss_device session)
          (ss_socket session, s) = (r, so', s')"
        by (metis prod_cases3)
      have "effect undefined (ss_device session) (message_op now message (ss_device session)) s s'"
        using handle_message_effect [OF h] by blast
      from evolves_trans [OF effect_evolves [OF this] end_evolves [of s' True i]] effect_evolves [OF this]
      show ?thesis
        using Live Inbound Some h by (simp add: select_inbound_def Let_def)
    qed
  next
    case (Outbound received)
    with Live show ?thesis
      by (simp add: select_outbound_def end_evolves or_end_evolves split: option.split)
  qed (use Live in \<open>simp_all add: end_evolves\<close>)
next
  case Ended
  then show ?thesis
    by (cases event) simp_all
qed

lemma step_evolves: "evolves (ap_connections (gw_app g)) (ap_connections (gw_app (snd (gateway_step E op g))))"
proof (cases "is_request op")
  case True
  note effect = request_effect [OF True, of E g]
  show ?thesis
  proof (cases "actor E op g")
    case None
    with effect show ?thesis
      by (auto simp: actor_effect_def)
  next
    case (Some d)
    with effect show ?thesis
      by (auto simp: actor_effect_def intro: effect_evolves)
  qed
next
  case False
  show ?thesis
  proof (cases op)
    case (OpUpgrade q fails)
    then show ?thesis
      by (cases rule: upgrade_cases [of E q fails g]) (auto simp del: gateway_step.simps)
  next
    case (OpSession n event)
    then show ?thesis
      using session_evolves [of "gw_app g" event "gw_sessions g ! n"] by (simp add: case_prod_beta)
  qed (use False in simp_all)
qed

definition components_inv :: "primitives \<Rightarrow> gateway \<Rightarrow> bool" where
  "components_inv P g \<longleftrightarrow>
     relay_inv (ap_relay (gw_app g)) \<and> registry_inv P (ap_prekeys (gw_app g)) \<and>
     connections_inv (ap_connections (gw_app g))"

lemma by_relay_inv: "relay_inv g \<Longrightarrow> relay_inv (by_relay rop g)"
  by (cases rop) (simp_all add: by_relay_def relay.step_inv)

interpretation gateway: machine "gateway_step E" "components_inv (ge_primitives E)" for E
proof
  fix g and op :: gateway_op
  assume inv: "components_inv (ge_primitives E) g"
  let ?s' = "gw_app (snd (gateway_step E op g))"
  have a: "authority (ge_primitives E) (actor E op g) (relay_op_of E op g) (gw_app g) ?s'"
    by (rule step_authority)
  have "registry_inv (ge_primitives E) (ap_prekeys ?s')"
    using a inv registry.step_inv [of "ge_primitives E" "ap_prekeys (gw_app g)"]
    by (auto simp: authority_def components_inv_def split: option.splits)
  moreover have "relay_inv (ap_relay ?s')"
    using a inv by (simp add: authority_def components_inv_def by_relay_inv)
  moreover have "connections_inv (ap_connections ?s')"
    using evolves_inv [OF step_evolves] inv by (simp add: components_inv_def)
  ultimately show "components_inv (ge_primitives E) (snd (gateway_step E op g))"
    by (simp add: components_inv_def)
qed

lemma start_components_inv: "components_inv P gateway_start"
  by (simp add: components_inv_def gateway_start_def AppState_default_def relay_inv_default
      registry_inv_default default_inv)

lemma run_relay_inv: "relay_inv (ap_relay (gw_app (snd (run (gateway_step E) ops gateway_start))))"
  using gateway.run_inv [OF start_components_inv, of E ops] by (simp add: components_inv_def)

section \<open>Runs\<close>

lemma start_inv: "gateway_inv P A gateway_start"
  by (auto simp: gateway_inv_def gateway_start_def AppState_default_def app_ok_def stored_in_def
      held_default relay_inv_default registry_inv_default default_inv carries_default)

text \<open>The messages accepted in a run, in order, and the operations of the relay it comes down to.\<close>

fun accepted_in :: "gateway_env \<Rightarrow> gateway_op list \<Rightarrow> gateway \<Rightarrow> EncryptedMessage list" where
  "accepted_in E [] g = []"
| "accepted_in E (op # ops) g =
     (case accepted_by E op g of None \<Rightarrow> [] | Some m \<Rightarrow> [m]) @
     accepted_in E ops (snd (gateway_step E op g))"

fun relay_trace :: "gateway_env \<Rightarrow> gateway_op list \<Rightarrow> gateway \<Rightarrow> relay_op list" where
  "relay_trace E [] g = []"
| "relay_trace E (op # ops) g =
     (case relay_op_of E op g of None \<Rightarrow> [] | Some rop \<Rightarrow> [rop]) @
     relay_trace E ops (snd (gateway_step E op g))"

text \<open>Along a run, sessions receive only what was sent on their channels.\<close>

fun channels_deliver :: "gateway_env \<Rightarrow> gateway_op list \<Rightarrow> gateway \<Rightarrow> bool" where
  "channels_deliver E [] g \<longleftrightarrow> True"
| "channels_deliver E (op # ops) g \<longleftrightarrow>
     op_channel_ok op g \<and> channels_deliver E ops (snd (gateway_step E op g))"

lemma run_accepted_inv:
  "gateway_inv (ge_primitives E) A g \<Longrightarrow> set (accepted_in E ops g) \<subseteq> A \<Longrightarrow>
     channels_deliver E ops g \<Longrightarrow>
     gateway_inv (ge_primitives E) A (snd (run (gateway_step E) ops g))"
proof (induction ops arbitrary: g)
  case (Cons op ops)
  have "gateway_inv (ge_primitives E) A (snd (gateway_step E op g))"
    using Cons.prems by (intro step_inv) (auto split: option.splits)
  with Cons show ?case by simp
qed simp

lemma run_start_inv:
  "channels_deliver E ops gateway_start \<Longrightarrow>
     gateway_inv (ge_primitives E) (set (accepted_in E ops gateway_start))
       (snd (run (gateway_step E) ops gateway_start))"
  by (rule run_accepted_inv [OF start_inv order_refl])

text \<open>A run of the gateway is, for the relay, a run of the relay.\<close>

lemma step_relay: "ap_relay (gw_app (snd (gateway_step E op g))) = by_relay (relay_op_of E op g) (ap_relay (gw_app g))"
  using step_authority [of E op g] by (simp add: authority_def)

lemma run_relay:
  "ap_relay (gw_app (snd (run (gateway_step E) ops g))) =
     snd (run relay_step (relay_trace E ops g) (ap_relay (gw_app g)))"
  by (induction ops arbitrary: g)
    (simp_all add: step_relay by_relay_def split: option.split)

lemma run_accepted:
  "granted accepted_message (relay_trace E ops g)
     (fst (run relay_step (relay_trace E ops g) (ap_relay (gw_app g)))) = accepted_in E ops g"
proof (induction ops arbitrary: g)
  case (Cons op ops)
  show ?case
    using Cons.IH [of "snd (gateway_step E op g)"]
    by (cases "relay_op_of E op g") (simp_all add: accepted_by_def step_relay by_relay_def split: option.split)
qed simp

lemma relay_start [simp]: "ap_relay (gw_app gateway_start) = RelayStore_default"
  by (simp add: gateway_start_def AppState_default_def)

lemma run_relay_start:
  "ap_relay (gw_app (snd (run (gateway_step E) ops gateway_start))) =
     snd (run relay_step (relay_trace E ops gateway_start) RelayStore_default)"
  by (simp add: run_relay)

text \<open>In whose name the relay's operations of a run are.\<close>

lemma actor_of_relay_op: "relay_op_of E op g = Some rop \<Longrightarrow> \<exists>d. actor E op g = Some d \<and> relay_by d rop"
  using step_authority [of E op g] by (auto simp: authority_def split: option.splits)

text \<open>A valid message is one the gateway can send and its peer can read.\<close>

lemma send_encrypted_valid:
  assumes "valid_message m"
  shows "\<exists>bs. send_encrypted m so = socket_send (WsBinary bs) so \<and> length bs \<le> WS_MAX_MESSAGE \<and>
    and_then (Frame_from_bytes bs) (\<lambda>f. and_then (Frame_kind f) (\<lambda>k. Ok (k, fr_payload f))) =
      Ok (EncryptedMessageFrame, message_wire m) \<and>
    EncryptedMessage_decode (message_wire m) = Ok m"
proof -
  have len: "length (message_wire m) \<le> MAX_FRAME" "message_wire m \<noteq> []"
    using assms length_message_wire [of m]
    by (auto simp: valid_message_def MAX_RATCHET_HEADER_def RELAY_MAX_CIPHERTEXT_def MAX_FRAME_def)
  then obtain f where f: "Frame_new EncryptedMessageFrame 0 (message_wire m) = Ok f"
    by (simp add: Frame_new_def)
  then obtain bs where built: "and_then (Frame_new EncryptedMessageFrame 0 (message_wire m)) Frame_to_bytes = Ok bs"
    using frame_new_round_trip [OF f] by (auto simp: f)
  moreover have "EncryptedMessage_encode m = Ok (message_wire m)"
    using assms by (simp add: EncryptedMessage_encode_eq valid_message_fits)
  moreover have "EncryptedMessage_decode (message_wire m) = Ok m"
    using assms by (intro EncryptedMessage_decode_wire) (auto simp: valid_message_fits valid_message_def)
  ultimately show ?thesis
    using built_frame [OF built] len(1)
    by (intro exI [of _ bs]) (simp add: send_encrypted_def send_frame_def WS_MAX_MESSAGE_def)
qed

lemma accepted_by_push:
  "relay_op_of E op g = Some (RPush now m) \<Longrightarrow> accepted_by E op g = Some m' \<Longrightarrow>
     fst (RelayStore_push now m (ap_relay (gw_app g))) = Accepted \<and> m' = m"
  by (cases "fst (RelayStore_push now m (ap_relay (gw_app g)))") (simp_all add: accepted_by_def)

lemma delivery_okD:
  assumes "delivery_ok A d sent"
  shows "case sent of
      WsBinary bs \<Rightarrow>
        (case and_then (Frame_from_bytes bs) (\<lambda>f. and_then (Frame_kind f) (\<lambda>k. Ok (k, fr_payload f))) of
           Ok (ClientHello, payload) \<Rightarrow> payload = bytes d
         | Ok (Pong, payload) \<Rightarrow> True
         | Ok (EncryptedMessageFrame, payload) \<Rightarrow>
             (case EncryptedMessage_decode payload of
                Ok m \<Rightarrow> m \<in> A \<and> em_recipient_device_id m = d
              | Err e \<Rightarrow> False)
         | _ \<Rightarrow> False)
    | WsPong bs \<Rightarrow> True
    | WsClose \<Rightarrow> True
    | _ \<Rightarrow> False"
  using assms by (cases sent) (simp_all add: delivery_ok_def)

end
