(* ===== verification/Sessions.thy ===== *)
theory Sessions
  imports Delivery
begin

text \<open>
  The life of a WebSocket session inside a run of the gateway: its set-up ends after a bounded
  number of steps, on a working socket it delivers the whole backlog and goes live, and the
  connection it registered does not outlive it.
\<close>

section \<open>Set-up\<close>

text \<open>What each phase of the set-up waits for, and how many steps of it can be left.\<close>

fun setup_due :: "ws_phase \<Rightarrow> session_event \<Rightarrow> bool" where
  "setup_due AwaitHello (FirstMessage first) \<longleftrightarrow> True"
| "setup_due (Registered i c) Greet \<longleftrightarrow> True"
| "setup_due (Greeted i c) (PullBacklog now) \<longleftrightarrow> True"
| "setup_due (SendingBacklog i c delivered backlog) (SendNext t) \<longleftrightarrow> True"
| "setup_due phase event \<longleftrightarrow> False"

fun setup_left :: "ws_phase \<Rightarrow> nat" where
  "setup_left AwaitHello = MAX_PER_DEVICE + 4"
| "setup_left (Registered i c) = MAX_PER_DEVICE + 3"
| "setup_left (Greeted i c) = MAX_PER_DEVICE + 2"
| "setup_left (SendingBacklog i c delivered backlog) = length backlog + 1"
| "setup_left (Live i c t) = 0"
| "setup_left Ended = 0"

text \<open>The connection a session holds.\<close>

fun phase_connection :: "ws_phase \<Rightarrow> (u64 \<times> nat) option" where
  "phase_connection AwaitHello = None"
| "phase_connection (Registered i c) = Some (i, c)"
| "phase_connection (Greeted i c) = Some (i, c)"
| "phase_connection (SendingBacklog i c delivered backlog) = Some (i, c)"
| "phase_connection (Live i c t) = Some (i, c)"
| "phase_connection Ended = None"

text \<open>The connection the registry holds for each device.\<close>

definition connection_of :: "ConnectionRegistry \<Rightarrow> 16 arr \<Rightarrow> (u64 \<times> nat) option" where
  "connection_of r d = map_option (\<lambda>state. (cs_id state, cs_sender state)) (cr_inner r d)"

lemma connection_of_ops [simp]:
  "connection_of (try_send d m r) = connection_of r"
  "connection_of (snd (activate d i D r)) = connection_of r"
  "connection_of (snd (register d r)) = (connection_of r)(d \<mapsto> (cr_next_id r, cr_made r))"
  by (auto simp: connection_of_def try_send_def activate_def fun_eq_iff split: option.split)

lemma connection_of_unregister:
  "connection_of (unregister d i r) d' =
     (if d' = d \<and> map_option fst (connection_of r d) = Some i then None else connection_of r d')"
  by (auto simp: connection_of_def unregister_def split: option.split)

lemma effect_connections: "effect P d rop s s' \<Longrightarrow> connection_of (ap_connections s') = connection_of (ap_connections s)"
  by (induction rule: effect.induct) simp_all

lemma ended_fields [simp]:
  "ss_phase (fst (session_end u i (session, s))) = Ended"
  "ap_connections (snd (session_end u i (session, s))) =
     (if u then unregister (ss_device session) i (ap_connections s) else ap_connections s)"
  by (simp_all add: session_end_def)

lemma or_end_cases:
  obtains (goes_on) "or_end result i phase (session, s) = (session\<lparr>ss_socket := snd result, ss_phase := phase\<rparr>, s)"
    "is_ok (fst result)"
  | (ends) "or_end result i phase (session, s) = session_end True i (session\<lparr>ss_socket := snd result\<rparr>, s)"
    "\<not> is_ok (fst result)"
  by (cases "is_ok (fst result)") (simp_all add: or_end_def)

text \<open>
  How one step of a session moves it on: it keeps its connection, or registers one, or ends and
  leaves none of its own behind.
\<close>

inductive moves :: "16 arr \<Rightarrow> ws_phase \<Rightarrow> (16 arr \<Rightarrow> (u64 \<times> nat) option) \<Rightarrow>
    ws_phase \<Rightarrow> (16 arr \<Rightarrow> (u64 \<times> nat) option) \<Rightarrow> bool" for d where
  keeps: "phase_connection p' = phase_connection p \<Longrightarrow> setup_left p' \<le> setup_left p \<Longrightarrow> moves d p r p' r"
| registers: "phase_connection p = None \<Longrightarrow> phase_connection p' = Some k \<Longrightarrow>
    setup_left p' \<le> setup_left p \<Longrightarrow> moves d p r p' (r(d \<mapsto> k))"
| ends: "phase_connection p = Some (i, c) \<Longrightarrow>
    (\<And>d'. r' d' = (if d' = d \<and> map_option fst (r d) = Some i then None else r d')) \<Longrightarrow>
    moves d p r Ended r'"

lemma moves_end:
  "phase_connection p = Some (i, c) \<Longrightarrow> connection_of (ap_connections s) = r \<Longrightarrow> ss_device session = d \<Longrightarrow>
   moves d p r (ss_phase (fst (session_end True i (session, s))))
     (connection_of (ap_connections (snd (session_end True i (session, s)))))"
  by (auto intro: moves.ends simp: connection_of_unregister)

lemma moves_or_end:
  assumes "phase_connection p = Some (i, c)" and "phase_connection phase = phase_connection p"
    and "setup_left phase \<le> setup_left p" and "connection_of (ap_connections s) = r" and "ss_device session = d"
  shows "moves d p r (ss_phase (fst (or_end result i phase (session, s))))
    (connection_of (ap_connections (snd (or_end result i phase (session, s)))))"
proof (cases rule: or_end_cases [of result i phase session s])
  case goes_on
  then show ?thesis
    using assms by (simp add: moves.keeps)
next
  case ends
  then show ?thesis
    using moves_end [OF assms(1,4), of "session\<lparr>ss_socket := snd result\<rparr>"] assms(5) by simp
qed

lemma pull_bounded: "relay_inv g \<Longrightarrow> length (fst (RelayStore_pull now d g)) \<le> MAX_PER_DEVICE"
  using live_queue_ok [of g d now] by (simp add: pull_held live_queue_held queue_ok_def)

lemma activate_refused:
  "fst (activate d i D r) \<longleftrightarrow> map_option fst (connection_of r d) = Some i"
  by (auto simp: activate_def connection_of_def split: option.split)

lemma session_moves:
  assumes "relay_inv (ap_relay s)"
  shows "moves (ss_device session) (ss_phase session) (connection_of (ap_connections s))
    (ss_phase (fst (session_step event (session, s))))
    (connection_of (ap_connections (snd (session_step event (session, s)))))"
proof (cases "ss_phase session")
  case AwaitHello
  then show ?thesis
    by (cases event) (auto simp: case_prod_beta intro: moves.intros)
next
  case (Registered i c)
  then show ?thesis
    by (cases event) (auto intro!: moves_or_end intro: moves.keeps)
next
  case (Greeted i c)
  then show ?thesis
    using pull_bounded [OF assms]
    by (cases event) (auto simp: case_prod_beta intro!: moves.keeps le_SucI)
next
  case (SendingBacklog i c delivered backlog)
  show ?thesis
  proof (cases "\<exists>t. event = SendNext t \<and> backlog = []")
    case True
    let ?active = "activate (ss_device session) i delivered (ap_connections s)"
    show ?thesis
    proof (cases "fst ?active")
      case False
      then have "map_option fst (connection_of (ap_connections s) (ss_device session)) \<noteq> Some i"
        by (simp add: activate_refused)
      then have "moves (ss_device session) (SendingBacklog i c delivered []) (connection_of (ap_connections s))
          Ended (connection_of (ap_connections s))"
        by (intro moves.ends [of _ i c]) simp_all
      with True False SendingBacklog show ?thesis
        by (auto simp: case_prod_beta)
    qed (use True SendingBacklog in \<open>auto simp: case_prod_beta moves.keeps\<close>)
  next
    case False
    then show ?thesis
      using SendingBacklog
      by (cases event; cases backlog) (auto intro!: moves_or_end intro: moves.keeps)
  qed
next
  case (Live i c t)
  show ?thesis
  proof (cases event)
    case (Inbound inbound now instant)
    show ?thesis
    proof (cases inbound)
      case None
      with Live Inbound show ?thesis
        by (simp add: select_inbound_def moves_end del: ended_fields)
    next
      case (Some message)
      obtain r so' s' where h: "handle_authenticated_message now message (ss_device session)
          (ss_socket session, s) = (r, so', s')"
        by (metis prod_cases3)
      have e: "effect undefined (ss_device session) (message_op now message (ss_device session)) s s'"
        using handle_message_effect [OF h] by blast
      show ?thesis
        using Live Inbound Some h effect_connections [OF e]
        by (auto simp: select_inbound_def Let_def moves.keeps intro: moves_end simp del: ended_fields)
    qed
  next
    case (Outbound received)
    with Live show ?thesis
      by (auto simp: select_outbound_def moves_end split: option.split intro!: moves_or_end simp del: ended_fields)
  next
    case (IdleTimeout instant)
    with Live show ?thesis
      by (auto simp: moves.keeps intro!: moves_end simp del: ended_fields)
  qed (use Live in \<open>simp_all add: moves.keeps\<close>)
next
  case Ended
  then show ?thesis
    by (cases event) (simp_all add: moves.keeps)
qed

lemma moves_setup: "moves d p r p' r' \<Longrightarrow> setup_left p' \<le> setup_left p"
  by (induction rule: moves.induct) simp_all

lemma or_end_setup:
  "setup_left phase < n \<Longrightarrow> setup_left (ss_phase (fst (or_end result i phase (session, s)))) < n"
  by (cases rule: or_end_cases [of result i phase session s]) simp_all

lemma due_step:
  assumes "relay_inv (ap_relay s)" and "setup_due (ss_phase session) event"
  shows "setup_left (ss_phase (fst (session_step event (session, s)))) < setup_left (ss_phase session)"
proof (cases "ss_phase session")
  case AwaitHello
  with assms(2) show ?thesis
    by (cases event) (auto simp: case_prod_beta)
next
  case (Registered i c)
  with assms(2) show ?thesis
    by (cases event) (simp_all add: or_end_setup)
next
  case (Greeted i c)
  with assms(2) show ?thesis
    using pull_bounded [OF assms(1)]
    by (cases event) (auto simp: case_prod_beta le_imp_less_Suc)
next
  case (SendingBacklog i c delivered backlog)
  with assms(2) show ?thesis
    by (cases event; cases backlog) (auto simp: case_prod_beta or_end_setup)
qed (use assms(2) in simp_all)

section \<open>Along a run\<close>

text \<open>The steps of the set-up of session \<open>n\<close>.\<close>

definition setup_op :: "nat \<Rightarrow> gateway_op \<Rightarrow> gateway \<Rightarrow> bool" where
  "setup_op n op g \<longleftrightarrow>
     (case op of
        OpSession m event \<Rightarrow>
          m = n \<and> n < length (gw_sessions g) \<and> setup_due (ss_phase (gw_sessions g ! n)) event
      | _ \<Rightarrow> False)"

fun setup_steps :: "gateway_env \<Rightarrow> nat \<Rightarrow> gateway_op list \<Rightarrow> gateway \<Rightarrow> nat" where
  "setup_steps E n [] g = 0"
| "setup_steps E n (op # ops) g =
     (if setup_op n op g then 1 else 0) + setup_steps E n ops (snd (gateway_step E op g))"

definition left_of :: "nat \<Rightarrow> gateway \<Rightarrow> nat" where
  "left_of n g =
     (if n < length (gw_sessions g) then setup_left (ss_phase (gw_sessions g ! n)) else MAX_PER_DEVICE + 4)"

lemma session_op:
  "n < length (gw_sessions g) \<Longrightarrow>
   gw_sessions (snd (gateway_step E (OpSession n event) g)) =
     (gw_sessions g)[n := fst (session_step event (gw_sessions g ! n, gw_app g))] \<and>
   gw_app (snd (gateway_step E (OpSession n event) g)) =
     snd (session_step event (gw_sessions g ! n, gw_app g))"
  by (simp add: case_prod_beta)

lemma request_left: "is_request op \<Longrightarrow> left_of n (snd (gateway_step E op g)) = left_of n g"
  using request_effect [of op E g] by (simp add: left_of_def)

lemma step_left:
  assumes "relay_inv (ap_relay (gw_app g))"
  shows "(if setup_op n op g then 1 else 0) + left_of n (snd (gateway_step E op g)) \<le> left_of n g"
proof (cases op)
  case (OpUpgrade q fails)
  then show ?thesis
    by (cases rule: upgrade_cases [of E q fails g])
      (auto simp: setup_op_def left_of_def nth_append not_less less_Suc_eq simp del: gateway_step.simps)
next
  case (OpSession m event)
  show ?thesis
  proof (cases "m < length (gw_sessions g)")
    case True
    show ?thesis
      using due_step [OF assms, of "gw_sessions g ! m" event]
        moves_setup [OF session_moves [OF assms, of "gw_sessions g ! m" event]]
        session_op [OF True, of E event] True
      unfolding OpSession
      by (cases "m = n")
        (auto simp: setup_op_def left_of_def simp del: gateway_step.simps session_step.simps)
  qed (simp add: OpSession setup_op_def)
qed (simp_all add: request_left setup_op_def del: gateway_step.simps)

lemma run_left:
  "components_inv (ge_primitives E) g \<Longrightarrow>
     setup_steps E n ops g + left_of n (snd (run (gateway_step E) ops g)) \<le> left_of n g"
proof (induction ops arbitrary: g)
  case (Cons op ops)
  have "relay_inv (ap_relay (gw_app g))"
    using Cons.prems by (simp add: components_inv_def)
  from step_left [OF this, of n op E] Cons.IH [OF gateway.step_inv [OF Cons.prems, of op]]
  show ?case by simp
qed simp

text \<open>Every connection in the registry is held by a session of its device.\<close>

definition holds_connection :: "16 arr \<Rightarrow> u64 \<times> nat \<Rightarrow> ws_session \<Rightarrow> bool" where
  "holds_connection d k session \<longleftrightarrow> ss_device session = d \<and> phase_connection (ss_phase session) = Some k"

definition no_leaks :: "gateway \<Rightarrow> bool" where
  "no_leaks g \<longleftrightarrow>
     (\<forall>d k. connection_of (ap_connections (gw_app g)) d = Some k \<longrightarrow>
        (\<exists>n < length (gw_sessions g). holds_connection d k (gw_sessions g ! n)))"

lemma moves_held:
  assumes "moves d p r p' r'" and n: "n < length sessions" "ss_device (sessions ! n) = d" "ss_phase (sessions ! n) = p"
    and session': "ss_device session' = d" "ss_phase session' = p'"
    and held: "\<And>d' k. r d' = Some k \<Longrightarrow> \<exists>m < length sessions. holds_connection d' k (sessions ! m)"
    and k: "r' d' = Some k"
  shows "\<exists>m < length sessions. holds_connection d' k (sessions[n := session'] ! m)"
proof -
  have here: ?thesis if "d' = d" "phase_connection p' = Some k"
    using n session' that by (intro exI [of _ n]) (simp add: holds_connection_def)
  have there: ?thesis if "r d' = Some k" "d' = d \<Longrightarrow> phase_connection p = Some k \<Longrightarrow> phase_connection p' = Some k"
  proof -
    from held [OF that(1)] obtain m where "m < length sessions" "holds_connection d' k (sessions ! m)"
      by blast
    then show ?thesis
      using that(2) n session' by (intro exI [of _ m]) (auto simp: holds_connection_def nth_list_update)
  qed
  from assms(1) show ?thesis
  proof cases
    case keeps
    with k show ?thesis by (intro there) simp_all
  next
    case (registers k')
    show ?thesis
    proof (cases "d' = d")
      case True
      with registers k show ?thesis by (intro here) simp_all
    next
      case False
      with registers k show ?thesis by (intro there) simp_all
    qed
  next
    case (ends i c)
    with k show ?thesis
      by (intro there) (auto split: if_splits)
  qed
qed

lemma step_no_leaks:
  assumes "relay_inv (ap_relay (gw_app g))" and leaks: "no_leaks g"
  shows "no_leaks (snd (gateway_step E op g))"
proof (cases "is_request op")
  case True
  note effect = request_effect [OF True, of E g]
  have "connection_of (ap_connections (gw_app (snd (gateway_step E op g)))) = connection_of (ap_connections (gw_app g))"
    using effect by (cases "actor E op g") (auto simp: actor_effect_def effect_connections)
  with effect leaks show ?thesis
    by (simp add: no_leaks_def)
next
  case False
  show ?thesis
  proof (cases op)
    case (OpUpgrade q fails)
    show ?thesis
      unfolding OpUpgrade
    proof (cases rule: upgrade_cases [of E q fails g])
      case (upgraded d auth)
      with leaks show "no_leaks (snd (gateway_step E (OpUpgrade q fails) g))"
        by (fastforce simp: no_leaks_def nth_append simp del: gateway_step.simps)
    qed (use leaks in \<open>simp add: no_leaks_def del: gateway_step.simps\<close>)
  next
    case (OpSession n event)
    show ?thesis
    proof (cases "n < length (gw_sessions g)")
      case True
      let ?session = "gw_sessions g ! n"
      have device: "ss_device (fst (session_step event (?session, gw_app g))) = ss_device ?session"
        using session_step_effect [of event ?session "gw_app g"] by blast
      have held: "\<exists>m < length (gw_sessions g). holds_connection d k (gw_sessions g ! m)"
        if "connection_of (ap_connections (gw_app g)) d = Some k" for d k
        using leaks that unfolding no_leaks_def by blast
      show ?thesis
        unfolding OpSession no_leaks_def session_op [OF True, THEN conjunct1] session_op [OF True, THEN conjunct2]
          length_list_update
        by (intro allI impI moves_held [OF session_moves [OF assms(1), of ?session event] True refl refl device refl])
          (rule held)
    qed (use leaks OpSession in simp)
  qed (use False in simp_all)
qed

interpretation sessions: machine "gateway_step E" "\<lambda>g. components_inv (ge_primitives E) g \<and> no_leaks g" for E
proof
  fix g and op :: gateway_op
  assume inv: "components_inv (ge_primitives E) g \<and> no_leaks g"
  then have "relay_inv (ap_relay (gw_app g))"
    by (simp add: components_inv_def)
  with inv show "components_inv (ge_primitives E) (snd (gateway_step E op g)) \<and>
      no_leaks (snd (gateway_step E op g))"
    by (simp add: step_no_leaks gateway.step_inv)
qed

lemma start_no_leaks: "no_leaks gateway_start"
  by (simp add: no_leaks_def connection_of_def gateway_start_def AppState_default_def ConnectionRegistry_default_def)

section \<open>On a working socket\<close>

text \<open>What the peer reads in a WebSocket message: the kind and payload of a frame, and a message.\<close>

definition read_frame :: "ws_message \<Rightarrow> (FrameKind \<times> u8 list) option" where
  "read_frame w =
     (case w of
        WsBinary bs \<Rightarrow>
          (case and_then (Frame_from_bytes bs) (\<lambda>f. and_then (Frame_kind f) (\<lambda>k. Ok (k, fr_payload f))) of
             Ok (kind, payload) \<Rightarrow> Some (kind, payload)
           | Err e \<Rightarrow> None)
      | _ \<Rightarrow> None)"

definition read_message :: "ws_message \<Rightarrow> EncryptedMessage option" where
  "read_message w =
     (case read_frame w of
        Some (EncryptedMessageFrame, payload) \<Rightarrow>
          (case EncryptedMessage_decode payload of Ok m \<Rightarrow> Some m | Err e \<Rightarrow> None)
      | _ \<Rightarrow> None)"

definition works :: "socket \<Rightarrow> bool" where
  "works so \<longleftrightarrow> so_fails so = (\<lambda>_. False)"

lemma works_send:
  assumes "works so"
  obtains so' where "socket_send w so = (Ok (), so')" "works so'" "so_sent so' = so_sent so @ [w]"
  using assms that by (simp add: socket_send_def works_def)

lemma works_hello:
  assumes "works so"
  obtains w so' where "send_hello d so = (Ok (), so')" "works so'" "so_sent so' = so_sent so @ [w]"
    "read_frame w = Some (ClientHello, bytes d)"
proof -
  have "length (bytes d) = 16"
    by simp
  then have "bytes d \<noteq> []" "length (bytes d) \<le> MAX_FRAME"
    by (auto simp: MAX_FRAME_def simp del: length_bytes)
  then obtain f where "Frame_new ClientHello 1 (bytes d) = Ok f"
    by (simp add: Frame_new_def)
  then obtain bs where bs: "and_then (Frame_new ClientHello 1 (bytes d)) Frame_to_bytes = Ok bs"
    using frame_new_round_trip by fastforce
  obtain so' where "socket_send (WsBinary bs) so = (Ok (), so')" "works so'" "so_sent so' = so_sent so @ [WsBinary bs]"
    using assms by (rule works_send)
  with bs built_frame [OF bs] show thesis
    by (intro that [of so' "WsBinary bs"]) (simp_all add: send_hello_def send_frame_def read_frame_def)
qed

lemma works_encrypted:
  assumes "works so" and "valid_message m"
  obtains w so' where "send_encrypted m so = (Ok (), so')" "works so'" "so_sent so' = so_sent so @ [w]"
    "read_message w = Some m"
proof -
  obtain bs where bs: "send_encrypted m so = socket_send (WsBinary bs) so"
      "and_then (Frame_from_bytes bs) (\<lambda>f. and_then (Frame_kind f) (\<lambda>k. Ok (k, fr_payload f))) =
         Ok (EncryptedMessageFrame, message_wire m)" "EncryptedMessage_decode (message_wire m) = Ok m"
    using send_encrypted_valid [OF assms(2), of so] by blast
  obtain so' where "socket_send (WsBinary bs) so = (Ok (), so')" "works so'" "so_sent so' = so_sent so @ [WsBinary bs]"
    using assms(1) by (rule works_send)
  with bs show thesis
    by (intro that [of so' "WsBinary bs"]) (simp_all add: read_message_def read_frame_def)
qed

lemma or_end_Ok: "fst result = Ok () \<Longrightarrow>
  or_end result i phase (session, s) = (session\<lparr>ss_socket := snd result, ss_phase := phase\<rparr>, s)"
  by (simp add: or_end_def)

text \<open>Sending a backlog, one step per message.\<close>

lemma backlog_sent:
  "list_all valid_message ms \<Longrightarrow> works (ss_socket session) \<Longrightarrow>
   ss_phase session = SendingBacklog i c delivered ms \<Longrightarrow>
   \<exists>so frames. fold session_step (replicate (length ms) (SendNext t)) (session, s) =
      (session\<lparr>ss_socket := so, ss_phase := SendingBacklog i c delivered []\<rparr>, s) \<and>
      works so \<and> so_sent so = so_sent (ss_socket session) @ frames \<and> map read_message frames = map Some ms"
proof (induction ms arbitrary: session)
  case Nil
  then show ?case
    by (intro exI [of _ "ss_socket session"] exI [of _ "[]"]) simp
next
  case (Cons m ms)
  obtain w so' where w: "send_encrypted m (ss_socket session) = (Ok (), so')" "works so'"
      "so_sent so' = so_sent (ss_socket session) @ [w]" "read_message w = Some m"
    using works_encrypted [of "ss_socket session" m] Cons.prems by (metis list.pred_inject(2))
  let ?session = "session\<lparr>ss_socket := so', ss_phase := SendingBacklog i c delivered ms\<rparr>"
  have step: "session_step (SendNext t) (session, s) = (?session, s)"
    using Cons.prems w(1) by (simp add: or_end_Ok)
  obtain so frames where "fold session_step (replicate (length ms) (SendNext t)) (?session, s) =
      (?session\<lparr>ss_socket := so, ss_phase := SendingBacklog i c delivered []\<rparr>, s)"
      "works so" "so_sent so = so_sent so' @ frames" "map read_message frames = map Some ms"
    using Cons.IH [of ?session] Cons.prems w by auto
  then show ?case
    using step w(3,4) by (intro exI [of _ so] exI [of _ "w # frames"]) simp
qed

text \<open>A session that is left alone sends its backlog and goes live.\<close>

lemma session_goes_live:
  assumes inv: "relay_inv (ap_relay s)"
    and "ss_phase session = AwaitHello" and "works (ss_socket session)"
    and "ws_accepts_hello (ss_device session) (Some first)"
    and "fst (RelayStore_pull now (ss_device session) (ap_relay s)) = backlog"
    and "fold session_step ([FirstMessage (Some first), Greet, PullBacklog now] @
           replicate (length backlog + 1) (SendNext t)) (session, s) = (session', s')"
  shows "\<exists>i c hello frames.
    ss_phase session' = Live i c t \<and>
    cr_inner (ap_connections s') (ss_device session) =
      Some \<lparr>cs_id = i, cs_sender = c, cs_ready = True, cs_pending = []\<rparr> \<and>
    so_sent (ss_socket session') = so_sent (ss_socket session) @ hello # frames \<and>
    read_frame hello = Some (ClientHello, bytes (ss_device session)) \<and>
    map read_message frames = map Some backlog"
proof -
  let ?d = "ss_device session"
  obtain i c r where reg: "register ?d (ap_connections s) = ((i, c), r)"
    by (metis prod.exhaust)
  obtain hello so where hello: "send_hello ?d (ss_socket session) = (Ok (), so)" "works so"
      "so_sent so = so_sent (ss_socket session) @ [hello]" "read_frame hello = Some (ClientHello, bytes ?d)"
    using assms(3) by (rule works_hello)
  obtain relay where pull: "RelayStore_pull now ?d (ap_relay s) = (backlog, relay)"
    using assms(5) by (metis prod.collapse)
  let ?D = "em_message_id ` set backlog"
  let ?session = "session\<lparr>ss_socket := so, ss_phase := SendingBacklog i c ?D backlog\<rparr>"
  let ?s = "s\<lparr>ap_connections := r, ap_relay := relay\<rparr>"
  have begun: "fold session_step [FirstMessage (Some first), Greet, PullBacklog now] (session, s) = (?session, ?s)"
    using assms(2,4) reg hello(1) pull by (simp add: or_end_Ok)
  have "list_all valid_message backlog"
    using live_queue_ok [OF inv, of ?d now] pull_held [OF inv, of now ?d] pull
    by (auto simp: list_all_iff queue_ok_def live_queue_held)
  then obtain so' frames where sent: "fold session_step (replicate (length backlog) (SendNext t)) (?session, ?s) =
        (?session\<lparr>ss_socket := so', ss_phase := SendingBacklog i c ?D []\<rparr>, ?s)"
      "so_sent so' = so_sent so @ frames" "map read_message frames = map Some backlog"
    using backlog_sent [of backlog ?session i c ?D t ?s] hello(2) by auto
  have waiting: "cr_inner r ?d = Some \<lparr>cs_id = i, cs_sender = c, cs_ready = False, cs_pending = []\<rparr>"
    using register_fields(1,4) [of ?d "ap_connections s"] reg by simp
  have events: "[FirstMessage (Some first), Greet, PullBacklog now] @ replicate (length backlog + 1) (SendNext t) =
      [FirstMessage (Some first), Greet, PullBacklog now] @ replicate (length backlog) (SendNext t) @ [SendNext t]"
    by (simp add: replicate_append_same)
  have "(session', s') = session_step (SendNext t) (?session\<lparr>ss_socket := so', ss_phase := SendingBacklog i c ?D []\<rparr>, ?s)"
    using assms(6) unfolding events fold_append o_apply begun sent(1) by simp
  also have "\<dots> = (?session\<lparr>ss_socket := so', ss_phase := Live i c t\<rparr>,
      ?s\<lparr>ap_connections := snd (activate ?d i ?D r)\<rparr>)"
    using waiting by (simp add: activate_def)
  finally show ?thesis
    using waiting hello(3,4) sent(2,3)
    by (intro exI [of _ i] exI [of _ c] exI [of _ hello] exI [of _ frames]) (simp add: activate_def)
qed

section \<open>A sample run\<close>

text \<open>Requests of one device that sends a message, first to another device and then to itself.\<close>

definition sample_env :: gateway_env where
  "sample_env =
     \<lparr>ge_primitives = sample_primitives, ge_sha256 = (\<lambda>_. fill 1),
      ge_json_message = (\<lambda>_. Some (EncryptedMessage_new (fill 1) (fill 2) (fill 1) (fill 4) [5] [6] 1000)),
      ge_json_publication = (\<lambda>_. None), ge_json_claim = (\<lambda>_. None)\<rparr>"

definition sample_post :: http_request where
  "sample_post = \<lparr>hq_headers = sample_headers, hq_body = [], hq_auth_now_ms = 1000, hq_instant = 7,
                  hq_now_ms = 1000\<rparr>"

lemma sample_authorize:
  "fst (authorize sample_env sample_post method path body (gw_app gateway_start)) = Ok (fill 1)"
  using sample_authenticate_default [of "\<lparr>aq_now_ms = 1000, aq_instant = 7, aq_headers = sample_headers,
      aq_method = method, aq_path = path, aq_body = body\<rparr>"]
  by (simp add: authorize_def sample_env_def sample_post_def gateway_start_def AppState_default_def
      case_prod_beta)

lemma sample_accepted:
  "relay_op_of sample_env (OpEnqueue sample_post) gateway_start =
     Some (RPush 1000 (EncryptedMessage_new (fill 1) (fill 2) (fill 1) (fill 4) [5] [6] 1000)) \<and>
   accepted_by sample_env (OpEnqueue sample_post) gateway_start =
     Some (EncryptedMessage_new (fill 1) (fill 2) (fill 1) (fill 4) [5] [6] 1000)"
proof -
  let ?m = "EncryptedMessage_new (fill 1) (fill 2) (fill 1) (fill 4) [5] [6] 1000"
  have "em_sender_device_id ?m = fill 1"
    by (simp add: EncryptedMessage_new_def)
  then have op: "relay_op_of sample_env (OpEnqueue sample_post) gateway_start = Some (RPush 1000 ?m)"
    using sample_authorize [of "''POST''" "''/v1/relay''"]
    by (simp add: if_device_def) (simp add: sample_env_def sample_post_def)
  have "fst (RelayStore_push 1000 ?m RelayStore_default) = Accepted"
    by (simp add: RelayStore_push_def EncryptedMessage_new_def valid_message_def
        MAX_RATCHET_HEADER_def RELAY_MAX_CIPHERTEXT_def RelayStore_default_def push_within_limits_def
        MAX_TOTAL_MESSAGES_def MAX_TOTAL_BYTES_def message_size_def EncryptedMessage_encode_def
        u32_try_from_def u32_MAX_nat_def usize_checked_add_def usize_MAX_def usize_saturating_add_def
        u64_saturating_sub_def u64_saturating_add_def RELAY_MAX_CLOCK_SKEW_MS_def Let_def)
  with op show ?thesis
    by (simp add: accepted_by_def del: relay_op_of.simps)
qed

definition sample_note :: EncryptedMessage where
  "sample_note = EncryptedMessage_new (fill 9) (fill 2) (fill 1) (fill 1) [5] [6] 1000"

lemma sample_note_fields [simp]:
  "em_sender_device_id sample_note = fill 1" "em_recipient_device_id sample_note = fill 1"
  "em_message_id sample_note = fill 9"
  by (simp_all add: sample_note_def EncryptedMessage_new_def)

lemma sample_note_valid: "valid_message sample_note"
  by (simp add: sample_note_def EncryptedMessage_new_def valid_message_def
      MAX_RATCHET_HEADER_def RELAY_MAX_CIPHERTEXT_def)

lemma sample_note_accepted: "fst (RelayStore_push 1000 sample_note RelayStore_default) = Accepted"
  by (simp add: RelayStore_push_def sample_note_def EncryptedMessage_new_def valid_message_def
      MAX_RATCHET_HEADER_def RELAY_MAX_CIPHERTEXT_def RelayStore_default_def push_within_limits_def
      MAX_TOTAL_MESSAGES_def MAX_TOTAL_BYTES_def message_size_def EncryptedMessage_encode_def
      u32_try_from_def u32_MAX_nat_def usize_checked_add_def usize_MAX_def usize_saturating_add_def
      u64_saturating_sub_def u64_saturating_add_def RELAY_MAX_CLOCK_SKEW_MS_def Let_def)

definition sample_wire :: "FrameKind \<Rightarrow> u8 list \<Rightarrow> u8 list" where
  "sample_wire kind payload =
     (case and_then (Frame_new kind 0 payload) Frame_to_bytes of Ok bs \<Rightarrow> bs | Err e \<Rightarrow> [])"

lemma sample_wire_read:
  assumes "payload \<noteq> []" and "length payload \<le> MAX_FRAME"
  shows "and_then (Frame_from_bytes (sample_wire kind payload))
      (\<lambda>f. and_then (Frame_kind f) (\<lambda>k. Ok (k, fr_payload f))) = Ok (kind, payload) \<and>
    length (sample_wire kind payload) \<le> WS_MAX_MESSAGE"
proof -
  obtain f where f: "Frame_new kind 0 payload = Ok f"
    using assms by (simp add: Frame_new_def)
  then obtain bs where bs: "and_then (Frame_new kind 0 payload) Frame_to_bytes = Ok bs"
    using frame_new_round_trip by fastforce
  with built_frame [OF bs] assms show ?thesis
    by (simp add: sample_wire_def WS_MAX_MESSAGE_def)
qed

lemma fill_payload: "bytes (fill b :: 16 arr) \<noteq> []" "length (bytes (fill b :: 16 arr)) \<le> MAX_FRAME"
  using length_bytes [of "fill b :: 16 arr"] by (auto simp: MAX_FRAME_def simp del: length_bytes)

definition sample_hello :: "16 arr \<Rightarrow> ws_message" where
  "sample_hello d = WsBinary (sample_wire ClientHello (bytes d))"

lemma sample_hello_accepted: "ws_accepts_hello (fill b) (Some (sample_hello (fill b)))"
  using sample_wire_read [OF fill_payload, of ClientHello b]
  by (auto simp: sample_hello_def ws_accepts_hello_def and_then_Ok)

lemma run_one_session:
  "gw_sessions g = [session] \<Longrightarrow>
   snd (run (gateway_step E) (map (OpSession 0) events) g) =
     g\<lparr>gw_app := snd (fold session_step events (session, gw_app g)),
       gw_sessions := [fst (fold session_step events (session, gw_app g))]\<rparr>"
proof (induction events arbitrary: g session)
  case (Cons event events)
  then show ?case
    by (simp add: case_prod_beta del: session_step.simps)
qed simp

lemma sample_upgraded:
  obtains auth where "snd (gateway_step sample_env (OpUpgrade sample_post (\<lambda>_. False)) gateway_start) =
    \<lparr>gw_app = AppState_default\<lparr>ap_auth := auth\<rparr>,
     gw_sessions = [\<lparr>ss_device = fill 1, ss_socket = \<lparr>so_sent = [], so_attempts = 0, so_fails = (\<lambda>_. False)\<rparr>,
       ss_phase = AwaitHello\<rparr>]\<rparr>"
proof (cases rule: upgrade_cases [of sample_env sample_post "\<lambda>_. False" gateway_start])
  case (denied auth)
  then show thesis
    using sample_authorize [of "''GET''" "''/v1/ws''" "[]"] by (simp add: actor_def)
next
  case (upgraded d auth)
  moreover have "d = fill 1"
    using upgraded(1) sample_authorize [of "''GET''" "''/v1/ws''" "[]"] by (simp add: actor_def)
  ultimately show thesis
    by (intro that [of auth]) (simp add: gateway_start_def del: gateway_step.simps)
qed

lemma sample_note_handled:
  assumes "ap_relay s = RelayStore_default"
  obtains relay where "handle_authenticated_message 1000
      (WsBinary (sample_wire EncryptedMessageFrame (message_wire sample_note))) (fill 1) (so, s) =
    (Ok True, so, s\<lparr>ap_relay := relay, ap_connections := try_send (fill 1) sample_note (ap_connections s)\<rparr>)"
proof -
  have "message_wire sample_note \<noteq> []" "length (message_wire sample_note) \<le> MAX_FRAME"
    using length_message_wire [of sample_note] sample_note_valid
    by (auto simp: valid_message_def MAX_RATCHET_HEADER_def RELAY_MAX_CIPHERTEXT_def MAX_FRAME_def)
  note wire = sample_wire_read [OF this, of EncryptedMessageFrame]
  have "EncryptedMessage_decode (message_wire sample_note) = Ok sample_note"
    using sample_note_valid by (intro EncryptedMessage_decode_wire) (auto simp: valid_message_fits valid_message_def)
  with wire assms sample_note_accepted show thesis
    by (intro that [of "snd (RelayStore_push 1000 sample_note RelayStore_default)"])
      (auto simp: handle_authenticated_message_def handle_frame_def and_then_Ok Let_def case_prod_beta)
qed

definition sample_events :: "session_event list" where
  "sample_events = [FirstMessage (Some (sample_hello (fill 1))), Greet, PullBacklog 1000, SendNext 7,
     Inbound (Some (WsBinary (sample_wire EncryptedMessageFrame (message_wire sample_note)))) 1000 8]"

lemma sample_session:
  assumes "works so" and "ap_relay s = RelayStore_default" and "ap_connections s = ConnectionRegistry_default"
    and "fold session_step sample_events (\<lparr>ss_device = fill 1, ss_socket = so, ss_phase = AwaitHello\<rparr>, s) =
      (session', s')"
  shows "ss_phase session' = Live 1 0 8 \<and> cr_sends (ap_connections s') 0 = [sample_note]"
proof -
  obtain hello so' where hello: "send_hello (fill 1) so = (Ok (), so')"
    using assms(1) by (rule works_hello)
  have reg: "cr_next_id (ap_connections s) = 1" "cr_made (ap_connections s) = 0"
    by (simp_all add: assms(3) ConnectionRegistry_default_def)
  have pull: "RelayStore_pull 1000 (fill 1) RelayStore_default = ([], RelayStore_default)"
    by (simp add: RelayStore_pull_def RelayStore_default_def)
  let ?conns = "snd (activate (fill 1) 1 {} (snd (register (fill 1) (ap_connections s))))"
  have ready: "cr_inner ?conns (fill 1) = Some \<lparr>cs_id = 1, cs_sender = 0, cs_ready = True, cs_pending = []\<rparr>"
    "cr_sends ?conns 0 = []" "fst (activate (fill 1) 1 {} (snd (register (fill 1) (ap_connections s))))"
    by (simp_all add: assms(3) activate_def register_def Let_def ConnectionRegistry_default_def)
  let ?s = "s\<lparr>ap_relay := RelayStore_default, ap_connections := ?conns\<rparr>"
  have live: "fold session_step [FirstMessage (Some (sample_hello (fill 1))), Greet, PullBacklog 1000, SendNext 7]
      (\<lparr>ss_device = fill 1, ss_socket = so, ss_phase = AwaitHello\<rparr>, s) =
    (\<lparr>ss_device = fill 1, ss_socket = so', ss_phase = Live 1 0 7\<rparr>, ?s)"
    using sample_hello_accepted hello reg pull ready(3) assms(2)
    by (simp add: or_end_Ok case_prod_beta)
  obtain relay where "handle_authenticated_message 1000
      (WsBinary (sample_wire EncryptedMessageFrame (message_wire sample_note))) (fill 1) (so', ?s) =
    (Ok True, so', ?s\<lparr>ap_relay := relay, ap_connections := try_send (fill 1) sample_note (ap_connections ?s)\<rparr>)"
    by (rule sample_note_handled [of ?s so']) simp
  then have "session_step (Inbound (Some (WsBinary (sample_wire EncryptedMessageFrame (message_wire sample_note)))) 1000 8)
      (\<lparr>ss_device = fill 1, ss_socket = so', ss_phase = Live 1 0 7\<rparr>, ?s) =
    (\<lparr>ss_device = fill 1, ss_socket = so', ss_phase = Live 1 0 8\<rparr>,
     ?s\<lparr>ap_relay := relay, ap_connections := try_send (fill 1) sample_note ?conns\<rparr>)"
    by (simp add: select_inbound_def)
  moreover have "cr_sends (try_send (fill 1) sample_note ?conns) 0 = [sample_note]"
    using ready by (simp add: try_send_def sender_try_send_def)
  ultimately show ?thesis
    using assms(4) live by (auto simp: sample_events_def simp del: session_step.simps)
qed

lemma channels_deliver_append:
  "channels_deliver E (ops @ ops') g \<longleftrightarrow>
     channels_deliver E ops g \<and> channels_deliver E ops' (snd (run (gateway_step E) ops g))"
  by (induction ops arbitrary: g) simp_all

lemma nothing_received:
  "list_all (\<lambda>op. case op of OpSession n (Outbound (Some m)) \<Rightarrow> False | _ \<Rightarrow> True) ops \<Longrightarrow> channels_deliver E ops g"
proof (induction ops arbitrary: g)
  case (Cons op ops)
  have "op_channel_ok op g" if op: "op = OpSession n event" for n event g
  proof -
    have "phase_received (ss_phase (gw_sessions g ! n)) event = None"
      using Cons.prems op by (cases "(ss_phase (gw_sessions g ! n), event)" rule: phase_received.cases) auto
    then show ?thesis
      by (simp add: op_channel_ok_def channel_ok_def op)
  qed
  then have "op_channel_ok op g" for g
    by (cases op) (simp_all add: op_channel_ok_def)
  with Cons show ?case by simp
qed simp

lemma sample_channels_deliver:
  "channels_deliver sample_env (OpUpgrade sample_post (\<lambda>_. False) #
     map (OpSession 0) (sample_events @ [Outbound (Some sample_note)])) gateway_start"
proof -
  obtain auth where up: "snd (gateway_step sample_env (OpUpgrade sample_post (\<lambda>_. False)) gateway_start) =
    \<lparr>gw_app = AppState_default\<lparr>ap_auth := auth\<rparr>,
     gw_sessions = [\<lparr>ss_device = fill 1, ss_socket = \<lparr>so_sent = [], so_attempts = 0, so_fails = (\<lambda>_. False)\<rparr>,
       ss_phase = AwaitHello\<rparr>]\<rparr>"
    by (rule sample_upgraded)
  let ?g = "snd (gateway_step sample_env (OpUpgrade sample_post (\<lambda>_. False)) gateway_start)"
  obtain session s where f: "fold session_step sample_events (gw_sessions ?g ! 0, gw_app ?g) = (session, s)"
    by (metis prod.exhaust)
  have "ss_phase session = Live 1 0 8 \<and> cr_sends (ap_connections s) 0 = [sample_note]"
    by (rule sample_session [OF _ _ _ f [unfolded up, simplified]])
      (simp_all add: works_def AppState_default_def)
  moreover have "snd (run (gateway_step sample_env) (map (OpSession 0) sample_events) ?g) =
      ?g\<lparr>gw_app := s, gw_sessions := [session]\<rparr>"
    using run_one_session [of ?g "gw_sessions ?g ! 0" sample_env sample_events] f up by simp
  ultimately have "op_channel_ok (OpSession 0 (Outbound (Some sample_note)))
      (snd (run (gateway_step sample_env) (map (OpSession 0) sample_events) ?g))"
    by (simp add: op_channel_ok_def channel_ok_def)
  moreover have "channels_deliver sample_env (map (OpSession 0) sample_events) ?g"
    by (rule nothing_received) (simp add: sample_events_def)
  ultimately show ?thesis
    by (simp add: channels_deliver_append op_channel_ok_def del: gateway_step.simps)
qed

section \<open>Properties\<close>

text \<open>
  The set-up of a session ends. In any run, whatever else happens in between and however sends
  fail, a session takes at most 260 steps to go live or to end - the hello, the registration, the
  pull and at most 256 backlog messages - and until then it is never stuck: some event moves it on.
\<close>

theorem session_setup_terminates:
  "let sessions = gw_sessions (snd (run (gateway_step E) ops gateway_start))
   in setup_steps E n ops gateway_start \<le> 260 \<and>
      (if n < length sessions
       then (\<exists>i c t. ss_phase (sessions ! n) = Live i c t) \<or> ss_phase (sessions ! n) = Ended \<or>
            (\<exists>event. setup_due (ss_phase (sessions ! n)) event)
       else True)"
proof -
  have "setup_steps E n ops gateway_start \<le> 260"
    using run_left [OF start_components_inv, of E n ops]
    by (simp add: left_of_def gateway_start_def MAX_PER_DEVICE_def)
  moreover have "(\<exists>i c t. phase = Live i c t) \<or> phase = Ended \<or> (\<exists>event. setup_due phase event)" for phase
    by (cases phase) (auto intro: setup_due.simps [THEN iffD2])
  ultimately show ?thesis
    by (simp add: Let_def)
qed

text \<open>
  Connections do not leak. In any run, whatever connection the registry holds for a device is the
  one of a session of this very device that has not ended: messages are never sent into the void
  of a dead session, and once all sessions have ended the registry is empty.
\<close>

theorem connections_do_not_leak:
  "let g = snd (run (gateway_step E) ops gateway_start)
   in case cr_inner (ap_connections (gw_app g)) d of
        None \<Rightarrow> True
      | Some state \<Rightarrow>
          list_ex (\<lambda>session. ss_device session = d \<and> ss_phase session \<noteq> Ended \<and>
            phase_connection (ss_phase session) = Some (cs_id state, cs_sender state)) (gw_sessions g)"
proof -
  let ?g = "snd (run (gateway_step E) ops gateway_start)"
  have leaks: "no_leaks ?g"
    using sessions.run_inv [of E gateway_start ops] start_components_inv start_no_leaks by blast
  show ?thesis
  proof (cases "cr_inner (ap_connections (gw_app ?g)) d")
    case (Some state)
    then have "connection_of (ap_connections (gw_app ?g)) d = Some (cs_id state, cs_sender state)"
      by (simp add: connection_of_def)
    with leaks obtain n where n: "n < length (gw_sessions ?g)"
        "holds_connection d (cs_id state, cs_sender state) (gw_sessions ?g ! n)"
      unfolding no_leaks_def by blast
    then have "ss_phase (gw_sessions ?g ! n) \<noteq> Ended"
      by (auto simp: holds_connection_def)
    with n Some show ?thesis
      by (auto simp: Let_def list_ex_iff holds_connection_def intro!: bexI [OF _ nth_mem])
  qed (simp add: Let_def)
qed

text \<open>
  A session on a working socket delivers. After any run, the session of a device that says hello
  is answered with its own hello, gets every message a pull returns, each in a frame of its own and
  in order, and then is live: the registry passes it what arrives from then on, and nothing is left
  waiting.
\<close>

theorem session_delivers_backlog:
  assumes "s = gw_app (snd (run (gateway_step E) ops gateway_start))"
    and "ss_phase session = AwaitHello" and "works (ss_socket session)"
    and "ws_accepts_hello (ss_device session) (Some first)"
    and "fst (RelayStore_pull now (ss_device session) (ap_relay s)) = backlog"
    and "fold session_step ([FirstMessage (Some first), Greet, PullBacklog now] @
           replicate (length backlog + 1) (SendNext t)) (session, s) = (session', s')"
  shows "\<exists>i c hello frames.
    ss_phase session' = Live i c t \<and>
    cr_inner (ap_connections s') (ss_device session) =
      Some \<lparr>cs_id = i, cs_sender = c, cs_ready = True, cs_pending = []\<rparr> \<and>
    so_sent (ss_socket session') = so_sent (ss_socket session) @ hello # frames \<and>
    read_frame hello = Some (ClientHello, bytes (ss_device session)) \<and>
    map read_message frames = map Some backlog"
proof -
  have "relay_inv (ap_relay s)"
    unfolding assms(1) by (rule run_relay_inv)
  then show ?thesis
    using assms(2-6) by (rule session_goes_live)
qed

lemma sample_backlog:
  "fst (RelayStore_pull 2000 (fill 4) (ap_relay (gw_app (snd (run (gateway_step sample_env)
     [OpEnqueue sample_post] gateway_start))))) =
   [EncryptedMessage_new (fill 1) (fill 2) (fill 1) (fill 4) [5] [6] 1000]"
proof -
  let ?m = "EncryptedMessage_new (fill 1) (fill 2) (fill 1) (fill 4) [5] [6] 1000"
  let ?g = "snd (gateway_step sample_env (OpEnqueue sample_post) gateway_start)"
  have m: "em_recipient_device_id ?m = fill 4"
    by (simp add: EncryptedMessage_new_def)
  have inv: "relay_inv (ap_relay (gw_app ?g))"
    using run_relay_inv [of sample_env "[OpEnqueue sample_post]"] by simp
  have "RelayStore_push 1000 ?m RelayStore_default = (Accepted, ap_relay (gw_app ?g))"
    using accepted_by_push [of sample_env "OpEnqueue sample_post" gateway_start 1000 ?m ?m] sample_accepted
      step_relay [of sample_env "OpEnqueue sample_post" gateway_start]
    by (simp add: by_relay_def prod_eq_iff)
  with relay_inv_default have "ap_relay (gw_app ?g) =
      replace_queue (fill 4) (Some (live_queue 1000 (fill 4) RelayStore_default @ [accept 1000 ?m])) RelayStore_default"
    by (cases rule: push_cases) (simp_all add: m)
  then have "held (fill 4) (ap_relay (gw_app ?g)) = [accept 1000 ?m]"
    by (simp add: live_queue_held held_default)
  then show ?thesis
    using pull_held [OF inv, of 2000 "fill 4"]
    by (simp add: accept_def u64_saturating_add_def OFFLINE_TTL_MS_def del: gateway_step.simps)
qed

theorem session_delivers_backlog_witness:
  "\<exists>session' s' hello frame i c.
     fold session_step
       ([FirstMessage (Some (sample_hello (fill 4))), Greet, PullBacklog 2000] @ replicate (1 + 1) (SendNext 7))
       (\<lparr>ss_device = fill 4, ss_socket = \<lparr>so_sent = [], so_attempts = 0, so_fails = (\<lambda>_. False)\<rparr>,
         ss_phase = AwaitHello\<rparr>,
        gw_app (snd (run (gateway_step sample_env) [OpEnqueue sample_post] gateway_start))) = (session', s') \<and>
     ss_phase session' = Live i c 7 \<and> so_sent (ss_socket session') = [hello, frame] \<and>
     read_message frame = Some (EncryptedMessage_new (fill 1) (fill 2) (fill 1) (fill 4) [5] [6] 1000)"
proof -
  let ?session = "\<lparr>ss_device = fill 4, ss_socket = \<lparr>so_sent = [], so_attempts = 0, so_fails = (\<lambda>_. False)\<rparr>,
    ss_phase = AwaitHello\<rparr>"
  let ?s = "gw_app (snd (run (gateway_step sample_env) [OpEnqueue sample_post] gateway_start))"
  let ?m = "EncryptedMessage_new (fill 1) (fill 2) (fill 1) (fill 4) [5] [6] 1000"
  obtain session' s' where f: "fold session_step ([FirstMessage (Some (sample_hello (fill 4))), Greet, PullBacklog 2000] @
      replicate (length [?m] + 1) (SendNext 7)) (?session, ?s) = (session', s')"
    by (metis prod.exhaust)
  have "ss_phase ?session = AwaitHello" "works (ss_socket ?session)"
    "ws_accepts_hello (ss_device ?session) (Some (sample_hello (fill 4)))"
    "fst (RelayStore_pull 2000 (ss_device ?session) (ap_relay ?s)) = [?m]"
    using sample_hello_accepted sample_backlog by (simp_all add: works_def del: run_Cons_state)
  from session_delivers_backlog [OF refl this f]
  obtain i c hello frames where "ss_phase session' = Live i c 7"
      "so_sent (ss_socket session') = hello # frames" "map read_message frames = [Some ?m]"
    by auto
  with f show ?thesis
    by (intro exI [of _ session'] exI [of _ s'] exI [of _ hello] exI [of _ "hd frames"] exI [of _ i] exI [of _ c])
      (auto simp del: run_Cons_state fold.simps)
qed

end
