(* ===== verification/Tasks.thy ===== *)
theory Tasks
  imports Sessions
begin

text \<open>
  The handlers and sessions of \<open>backend/src/main.rs\<close> as tasks that run concurrently. A task is what is
  left of a future: it has finished, or it waits for a call of a shared component and goes on with
  the answer. The components' methods are atomic - each takes its own lock once - and so is every
  call; between two calls of a task any other task may run. Left undisturbed, a task does exactly
  what the handler or the session step of \<open>Gateway\<close> does in one go.
\<close>

section \<open>Tasks\<close>

datatype 'r task =
  Finished 'r
| AwaitAuth http_request string string "u8 list" "StatusCode + 16 arr \<Rightarrow> 'r task"
| AwaitPush u64 EncryptedMessage "PushResult \<Rightarrow> 'r task"
| AwaitPull u64 "16 arr" "EncryptedMessage list \<Rightarrow> 'r task"
| AwaitAck "16 arr" "16 arr" "bool \<Rightarrow> 'r task"
| AwaitPublish "16 arr" PreKeyPublication u64 "PublicationError + unit \<Rightarrow> 'r task"
| AwaitActive "16 arr" u64 "PreKeyPublication option \<Rightarrow> 'r task"
| AwaitRevoke "16 arr" u64 u64 "PublicationError + unit \<Rightarrow> 'r task"
| AwaitClaim "16 arr" u64 u32 "16 arr" "16 arr" u64 "PublicationError + OpkClaim \<Rightarrow> 'r task"
| AwaitNextId "u64 \<Rightarrow> 'r task"
| AwaitInsert "16 arr" u64 "nat \<Rightarrow> 'r task"
| AwaitUnregister "16 arr" u64 "unit \<Rightarrow> 'r task"
| AwaitTrySend "16 arr" EncryptedMessage "unit \<Rightarrow> 'r task"
| AwaitActivate "16 arr" u64 "16 arr set" "bool \<Rightarrow> 'r task"

text \<open>
  The call a task waits for, in the terms of the components. \<open>CallLookup\<close> is \<open>get_active\<close>, the one call
  of the registry that only reads and that a handler makes for anybody who asks.
\<close>

datatype component_call =
  CallAuth http_request string string "u8 list"
| CallRelay relay_op
| CallRegistry registry_op
| CallLookup "16 arr" u64
| CallConnection connection_op

fun call_of :: "'r task \<Rightarrow> component_call option" where
  "call_of (Finished r) = None"
| "call_of (AwaitAuth q method path body k) = Some (CallAuth q method path body)"
| "call_of (AwaitPush now m k) = Some (CallRelay (RPush now m))"
| "call_of (AwaitPull now d k) = Some (CallRelay (RPull now d))"
| "call_of (AwaitAck d i k) = Some (CallRelay (RAck d i))"
| "call_of (AwaitPublish d p now k) = Some (CallRegistry (RegPublish d p now))"
| "call_of (AwaitActive d now k) = Some (CallLookup d now)"
| "call_of (AwaitRevoke d generation now k) = Some (CallRegistry (RegRevoke d generation now))"
| "call_of (AwaitClaim r generation key_id d request now k) =
     Some (CallRegistry (RegClaim r generation key_id d request now))"
| "call_of (AwaitNextId k) = Some (CallConnection CNextId)"
| "call_of (AwaitInsert d i k) = Some (CallConnection (CInsert d i))"
| "call_of (AwaitUnregister d i k) = Some (CallConnection (CUnregister d i))"
| "call_of (AwaitTrySend d m k) = Some (CallConnection (CTrySend d m))"
| "call_of (AwaitActivate d i delivered k) = Some (CallConnection (CActivate d i delivered))"

text \<open>One call of a task, on the shared state.\<close>

fun resume :: "gateway_env \<Rightarrow> 'r task \<Rightarrow> AppState \<Rightarrow> 'r task \<times> AppState" where
  "resume E (Finished r) s = (Finished r, s)"
| "resume E (AwaitAuth q method path body k) s = apfst k (authorize E q method path body s)"
| "resume E (AwaitPush now m k) s =
     (case RelayStore_push now m (ap_relay s) of (a, g) \<Rightarrow> (k a, s\<lparr>ap_relay := g\<rparr>))"
| "resume E (AwaitPull now d k) s =
     (case RelayStore_pull now d (ap_relay s) of (a, g) \<Rightarrow> (k a, s\<lparr>ap_relay := g\<rparr>))"
| "resume E (AwaitAck d i k) s =
     (case RelayStore_ack d i (ap_relay s) of (a, g) \<Rightarrow> (k a, s\<lparr>ap_relay := g\<rparr>))"
| "resume E (AwaitPublish d p now k) s =
     (case PreKeyRegistry_publish (ge_primitives E) d p now (ap_prekeys s) of (a, g) \<Rightarrow>
        (k a, s\<lparr>ap_prekeys := g\<rparr>))"
| "resume E (AwaitActive d now k) s = (k (get_active d now (ap_prekeys s)), s)"
| "resume E (AwaitRevoke d generation now k) s =
     (case PreKeyRegistry_revoke d generation now (ap_prekeys s) of (a, g) \<Rightarrow> (k a, s\<lparr>ap_prekeys := g\<rparr>))"
| "resume E (AwaitClaim r generation key_id d request now k) s =
     (case claim_opk r generation key_id d request now (ap_prekeys s) of (a, g) \<Rightarrow>
        (k a, s\<lparr>ap_prekeys := g\<rparr>))"
| "resume E (AwaitNextId k) s =
     (case next_connection_id (ap_connections s) of (a, r) \<Rightarrow> (k a, s\<lparr>ap_connections := r\<rparr>))"
| "resume E (AwaitInsert d i k) s =
     (case insert_connection d i (ap_connections s) of (a, r) \<Rightarrow> (k a, s\<lparr>ap_connections := r\<rparr>))"
| "resume E (AwaitUnregister d i k) s =
     (k (), s\<lparr>ap_connections := unregister d i (ap_connections s)\<rparr>)"
| "resume E (AwaitTrySend d m k) s =
     (k (), s\<lparr>ap_connections := try_send d m (ap_connections s)\<rparr>)"
| "resume E (AwaitActivate d i delivered k) s =
     (case activate d i delivered (ap_connections s) of (a, r) \<Rightarrow> (k a, s\<lparr>ap_connections := r\<rparr>))"

text \<open>A task that is left undisturbed.\<close>

primrec complete :: "gateway_env \<Rightarrow> 'r task \<Rightarrow> AppState \<Rightarrow> 'r \<times> AppState" where
  "complete E (Finished r) = (\<lambda>s. (r, s))"
| "complete E (AwaitAuth q method path body k) =
     (\<lambda>s. case authorize E q method path body s of (a, s) \<Rightarrow> complete E (k a) s)"
| "complete E (AwaitPush now m k) =
     (\<lambda>s. case RelayStore_push now m (ap_relay s) of (a, g) \<Rightarrow> complete E (k a) (s\<lparr>ap_relay := g\<rparr>))"
| "complete E (AwaitPull now d k) =
     (\<lambda>s. case RelayStore_pull now d (ap_relay s) of (a, g) \<Rightarrow> complete E (k a) (s\<lparr>ap_relay := g\<rparr>))"
| "complete E (AwaitAck d i k) =
     (\<lambda>s. case RelayStore_ack d i (ap_relay s) of (a, g) \<Rightarrow> complete E (k a) (s\<lparr>ap_relay := g\<rparr>))"
| "complete E (AwaitPublish d p now k) =
     (\<lambda>s. case PreKeyRegistry_publish (ge_primitives E) d p now (ap_prekeys s) of (a, g) \<Rightarrow>
        complete E (k a) (s\<lparr>ap_prekeys := g\<rparr>))"
| "complete E (AwaitActive d now k) = (\<lambda>s. complete E (k (get_active d now (ap_prekeys s))) s)"
| "complete E (AwaitRevoke d generation now k) =
     (\<lambda>s. case PreKeyRegistry_revoke d generation now (ap_prekeys s) of (a, g) \<Rightarrow>
        complete E (k a) (s\<lparr>ap_prekeys := g\<rparr>))"
| "complete E (AwaitClaim r generation key_id d request now k) =
     (\<lambda>s. case claim_opk r generation key_id d request now (ap_prekeys s) of (a, g) \<Rightarrow>
        complete E (k a) (s\<lparr>ap_prekeys := g\<rparr>))"
| "complete E (AwaitNextId k) =
     (\<lambda>s. case next_connection_id (ap_connections s) of (a, r) \<Rightarrow> complete E (k a) (s\<lparr>ap_connections := r\<rparr>))"
| "complete E (AwaitInsert d i k) =
     (\<lambda>s. case insert_connection d i (ap_connections s) of (a, r) \<Rightarrow> complete E (k a) (s\<lparr>ap_connections := r\<rparr>))"
| "complete E (AwaitUnregister d i k) =
     (\<lambda>s. complete E (k ()) (s\<lparr>ap_connections := unregister d i (ap_connections s)\<rparr>))"
| "complete E (AwaitTrySend d m k) =
     (\<lambda>s. complete E (k ()) (s\<lparr>ap_connections := try_send d m (ap_connections s)\<rparr>))"
| "complete E (AwaitActivate d i delivered k) =
     (\<lambda>s. case activate d i delivered (ap_connections s) of (a, r) \<Rightarrow> complete E (k a) (s\<lparr>ap_connections := r\<rparr>))"

lemma complete_resume: "(case resume E t s of (t', s') \<Rightarrow> complete E t' s') = complete E t s"
  by (cases t) (simp_all add: case_prod_beta)

section \<open>The handlers\<close>

definition enqueue_task :: "gateway_env \<Rightarrow> http_request \<Rightarrow> gateway_answer task" where
  "enqueue_task E q =
     AwaitAuth q ''POST'' ''/v1/relay'' (hq_body q) (\<lambda>authenticated. case authenticated of
       Err e \<Rightarrow> Finished (AnsStatus (Err e))
     | Ok device \<Rightarrow>
         (case ge_json_message E (hq_body q) of
            None \<Rightarrow> Finished (AnsStatus (Err BAD_REQUEST))
          | Some message \<Rightarrow>
              if em_sender_device_id message \<noteq> device then Finished (AnsStatus (Err FORBIDDEN))
              else
                let recipient = em_recipient_device_id message in
                AwaitPush (hq_now_ms q) message (\<lambda>pushed. case pushed of
                    Accepted \<Rightarrow>
                      AwaitTrySend recipient message (\<lambda>_. Finished (AnsStatus (Ok ACCEPTED)))
                  | Duplicate \<Rightarrow> Finished (AnsStatus (Ok CONFLICT))
                  | Invalid \<Rightarrow> Finished (AnsStatus (Ok BAD_REQUEST))
                  | Full \<Rightarrow> Finished (AnsStatus (Ok TOO_MANY_REQUESTS)))))"

text \<open>What \<open>hex_to_16(..).ok_or(..)?\<close> goes on with.\<close>

definition with_path_id ::
  "string \<Rightarrow> (StatusCode \<Rightarrow> gateway_answer) \<Rightarrow> (16 arr \<Rightarrow> gateway_answer task) \<Rightarrow> gateway_answer task" where
  "with_path_id text refuse k =
     (case hex_to_16 text of
        Panics \<Rightarrow> Finished AnsPanic
      | Returns None \<Rightarrow> Finished (refuse BAD_REQUEST)
      | Returns (Some d) \<Rightarrow> k d)"

definition poll_task :: "http_request \<Rightarrow> string \<Rightarrow> gateway_answer task" where
  "poll_task q device =
     with_path_id device (\<lambda>e. AnsMessages (Err e)) (\<lambda>device_id.
     AwaitAuth q ''GET'' (''/v1/relay/'' @ device) [] (\<lambda>authenticated. case authenticated of
       Err e \<Rightarrow> Finished (AnsMessages (Err e))
     | Ok d \<Rightarrow>
         if d \<noteq> device_id then Finished (AnsMessages (Err FORBIDDEN))
         else AwaitPull (hq_now_ms q) device_id (\<lambda>messages. Finished (AnsMessages (Ok messages)))))"

definition ack_task :: "http_request \<Rightarrow> string \<Rightarrow> string \<Rightarrow> gateway_answer task" where
  "ack_task q device message_id =
     with_path_id device (\<lambda>e. AnsStatus (Err e)) (\<lambda>device_id.
     with_path_id message_id (\<lambda>e. AnsStatus (Err e)) (\<lambda>message_id_bytes.
     AwaitAuth q ''POST'' (''/v1/relay/'' @ device @ ''/'' @ message_id @ ''/ack'') []
       (\<lambda>authenticated. case authenticated of
          Err e \<Rightarrow> Finished (AnsStatus (Err e))
        | Ok d \<Rightarrow>
            if d \<noteq> device_id then Finished (AnsStatus (Err FORBIDDEN))
            else AwaitAck device_id message_id_bytes (\<lambda>removed.
              Finished (AnsStatus (Ok (if removed then NO_CONTENT else NOT_FOUND)))))))"

definition publish_task :: "gateway_env \<Rightarrow> http_request \<Rightarrow> gateway_answer task" where
  "publish_task E q =
     AwaitAuth q ''POST'' ''/v1/prekeys'' (hq_body q) (\<lambda>authenticated. case authenticated of
       Err e \<Rightarrow> Finished (AnsStatus (Err e))
     | Ok d \<Rightarrow>
         (case ge_json_publication E (hq_body q) of
            None \<Rightarrow> Finished (AnsStatus (Err BAD_REQUEST))
          | Some publication \<Rightarrow>
              if pb_device_id (pp_bundle publication) \<noteq> d then Finished (AnsStatus (Err FORBIDDEN))
              else AwaitPublish d publication (hq_now_ms q) (\<lambda>result.
                Finished (AnsStatus (and_then (map_err publication_status result) (\<lambda>_. Ok ACCEPTED))))))"

definition get_prekeys_task :: "http_request \<Rightarrow> string \<Rightarrow> gateway_answer task" where
  "get_prekeys_task q device =
     with_path_id device (\<lambda>e. AnsPublication (Err e)) (\<lambda>device_id.
       AwaitActive device_id (hq_now_ms q) (\<lambda>publication.
         Finished (AnsPublication (ok_or publication NOT_FOUND))))"

definition revoke_task :: "http_request \<Rightarrow> string \<Rightarrow> u64 \<Rightarrow> gateway_answer task" where
  "revoke_task q device generation =
     with_path_id device (\<lambda>e. AnsStatus (Err e)) (\<lambda>device_id.
     AwaitAuth q ''POST'' (''/v1/prekeys/'' @ device @ ''/'' @ decimal (unat generation) @ ''/revoke'') []
       (\<lambda>authenticated. case authenticated of
          Err e \<Rightarrow> Finished (AnsStatus (Err e))
        | Ok d \<Rightarrow>
            if d \<noteq> device_id then Finished (AnsStatus (Err FORBIDDEN))
            else AwaitRevoke device_id generation (hq_now_ms q) (\<lambda>result.
              Finished (AnsStatus (and_then (map_err publication_status result) (\<lambda>_. Ok NO_CONTENT))))))"

definition claim_task :: "gateway_env \<Rightarrow> http_request \<Rightarrow> string \<Rightarrow> u64 \<Rightarrow> u32 \<Rightarrow> gateway_answer task" where
  "claim_task E q recipient generation key_id =
     with_path_id recipient (\<lambda>e. AnsClaim (Err e)) (\<lambda>recipient_id.
     AwaitAuth q ''POST''
       (''/v1/prekeys/'' @ recipient @ ''/'' @ decimal (unat generation) @ ''/'' @
        decimal (unat key_id) @ ''/claim'') (hq_body q)
       (\<lambda>authenticated. case authenticated of
          Err e \<Rightarrow> Finished (AnsClaim (Err e))
        | Ok claimant \<Rightarrow>
            (case ge_json_claim E (hq_body q) of
               None \<Rightarrow> Finished (AnsClaim (Err BAD_REQUEST))
             | Some request \<Rightarrow>
                 AwaitClaim recipient_id generation key_id claimant (cr_request_id request) (hq_now_ms q)
                   (\<lambda>result. Finished (AnsClaim (map_err publication_status result))))))"

fun request_task :: "gateway_env \<Rightarrow> gateway_op \<Rightarrow> gateway_answer task" where
  "request_task E (OpEnqueue q) = enqueue_task E q"
| "request_task E (OpPoll q device) = poll_task q device"
| "request_task E (OpAck q device message_id) = ack_task q device message_id"
| "request_task E (OpPublish q) = publish_task E q"
| "request_task E (OpGetPrekeys q device) = get_prekeys_task q device"
| "request_task E (OpRevoke q device generation) = revoke_task q device generation"
| "request_task E (OpClaim q recipient generation key_id) = claim_task E q recipient generation key_id"
| "request_task E op = Finished AnsSession"

lemma with_path_id_complete:
  "complete E (with_path_id text refuse k) s =
     (case hex_to_16 text of
        Panics \<Rightarrow> (AnsPanic, s)
      | Returns None \<Rightarrow> (refuse BAD_REQUEST, s)
      | Returns (Some d) \<Rightarrow> complete E (k d) s)"
  by (simp add: with_path_id_def split: panicking.split option.split)

text \<open>Undisturbed, the task of a request is its handler.\<close>

lemma request_complete:
  assumes "is_request op"
  shows "gateway_step E op g =
    (case complete E (request_task E op) (gw_app g) of (a, s) \<Rightarrow> (a, g\<lparr>gw_app := s\<rparr>))"
proof (cases op)
  case (OpEnqueue q)
  then show ?thesis
    by (cases rule: authorize_cases [of E q "''POST''" "''/v1/relay''" "hq_body q" "gw_app g"])
      (auto simp: enqueue_task_def enqueue_def Let_def split: option.split prod.split PushResult.split)
next
  case (OpPoll q device)
  then show ?thesis
    by (cases rule: authorize_cases [of E q "''GET''" "''/v1/relay/'' @ device" "[]" "gw_app g"])
      (auto simp: poll_task_def poll_def with_path_id_complete or_bad_request_def case_prod_beta
        split: panicking.split option.split)
next
  case (OpAck q device message_id)
  then show ?thesis
    by (cases rule: authorize_cases [of E q "''POST''"
          "''/v1/relay/'' @ device @ ''/'' @ message_id @ ''/ack''" "[]" "gw_app g"])
      (auto simp: ack_task_def ack_def with_path_id_complete or_bad_request_def case_prod_beta
        split: panicking.split option.split)
next
  case (OpPublish q)
  then show ?thesis
    by (cases rule: authorize_cases [of E q "''POST''" "''/v1/prekeys''" "hq_body q" "gw_app g"])
      (auto simp: publish_task_def publish_prekeys_def case_prod_beta split: option.split)
next
  case (OpGetPrekeys q device)
  then show ?thesis
    by (auto simp: get_prekeys_task_def get_prekeys_def with_path_id_complete or_bad_request_def
        split: panicking.split option.split)
next
  case (OpRevoke q device generation)
  then show ?thesis
    by (cases rule: authorize_cases [of E q "''POST''"
          "''/v1/prekeys/'' @ device @ ''/'' @ decimal (unat generation) @ ''/revoke''" "[]" "gw_app g"])
      (auto simp: revoke_task_def revoke_prekeys_def with_path_id_complete or_bad_request_def case_prod_beta
        split: panicking.split option.split)
next
  case (OpClaim q recipient generation key_id)
  then show ?thesis
    by (cases rule: authorize_cases [of E q "''POST''"
          "''/v1/prekeys/'' @ recipient @ ''/'' @ decimal (unat generation) @ ''/'' @
           decimal (unat key_id) @ ''/claim''" "hq_body q" "gw_app g"])
      (auto simp: claim_task_def claim_prekey_def with_path_id_complete or_bad_request_def case_prod_beta
        split: panicking.split option.split)
qed (use assms in simp_all)

section \<open>Sessions\<close>

text \<open>
  The functions a session calls take what the session does with their result as \<open>k\<close>. Sends on the
  session's own socket are not shared with anyone and belong to the stretch they are in.
\<close>

definition frame_task ::
  "u64 \<Rightarrow> FrameKind \<Rightarrow> u8 list \<Rightarrow> 16 arr \<Rightarrow> socket \<Rightarrow> ((unit + bool) \<times> socket \<Rightarrow> 'r task) \<Rightarrow> 'r task" where
  "frame_task now kind payload device so k =
     (case kind of
        Ping \<Rightarrow> (case send_frame Pong 0 payload so of
            (Err e, so) \<Rightarrow> k (Err (), so)
          | (Ok _, so) \<Rightarrow> k (Ok True, so))
      | Pong \<Rightarrow> k (Ok True, so)
      | EncryptedMessageFrame \<Rightarrow>
          (case EncryptedMessage_decode payload of
             Err e \<Rightarrow> k (Err (), so)
           | Ok message \<Rightarrow>
               if em_sender_device_id message \<noteq> device then k (Err (), ws_close so)
               else
                 let recipient = em_recipient_device_id message in
                 AwaitPush now message (\<lambda>pushed. case pushed of
                     Accepted \<Rightarrow> AwaitTrySend recipient message (\<lambda>_. k (Ok True, so))
                   | Duplicate \<Rightarrow> k (Ok True, so)
                   | _ \<Rightarrow> k (Err (), ws_close so)))
      | MessageAck \<Rightarrow>
          (case decode_message_ack payload of
             Err e \<Rightarrow> k (Err (), so)
           | Ok message_id \<Rightarrow> AwaitAck device message_id (\<lambda>_. k (Ok True, so)))
      | _ \<Rightarrow> k (Err (), ws_close so))"

definition message_task ::
  "u64 \<Rightarrow> ws_message \<Rightarrow> 16 arr \<Rightarrow> socket \<Rightarrow> ((unit + bool) \<times> socket \<Rightarrow> 'r task) \<Rightarrow> 'r task" where
  "message_task now message device so k =
     (case message of
        WsBinary bs \<Rightarrow>
          if WS_MAX_MESSAGE < length bs then k (Err (), ws_close so)
          else (case Frame_from_bytes bs of
              Err e \<Rightarrow> k (Err (), so)
            | Ok frame \<Rightarrow>
                (case Frame_kind frame of
                   Err e \<Rightarrow> k (Err (), so)
                 | Ok kind \<Rightarrow> frame_task now kind (fr_payload frame) device so k))
      | WsPing bs \<Rightarrow>
          (case socket_send (WsPong bs) so of
             (Err e, so) \<Rightarrow> k (Err (), so)
           | (Ok _, so) \<Rightarrow> k (Ok True, so))
      | WsPong bs \<Rightarrow> k (Ok True, so)
      | _ \<Rightarrow> k (Ok False, so))"

text \<open>Unregistering and returning, and going on after a send unless it failed.\<close>

definition end_task :: "u64 \<Rightarrow> ws_session \<Rightarrow> ws_session task" where
  "end_task connection_id session =
     AwaitUnregister (ss_device session) connection_id (\<lambda>_. Finished (session\<lparr>ss_phase := Ended\<rparr>))"

definition or_end_task :: "(unit + unit) \<times> socket \<Rightarrow> u64 \<Rightarrow> ws_phase \<Rightarrow> ws_session \<Rightarrow> ws_session task" where
  "or_end_task result connection_id phase session =
     (let session = session\<lparr>ss_socket := snd result\<rparr> in
      if is_ok (fst result) then Finished (session\<lparr>ss_phase := phase\<rparr>)
      else end_task connection_id session)"

fun session_task :: "session_event \<Rightarrow> ws_session \<Rightarrow> ws_session task" where
  "session_task event session =
     (case (ss_phase session, event) of
        (AwaitHello, FirstMessage first) \<Rightarrow>
          if \<not> ws_accepts_hello (ss_device session) first
          then Finished (session\<lparr>ss_socket := ws_close (ss_socket session), ss_phase := Ended\<rparr>)
          else AwaitNextId (\<lambda>connection_id.
            AwaitInsert (ss_device session) connection_id (\<lambda>outbound.
              Finished (session\<lparr>ss_phase := Registered connection_id outbound\<rparr>)))
      | (Registered connection_id outbound, Greet) \<Rightarrow>
          or_end_task (send_hello (ss_device session) (ss_socket session)) connection_id
            (Greeted connection_id outbound) session
      | (Greeted connection_id outbound, PullBacklog now) \<Rightarrow>
          AwaitPull now (ss_device session) (\<lambda>backlog.
            Finished (session\<lparr>ss_phase := SendingBacklog connection_id outbound
                                (em_message_id ` set backlog) backlog\<rparr>))
      | (SendingBacklog connection_id outbound delivered_ids (message # backlog), SendNext instant) \<Rightarrow>
          or_end_task (send_encrypted message (ss_socket session)) connection_id
            (SendingBacklog connection_id outbound delivered_ids backlog) session
      | (SendingBacklog connection_id outbound delivered_ids [], SendNext instant) \<Rightarrow>
          AwaitActivate (ss_device session) connection_id delivered_ids (\<lambda>active.
            Finished (session\<lparr>ss_phase :=
              (if active then Live connection_id outbound instant else Ended)\<rparr>))
      | (Live connection_id outbound last_activity, IdleTimeout instant) \<Rightarrow>
          if instant < last_activity + WS_IDLE_TIMEOUT then Finished session
          else end_task connection_id (session\<lparr>ss_socket := ws_close (ss_socket session)\<rparr>)
      | (Live connection_id outbound last_activity, Inbound inbound now instant) \<Rightarrow>
          (case inbound of
             None \<Rightarrow> end_task connection_id session
           | Some message \<Rightarrow>
               message_task now message (ss_device session) (ss_socket session) (\<lambda>(result, so).
                 let session = session\<lparr>ss_socket := so\<rparr> in
                 if result = Ok True then Finished (session\<lparr>ss_phase := Live connection_id outbound instant\<rparr>)
                 else end_task connection_id session))
      | (Live connection_id outbound last_activity, Outbound received) \<Rightarrow>
          (case received of
             None \<Rightarrow> end_task connection_id session
           | Some message \<Rightarrow>
               or_end_task (send_encrypted message (ss_socket session)) connection_id
                 (Live connection_id outbound last_activity) session)
      | _ \<Rightarrow> Finished session)"

text \<open>A session begins as the task of its upgrade; a refused upgrade leaves none.\<close>

definition websocket_task :: "http_request \<Rightarrow> socket \<Rightarrow> ws_session option task" where
  "websocket_task q so =
     AwaitAuth q ''GET'' ''/v1/ws'' [] (\<lambda>authenticated. case authenticated of
       Err e \<Rightarrow> Finished None
     | Ok device \<Rightarrow> Finished (Some \<lparr>ss_device = device, ss_socket = so, ss_phase = AwaitHello\<rparr>))"

lemma frame_complete:
  "complete E (frame_task now kind payload device so k) s =
     (case handle_frame now kind payload device (so, s) of (r, so', s') \<Rightarrow> complete E (k (r, so')) s')"
  by (cases kind)
    (auto simp: frame_task_def handle_frame_def Let_def case_prod_beta split: sum.split prod.split PushResult.split)

lemma message_complete:
  "complete E (message_task now message device so k) s =
     (case handle_authenticated_message now message device (so, s) of
        (r, so', s') \<Rightarrow> complete E (k (r, so')) s')"
  by (cases message)
    (auto simp: message_task_def handle_authenticated_message_def frame_complete split: sum.split prod.split)

lemma end_complete: "complete E (end_task i session) s = session_end True i (session, s)"
  by (simp add: end_task_def session_end_def)

lemma or_end_complete: "complete E (or_end_task result i phase session) s = or_end result i phase (session, s)"
  by (simp add: or_end_task_def or_end_def end_complete Let_def)

text \<open>Undisturbed, the task of a session event is the session's step.\<close>

lemma session_complete: "complete E (session_task event session) s = session_step event (session, s)"
proof (cases "ss_phase session")
  case AwaitHello
  then show ?thesis
    by (cases event) (simp_all add: register_split case_prod_beta)
next
  case (Registered i c)
  then show ?thesis
    by (cases event) (simp_all add: or_end_complete)
next
  case (Greeted i c)
  then show ?thesis
    by (cases event) simp_all
next
  case (SendingBacklog i c delivered backlog)
  then show ?thesis
    by (cases event; cases backlog) (simp_all add: or_end_complete session_end_def case_prod_beta)
next
  case (Live i c t)
  show ?thesis
  proof (cases event)
    case (Inbound inbound now instant)
    with Live show ?thesis
      by (cases inbound)
        (simp_all add: select_inbound_def end_complete message_complete Let_def case_prod_beta)
  next
    case (Outbound received)
    with Live show ?thesis
      by (cases received) (simp_all add: select_outbound_def end_complete or_end_complete)
  qed (use Live in \<open>simp_all add: end_complete\<close>)
next
  case Ended
  then show ?thesis
    by (cases event) simp_all
qed

lemma websocket_complete:
  "complete E (websocket_task q so) s =
     (case websocket E q so s of (result, s') \<Rightarrow>
        (case result of Err e \<Rightarrow> None | Ok session \<Rightarrow> Some session, s'))"
  by (auto simp: websocket_task_def websocket_def bind_state_def split: prod.split sum.split)

section \<open>Tasks end\<close>

text \<open>The most calls a task can still make, whatever the answers.\<close>

fun done_within :: "nat \<Rightarrow> 'r task \<Rightarrow> bool" where
  "done_within 0 t \<longleftrightarrow> (\<exists>r. t = Finished r)"
| "done_within (Suc n) t \<longleftrightarrow> (\<forall>E s. done_within n (fst (resume E t s)))"

lemma done_within_Finished [simp]: "done_within n (Finished r)"
  by (induction n) simp_all

lemma request_done: "done_within 3 (request_task E op)"
  by (cases op)
    (auto simp: numeral_3_eq_3 with_path_id_def enqueue_task_def poll_task_def ack_task_def publish_task_def
      get_prekeys_task_def revoke_task_def claim_task_def Let_def case_prod_beta
      split: sum.split option.split panicking.split PushResult.split)

lemma end_done: "done_within (Suc n) (end_task i session)"
  by (simp add: end_task_def)

lemma or_end_done: "done_within (Suc n) (or_end_task result i phase session)"
  by (simp add: or_end_task_def Let_def end_done del: done_within.simps)

lemma done_within_mono: "done_within n t \<Longrightarrow> done_within (Suc n) t"
  by (induction n t rule: done_within.induct) auto

lemma frame_done:
  assumes "\<And>so. done_within 0 (k (Ok True, so))" and "\<And>r. done_within 1 (k r)"
  shows "done_within 2 (frame_task now kind payload d so k)"
proof -
  have two: "done_within 2 (k r)" for r
    using done_within_mono [OF assms(2)] by (simp add: numeral_2_eq_2)
  show ?thesis
    using assms(1) assms(2) [unfolded One_nat_def] two [unfolded numeral_2_eq_2]
    by (cases kind)
      (auto simp: frame_task_def Let_def case_prod_beta numeral_2_eq_2 split: sum.split PushResult.split)
qed

lemma message_done:
  assumes "\<And>so. done_within 0 (k (Ok True, so))" and "\<And>r. done_within 1 (k r)"
  shows "done_within 2 (message_task now message d so k)"
proof -
  have two: "done_within 2 (k r)" for r
    using done_within_mono [OF assms(2)] by (simp add: numeral_2_eq_2)
  show ?thesis
    by (cases message) (auto simp: message_task_def case_prod_beta two frame_done [where k = k, OF assms] split: sum.split)
qed

lemma session_done: "done_within 2 (session_task event session)"
proof -
  have e: "done_within 2 (end_task i x)" "done_within 2 (or_end_task result i phase x)" for i x result phase
    using end_done [of 1] or_end_done [of 1] by (simp_all add: numeral_2_eq_2)
  show ?thesis
  proof (cases "ss_phase session")
    case AwaitHello
    then show ?thesis by (cases event) (simp_all add: numeral_2_eq_2 case_prod_beta)
  next
    case (Registered i c)
    then show ?thesis by (cases event) (simp_all add: e)
  next
    case (Greeted i c)
    then show ?thesis by (cases event) (simp_all add: numeral_2_eq_2 case_prod_beta)
  next
    case (SendingBacklog i c delivered backlog)
    then show ?thesis
      by (cases event; cases backlog) (simp_all add: e, simp add: numeral_2_eq_2 case_prod_beta)
  next
    case (Live i c t)
    show ?thesis
    proof (cases event)
      case (Inbound inbound now instant)
      with Live show ?thesis
        by (cases inbound) (simp add: e, auto simp: Let_def end_task_def intro!: message_done)
    next
      case (Outbound received)
      with Live show ?thesis
        by (cases received) (simp_all add: e)
    qed (use Live in \<open>simp_all add: e\<close>)
  next
    case Ended
    then show ?thesis by (cases event) simp_all
  qed
qed

lemma done_within_steps:
  "done_within 3 t \<Longrightarrow> \<exists>r. fst (resume E (fst (resume E (fst (resume E t s0)) s1)) s2) = Finished r"
  "done_within 2 u \<Longrightarrow> \<exists>r. fst (resume E (fst (resume E u s0)) s1) = Finished r"
  by (simp_all add: numeral_3_eq_3 numeral_2_eq_2)

section \<open>Property\<close>

text \<open>
  Tasks are the handlers, cut at their locks. Left undisturbed, the task of a request does what the
  handler does in one go, the task of an upgrade what \<open>websocket\<close> does, and the task of a session
  event what the session's step does; and whatever other tasks do to the shared state between its
  calls, a request has finished after at most three calls, a session event after at most two.
\<close>

theorem tasks_are_the_handlers:
  "(if is_request op
    then gateway_step E op g =
      (case complete E (request_task E op) (gw_app g) of (a, s) \<Rightarrow> (a, g\<lparr>gw_app := s\<rparr>))
    else True) \<and>
   complete E (websocket_task q so) s0 =
     (case websocket E q so s0 of (result, s') \<Rightarrow>
        (case result of Err e \<Rightarrow> None | Ok session \<Rightarrow> Some session, s')) \<and>
   complete E (session_task event session) s0 = session_step event (session, s0) \<and>
   (\<exists>a. fst (resume E (fst (resume E (fst (resume E (request_task E op) s0)) s1)) s2) = Finished a) \<and>
   (\<exists>r. fst (resume E (websocket_task q so) s0) = Finished r) \<and>
   (\<exists>r. fst (resume E (fst (resume E (session_task event session) s0)) s1) = Finished r)"
proof -
  have "\<exists>r. fst (resume E (websocket_task q so) s0) = Finished r"
    by (auto simp: websocket_task_def split: sum.split)
  then show ?thesis
    using request_complete [of op E g] done_within_steps(1) [OF request_done, of E E op s0 s1 s2]
      done_within_steps(2) [OF session_done, of E event session s0 s1]
    by (simp only: websocket_complete session_complete) simp
qed

end
