(* ===== verification/Concurrent.thy ===== *)
theory Concurrent
  imports Tasks
begin

text \<open>
  The gateway with all its tasks running concurrently: requests that have arrived and sessions that
  were opened, each with what is left of its task, over the shared state. A step lets one task make
  its next call. For every component the run is a run of the component; every call is made in the
  name of the device its task has authenticated.
\<close>

section \<open>The machine\<close>

text \<open>A task that runs, with the device it has authenticated, if any.\<close>

record 'r running =
  rn_who :: "16 arr option"
  rn_task :: "'r task"

record concurrent =
  cc_app :: AppState
  cc_requests :: "gateway_answer running list"
  cc_sessions :: "ws_session option running list"

definition concurrent_start :: concurrent where
  "concurrent_start = \<lparr>cc_app = AppState_default, cc_requests = [], cc_sessions = []\<rparr>"

definition spawn :: "'r task \<Rightarrow> 'r running" where
  "spawn t = \<lparr>rn_who = None, rn_task = t\<rparr>"

definition authenticated_as :: "gateway_env \<Rightarrow> 'r task \<Rightarrow> AppState \<Rightarrow> 16 arr option \<Rightarrow> 16 arr option" where
  "authenticated_as E t s who =
     (case t of
        AwaitAuth q method path body k \<Rightarrow>
          (case fst (authorize E q method path body s) of Ok d \<Rightarrow> Some d | Err e \<Rightarrow> who)
      | _ \<Rightarrow> who)"

definition advance :: "gateway_env \<Rightarrow> 'r running \<Rightarrow> AppState \<Rightarrow> 'r running \<times> AppState" where
  "advance E r s =
     (case resume E (rn_task r) s of (t, s') \<Rightarrow>
        (\<lparr>rn_who = authenticated_as E (rn_task r) s (rn_who r), rn_task = t\<rparr>, s'))"

definition call_by :: "'r running \<Rightarrow> (16 arr option \<times> component_call) option" where
  "call_by r = map_option (Pair (rn_who r)) (call_of (rn_task r))"

datatype concurrent_op =
  Arrive gateway_op
| Upgrade http_request "nat \<Rightarrow> bool"
| Event nat session_event
| RunRequest nat
| RunSession nat

text \<open>
  A session takes an event only when it waits for one, that is when its last task has finished. The
  output of a step is the call that was made, with the device in whose name it was made.
\<close>

fun concurrent_step ::
  "gateway_env \<Rightarrow> concurrent_op \<Rightarrow> concurrent \<Rightarrow> (16 arr option \<times> component_call) option \<times> concurrent" where
  "concurrent_step E (Arrive op) c =
     (None, c\<lparr>cc_requests := cc_requests c @ [spawn (request_task E op)]\<rparr>)"
| "concurrent_step E (Upgrade q fails) c =
     (None, c\<lparr>cc_sessions := cc_sessions c @
        [spawn (websocket_task q \<lparr>so_sent = [], so_attempts = 0, so_fails = fails\<rparr>)]\<rparr>)"
| "concurrent_step E (Event n event) c =
     (if length (cc_sessions c) \<le> n then (None, c)
      else case rn_task (cc_sessions c ! n) of
        Finished (Some session) \<Rightarrow>
          (None, c\<lparr>cc_sessions := (cc_sessions c)[n := (cc_sessions c ! n)
                     \<lparr>rn_task := map_task Some (session_task event session)\<rparr>]\<rparr>)
      | _ \<Rightarrow> (None, c))"
| "concurrent_step E (RunRequest n) c =
     (if length (cc_requests c) \<le> n then (None, c)
      else case advance E (cc_requests c ! n) (cc_app c) of (r, s) \<Rightarrow>
        (call_by (cc_requests c ! n), c\<lparr>cc_app := s, cc_requests := (cc_requests c)[n := r]\<rparr>))"
| "concurrent_step E (RunSession n) c =
     (if length (cc_sessions c) \<le> n then (None, c)
      else case advance E (cc_sessions c ! n) (cc_app c) of (r, s) \<Rightarrow>
        (call_by (cc_sessions c ! n), c\<lparr>cc_app := s, cc_sessions := (cc_sessions c)[n := r]\<rparr>))"

text \<open>The calls of a run, in order.\<close>

definition calls :: "gateway_env \<Rightarrow> concurrent_op list \<Rightarrow> concurrent \<Rightarrow> (16 arr option \<times> component_call) list" where
  "calls E ops c = List.map_filter id (fst (run (concurrent_step E) ops c))"

lemma calls_simps [simp]:
  "calls E [] c = []"
  "calls E (op # ops) c =
     (case fst (concurrent_step E op c) of None \<Rightarrow> [] | Some call \<Rightarrow> [call]) @
     calls E ops (snd (concurrent_step E op c))"
  by (simp_all add: calls_def List.map_filter_simps split: option.split)

section \<open>What a call changes\<close>

fun relay_call :: "16 arr option \<times> component_call \<Rightarrow> relay_op option" where
  "relay_call (who, CallRelay op) = Some op"
| "relay_call (who, call) = None"

fun registry_call :: "16 arr option \<times> component_call \<Rightarrow> registry_op option" where
  "registry_call (who, CallRegistry op) = Some op"
| "registry_call (who, call) = None"

fun connection_call :: "16 arr option \<times> component_call \<Rightarrow> connection_op option" where
  "connection_call (who, CallConnection op) = Some op"
| "connection_call (who, call) = None"

fun auth_call :: "16 arr option \<times> component_call \<Rightarrow> auth_request option" where
  "auth_call (who, CallAuth q method path body) =
     Some \<lparr>aq_now_ms = hq_auth_now_ms q, aq_instant = hq_instant q, aq_headers = hq_headers q,
           aq_method = method, aq_path = path, aq_body = body\<rparr>"
| "auth_call (who, call) = None"

text \<open>A component after an operation of its own, or after none.\<close>

definition after_op :: "('i \<Rightarrow> 's \<Rightarrow> 'o \<times> 's) \<Rightarrow> 'i option \<Rightarrow> 's \<Rightarrow> 's" where
  "after_op step op s = (case op of None \<Rightarrow> s | Some i \<Rightarrow> snd (step i s))"

lemma after_op_simps [simp]: "after_op step None s = s" "after_op step (Some i) s = snd (step i s)"
  by (simp_all add: after_op_def)

definition component_steps ::
  "gateway_env \<Rightarrow> (16 arr option \<times> component_call) option \<Rightarrow> AppState \<Rightarrow> AppState \<Rightarrow> bool" where
  "component_steps E call s s' \<longleftrightarrow>
     ap_relay s' = after_op relay_step (Option.bind call relay_call) (ap_relay s) \<and>
     ap_prekeys s' =
       after_op (registry_step (ge_primitives E)) (Option.bind call registry_call) (ap_prekeys s) \<and>
     ap_connections s' =
       after_op connection_step (Option.bind call connection_call) (ap_connections s) \<and>
     ap_auth s' =
       after_op (authenticate (ge_primitives E) (ge_sha256 E)) (Option.bind call auth_call) (ap_auth s)"

lemma component_steps_None [simp]: "component_steps E None s s"
  by (simp add: component_steps_def)

lemma resume_components:
  "component_steps E (map_option (Pair who) (call_of t)) s (snd (resume E t s))"
  by (cases t) (simp_all add: component_steps_def authorize_def case_prod_beta)

lemma advance_components: "component_steps E (call_by r) s (snd (advance E r s))"
  using resume_components [of E "rn_who r" "rn_task r" s] by (simp add: advance_def call_by_def case_prod_beta)

lemma step_components:
  "component_steps E (fst (concurrent_step E op c)) (cc_app c) (cc_app (snd (concurrent_step E op c)))"
proof (cases op)
  case (Event n event)
  show ?thesis
    by (simp add: Event split: task.split option.split)
qed (simp_all add: case_prod_beta advance_components)

text \<open>So a run is, for each component, a run of the component.\<close>

lemma run_after_op:
  assumes "\<And>op c. f (snd (concurrent_step E op c)) = after_op step (Option.bind (fst (concurrent_step E op c)) call) (f c)"
  shows "f (snd (run (concurrent_step E) ops c)) = snd (run step (List.map_filter call (calls E ops c)) (f c))"
proof (induction ops arbitrary: c)
  case (Cons op ops)
  then show ?case
    using assms [of op c]
    by (cases "fst (concurrent_step E op c)"; simp add: List.map_filter_simps split: option.split)
qed (simp add: List.map_filter_simps)

lemma run_components:
  defines "final E ops c \<equiv> cc_app (snd (run (concurrent_step E) ops c))"
  shows "ap_relay (final E ops c) =
      snd (run relay_step (List.map_filter relay_call (calls E ops c)) (ap_relay (cc_app c)))"
    and "ap_prekeys (final E ops c) =
      snd (run (registry_step (ge_primitives E)) (List.map_filter registry_call (calls E ops c)) (ap_prekeys (cc_app c)))"
    and "ap_connections (final E ops c) =
      snd (run connection_step (List.map_filter connection_call (calls E ops c)) (ap_connections (cc_app c)))"
    and "ap_auth (final E ops c) =
      snd (run (authenticate (ge_primitives E) (ge_sha256 E)) (List.map_filter auth_call (calls E ops c)) (ap_auth (cc_app c)))"
  unfolding final_def
  by (rule run_after_op [where f = "\<lambda>c. ap_relay (cc_app c)"]
        run_after_op [where f = "\<lambda>c. ap_prekeys (cc_app c)"]
        run_after_op [where f = "\<lambda>c. ap_connections (cc_app c)"]
        run_after_op [where f = "\<lambda>c. ap_auth (cc_app c)"],
      use step_components in \<open>simp add: component_steps_def\<close>)+

section \<open>In whose name\<close>

text \<open>The calls a task may make that has authenticated a given device, or none.\<close>

fun connection_by :: "16 arr \<Rightarrow> connection_op \<Rightarrow> bool" where
  "connection_by d (CRegister d') \<longleftrightarrow> d' = d"
| "connection_by d CNextId \<longleftrightarrow> True"
| "connection_by d (CInsert d' i) \<longleftrightarrow> d' = d"
| "connection_by d (CUnregister d' i) \<longleftrightarrow> d' = d"
| "connection_by d (CTrySend d' m) \<longleftrightarrow> em_sender_device_id m = d \<and> em_recipient_device_id m = d'"
| "connection_by d (CActivate d' i delivered) \<longleftrightarrow> d' = d"

fun may_call :: "16 arr option \<Rightarrow> component_call \<Rightarrow> bool" where
  "may_call who (CallAuth q method path body) \<longleftrightarrow> who = None"
| "may_call who (CallRelay op) \<longleftrightarrow> pred_option (\<lambda>d. relay_by d op) who \<and> who \<noteq> None"
| "may_call who (CallRegistry op) \<longleftrightarrow> pred_option (\<lambda>d. registry_by d op) who \<and> who \<noteq> None"
| "may_call who (CallLookup d now) \<longleftrightarrow> who = None"
| "may_call who (CallConnection op) \<longleftrightarrow> pred_option (\<lambda>d. connection_by d op) who \<and> who \<noteq> None"

text \<open>All calls a task can ever make, whatever the answers, are ones it may make.\<close>

primrec entitled :: "(16 arr option \<Rightarrow> 'r \<Rightarrow> bool) \<Rightarrow> 'r task \<Rightarrow> 16 arr option \<Rightarrow> bool" where
  "entitled R (Finished r) = (\<lambda>who. R who r)"
| "entitled R (AwaitAuth q method path body k) =
     (\<lambda>who. may_call who (CallAuth q method path body) \<and> (\<forall>a. entitled R (k a) (case a of Err e \<Rightarrow> who | Ok d \<Rightarrow> Some d)))"
| "entitled R (AwaitPush now m k) = (\<lambda>who. may_call who (CallRelay (RPush now m)) \<and> (\<forall>a. entitled R (k a) who))"
| "entitled R (AwaitPull now d k) = (\<lambda>who. may_call who (CallRelay (RPull now d)) \<and> (\<forall>a. entitled R (k a) who))"
| "entitled R (AwaitAck d i k) = (\<lambda>who. may_call who (CallRelay (RAck d i)) \<and> (\<forall>a. entitled R (k a) who))"
| "entitled R (AwaitPublish d p now k) =
     (\<lambda>who. may_call who (CallRegistry (RegPublish d p now)) \<and> (\<forall>a. entitled R (k a) who))"
| "entitled R (AwaitActive d now k) = (\<lambda>who. may_call who (CallLookup d now) \<and> (\<forall>a. entitled R (k a) who))"
| "entitled R (AwaitRevoke d generation now k) =
     (\<lambda>who. may_call who (CallRegistry (RegRevoke d generation now)) \<and> (\<forall>a. entitled R (k a) who))"
| "entitled R (AwaitClaim r generation key_id d request now k) =
     (\<lambda>who. may_call who (CallRegistry (RegClaim r generation key_id d request now)) \<and> (\<forall>a. entitled R (k a) who))"
| "entitled R (AwaitNextId k) = (\<lambda>who. may_call who (CallConnection CNextId) \<and> (\<forall>a. entitled R (k a) who))"
| "entitled R (AwaitInsert d i k) = (\<lambda>who. may_call who (CallConnection (CInsert d i)) \<and> (\<forall>a. entitled R (k a) who))"
| "entitled R (AwaitUnregister d i k) =
     (\<lambda>who. may_call who (CallConnection (CUnregister d i)) \<and> (\<forall>a. entitled R (k a) who))"
| "entitled R (AwaitTrySend d m k) =
     (\<lambda>who. may_call who (CallConnection (CTrySend d m)) \<and> (\<forall>a. entitled R (k a) who))"
| "entitled R (AwaitActivate d i delivered k) =
     (\<lambda>who. may_call who (CallConnection (CActivate d i delivered)) \<and> (\<forall>a. entitled R (k a) who))"

lemma entitled_call: "entitled R t who \<Longrightarrow> call_of t = Some call \<Longrightarrow> may_call who call"
  by (cases t) auto

lemma entitled_resume:
  "entitled R t who \<Longrightarrow> entitled R (fst (resume E t s)) (authenticated_as E t s who)"
proof (cases t)
  case (AwaitAuth q verb url body k)
  assume "entitled R t who"
  then have "entitled R (k (fst (authorize E q verb url body s)))
      (case fst (authorize E q verb url body s) of Err e \<Rightarrow> who | Ok d \<Rightarrow> Some d)"
    by (simp add: AwaitAuth)
  then show ?thesis
    by (simp add: AwaitAuth authenticated_as_def)
qed (auto simp: authenticated_as_def case_prod_beta)

lemma keeps_name:
  "entitled R t (Some d) \<Longrightarrow> authenticated_as E t s (Some d) = Some d"
  by (cases t) (simp_all add: authenticated_as_def)

lemma entitled_map: "entitled R (map_task f t) who \<longleftrightarrow> entitled (\<lambda>who r. R who (f r)) t who"
  by (induction t arbitrary: who) auto

lemma entitled_with_path_id:
  "(\<And>e. R who (refuse e)) \<Longrightarrow> R who AnsPanic \<Longrightarrow> (\<And>d. hex_to_16 text = Returns (Some d) \<Longrightarrow> entitled R (k d) who) \<Longrightarrow>
   entitled R (with_path_id text refuse k) who"
  by (auto simp: with_path_id_def split: panicking.split option.split)

lemma request_entitled: "entitled (\<lambda>_ _. True) (request_task E op) None"
  by (cases op)
    (auto simp: enqueue_task_def poll_task_def ack_task_def publish_task_def get_prekeys_task_def
      revoke_task_def claim_task_def Let_def intro!: entitled_with_path_id
      split: sum.split option.split PushResult.split)

definition own_session :: "16 arr option \<Rightarrow> ws_session option \<Rightarrow> bool" where
  "own_session who r \<longleftrightarrow> pred_option (\<lambda>session. who = Some (ss_device session)) r"

lemma websocket_entitled: "entitled own_session (websocket_task q so) None"
  by (simp add: websocket_task_def own_session_def split: sum.split)

lemma end_entitled:
  "entitled (\<lambda>who session. who = Some (ss_device session)) (end_task i session) (Some (ss_device session))"
  by (simp add: end_task_def)

lemma or_end_entitled:
  "entitled (\<lambda>who session. who = Some (ss_device session)) (or_end_task result i phase session) (Some (ss_device session))"
  using end_entitled [of i "session\<lparr>ss_socket := snd result\<rparr>"] by (simp add: or_end_task_def Let_def)

lemma frame_entitled:
  "(\<And>r. entitled R (k r) (Some d)) \<Longrightarrow> entitled R (frame_task now kind payload d so k) (Some d)"
  by (cases kind) (auto simp: frame_task_def Let_def case_prod_beta split: sum.split PushResult.split)

lemma message_entitled:
  "(\<And>r. entitled R (k r) (Some d)) \<Longrightarrow> entitled R (message_task now message d so k) (Some d)"
  by (cases message) (auto simp: message_task_def case_prod_beta intro: frame_entitled split: sum.split)

lemma session_entitled:
  "entitled (\<lambda>who session. who = Some (ss_device session)) (session_task event session) (Some (ss_device session))"
proof (cases "ss_phase session")
  case AwaitHello
  then show ?thesis by (cases event) simp_all
next
  case (Registered i c)
  then show ?thesis by (cases event) (simp_all add: or_end_entitled)
next
  case (Greeted i c)
  then show ?thesis by (cases event) simp_all
next
  case (SendingBacklog i c delivered backlog)
  then show ?thesis by (cases event; cases backlog) (simp_all add: or_end_entitled)
next
  case (Live i c t)
  have after: "entitled (\<lambda>who session. who = Some (ss_device session))
      (let session = session\<lparr>ss_socket := so\<rparr> in
       if result = Ok True then Finished (session\<lparr>ss_phase := Live i c instant\<rparr>) else end_task i session)
      (Some (ss_device session))" for result so instant
    using end_entitled [of i "session\<lparr>ss_socket := so\<rparr>"] by (simp add: Let_def)
  show ?thesis
  proof (cases event)
    case (Inbound inbound now instant)
    with Live show ?thesis
      by (cases inbound) (auto simp: end_entitled after intro!: message_entitled)
  next
    case (Outbound received)
    with Live show ?thesis
      by (cases received) (simp_all add: end_entitled or_end_entitled)
  next
    case (IdleTimeout instant)
    with Live end_entitled [of i "session\<lparr>ss_socket := ws_close (ss_socket session)\<rparr>"] show ?thesis
      by simp
  qed (use Live in simp_all)
next
  case Ended
  then show ?thesis by (cases event) simp_all
qed

definition all_entitled :: "concurrent \<Rightarrow> bool" where
  "all_entitled c \<longleftrightarrow>
     list_all (\<lambda>r. entitled (\<lambda>_ _. True) (rn_task r) (rn_who r)) (cc_requests c) \<and>
     list_all (\<lambda>r. entitled own_session (rn_task r) (rn_who r)) (cc_sessions c)"

lemma list_all_update: "list_all P xs \<Longrightarrow> P x \<Longrightarrow> list_all P (xs[n := x])"
  using set_update_subset_insert [of xs n x] by (auto simp: list_all_iff)

lemma advance_entitled:
  "entitled R (rn_task r) (rn_who r) \<Longrightarrow>
   entitled R (rn_task (fst (advance E r s))) (rn_who (fst (advance E r s)))"
  using entitled_resume [of R "rn_task r" "rn_who r" E s] by (simp add: advance_def case_prod_beta)

lemma call_entitled: "entitled R (rn_task r) (rn_who r) \<Longrightarrow> pred_option (\<lambda>(who, call). may_call who call) (call_by r)"
  using entitled_call [of R "rn_task r" "rn_who r"] by (cases "call_of (rn_task r)") (simp_all add: call_by_def)

lemma step_entitled:
  assumes "all_entitled c"
  shows "all_entitled (snd (concurrent_step E op c)) \<and>
    pred_option (\<lambda>(who, call). may_call who call) (fst (concurrent_step E op c))"
proof (cases op)
  case (Event n event)
  show ?thesis
  proof (cases "\<exists>session. n < length (cc_sessions c) \<and> rn_task (cc_sessions c ! n) = Finished (Some session)")
    case True
    then obtain session where s: "n < length (cc_sessions c)" "rn_task (cc_sessions c ! n) = Finished (Some session)"
      by blast
    then have "entitled own_session (Finished (Some session)) (rn_who (cc_sessions c ! n))"
      using assms by (metis all_entitled_def list_all_length)
    then have "rn_who (cc_sessions c ! n) = Some (ss_device session)"
      by (simp add: own_session_def)
    then show ?thesis
      using s assms session_entitled [of event session]
      by (auto simp: Event all_entitled_def entitled_map own_session_def simp del: session_task.simps
          intro!: list_all_update)
  next
    case False
    with assms show ?thesis
      by (auto simp: Event split: task.split option.split)
  qed
next
  case (RunRequest n)
  have "pred_option (\<lambda>(who, call). may_call who call) (call_by r)" if "entitled (\<lambda>_ _. True) (rn_task r) (rn_who r)"
    for r :: "gateway_answer running"
    using that by (rule call_entitled)
  with assms RunRequest show ?thesis
    by (auto simp: case_prod_beta all_entitled_def list_all_length nth_list_update advance_entitled)
next
  case (RunSession n)
  with assms show ?thesis
    by (auto simp: case_prod_beta all_entitled_def list_all_length nth_list_update advance_entitled
        intro: call_entitled [where R = own_session])
qed (use assms in \<open>simp_all add: all_entitled_def spawn_def request_entitled websocket_entitled\<close>)

interpretation concurrent: machine "concurrent_step E" all_entitled for E
  by unfold_locales (simp add: step_entitled)

lemma start_entitled: "all_entitled concurrent_start"
  by (simp add: all_entitled_def concurrent_start_def)

lemma calls_entitled: "all_entitled c \<Longrightarrow> list_all (\<lambda>(who, call). may_call who call) (calls E ops c)"
proof (induction ops arbitrary: c)
  case (Cons op ops)
  from step_entitled [OF Cons.prems, of E op] Cons.IH [of "snd (concurrent_step E op c)"] show ?case
    by (cases "fst (concurrent_step E op c)") simp_all
qed simp

section \<open>Names are authenticated\<close>

text \<open>The device a step authenticates, if any, and those a run does.\<close>

definition authenticates :: "gateway_env \<Rightarrow> concurrent_op \<Rightarrow> concurrent \<Rightarrow> 16 arr option" where
  "authenticates E op c =
     Option.bind (Option.bind (fst (concurrent_step E op c)) auth_call) (\<lambda>request.
       case fst (authenticate (ge_primitives E) (ge_sha256 E) request (ap_auth (cc_app c))) of
         Ok d \<Rightarrow> Some d
       | Err e \<Rightarrow> None)"

fun authentications :: "gateway_env \<Rightarrow> concurrent_op list \<Rightarrow> concurrent \<Rightarrow> 16 arr list" where
  "authentications E [] c = []"
| "authentications E (op # ops) c =
     (case authenticates E op c of None \<Rightarrow> [] | Some d \<Rightarrow> [d]) @
     authentications E ops (snd (concurrent_step E op c))"

definition named_in :: "16 arr set \<Rightarrow> 'r running \<Rightarrow> bool" where
  "named_in D r \<longleftrightarrow> pred_option (\<lambda>d. d \<in> D) (rn_who r)"

definition all_named :: "16 arr set \<Rightarrow> concurrent \<Rightarrow> bool" where
  "all_named D c \<longleftrightarrow> list_all (named_in D) (cc_requests c) \<and> list_all (named_in D) (cc_sessions c)"

lemma named_in_mono: "named_in D r \<Longrightarrow> D \<subseteq> D' \<Longrightarrow> named_in D' r"
  by (cases "rn_who r") (auto simp: named_in_def)

lemma all_named_mono: "all_named D c \<Longrightarrow> D \<subseteq> D' \<Longrightarrow> all_named D' c"
  unfolding all_named_def by (auto elim!: list.pred_mono_strong intro: named_in_mono)

lemma advance_named:
  assumes "named_in D r" and "fst (concurrent_step E op c) = call_by r"
  shows "named_in (D \<union> set_option (authenticates E op c)) (fst (advance E r (cc_app c)))"
proof (cases "rn_task r")
  case (AwaitAuth q verb url body k)
  then have "authenticates E op c = (case fst (authorize E q verb url body (cc_app c)) of Ok d \<Rightarrow> Some d | Err e \<Rightarrow> None)"
    using assms(2) by (simp add: authenticates_def call_by_def authorize_def case_prod_beta split: sum.split)
  with AwaitAuth assms(1) show ?thesis
    by (cases "rn_who r")
      (auto simp: advance_def authenticated_as_def named_in_def case_prod_beta split: sum.split)
qed (use assms(1) in \<open>cases "rn_who r"; simp add: advance_def authenticated_as_def named_in_def case_prod_beta\<close>)+

lemma step_named:
  assumes "all_named D c"
  shows "all_named (D \<union> set_option (authenticates E op c)) (snd (concurrent_step E op c))"
proof -
  let ?D = "D \<union> set_option (authenticates E op c)"
  have named: "list_all (named_in ?D) (cc_requests c)" "list_all (named_in ?D) (cc_sessions c)"
    using all_named_mono [OF assms, of ?D] by (simp_all add: all_named_def)
  show ?thesis
  proof (cases op)
    case (Event n event)
    then show ?thesis
      using named by (auto simp: all_named_def named_in_def list_all_length nth_list_update split: task.split option.split)
  next
    case (RunRequest n)
    show ?thesis
    proof (cases "n < length (cc_requests c)")
      case True
      then have "named_in ?D (fst (advance E (cc_requests c ! n) (cc_app c)))"
        using assms RunRequest by (intro advance_named) (simp_all add: all_named_def list_all_length case_prod_beta)
      with True named RunRequest show ?thesis
        by (simp add: all_named_def case_prod_beta list_all_update)
    qed (use named RunRequest in \<open>simp add: all_named_def\<close>)
  next
    case (RunSession n)
    show ?thesis
    proof (cases "n < length (cc_sessions c)")
      case True
      then have "named_in ?D (fst (advance E (cc_sessions c ! n) (cc_app c)))"
        using assms RunSession by (intro advance_named) (simp_all add: all_named_def list_all_length case_prod_beta)
      with True named RunSession show ?thesis
        by (simp add: all_named_def case_prod_beta list_all_update)
    qed (use named RunSession in \<open>simp add: all_named_def\<close>)
  qed (use named in \<open>simp_all add: all_named_def spawn_def named_in_def\<close>)
qed

lemma run_named:
  "all_named D c \<Longrightarrow> all_named (D \<union> set (authentications E ops c)) (snd (run (concurrent_step E) ops c))"
proof (induction ops arbitrary: D c)
  case (Cons op ops)
  from Cons.IH [OF step_named [OF Cons.prems, of E op]] show ?case
    by (cases "authenticates E op c") (simp_all add: Un_assoc)
qed simp

lemma start_named: "all_named D concurrent_start"
  by (simp add: all_named_def concurrent_start_def)

lemma call_named:
  assumes "all_named D c" and "fst (concurrent_step E op c) = Some (Some d, call)"
  shows "d \<in> D"
proof -
  have "\<exists>n. n < length (cc_requests c) \<and> rn_who (cc_requests c ! n) = Some d \<or>
      n < length (cc_sessions c) \<and> rn_who (cc_sessions c ! n) = Some d"
    using assms(2)
    by (cases op) (auto simp: case_prod_beta call_by_def not_le split: if_splits task.splits option.splits)
  then show ?thesis
    using assms(1) by (auto simp: all_named_def named_in_def list_all_length)
qed

end
