(* ===== verification/Holding.thy ===== *)
theory Holding
  imports Concurrent
begin

text \<open>
  Who is responsible for a connection when tasks run concurrently: whatever connection the registry
  holds belongs to a session that still uses it, or to a task that is about to unregister it.
\<close>

section \<open>Tasks and the connections they hold\<close>

text \<open>What a task may insert into the registry: every insertion it can ever make is one \<open>J\<close> allows.\<close>

primrec inserts :: "(16 arr \<Rightarrow> u64 \<Rightarrow> (nat \<Rightarrow> 'r task) \<Rightarrow> bool) \<Rightarrow> 'r task \<Rightarrow> bool" where
  "inserts J (Finished r) = True"
| "inserts J (AwaitAuth q method path body k) = (\<forall>a. inserts J (k a))"
| "inserts J (AwaitPush now m k) = (\<forall>a. inserts J (k a))"
| "inserts J (AwaitPull now d k) = (\<forall>a. inserts J (k a))"
| "inserts J (AwaitAck d i k) = (\<forall>a. inserts J (k a))"
| "inserts J (AwaitPublish d p now k) = (\<forall>a. inserts J (k a))"
| "inserts J (AwaitActive d now k) = (\<forall>a. inserts J (k a))"
| "inserts J (AwaitRevoke d generation now k) = (\<forall>a. inserts J (k a))"
| "inserts J (AwaitClaim r generation key_id d request now k) = (\<forall>a. inserts J (k a))"
| "inserts J (AwaitNextId k) = (\<forall>a. inserts J (k a))"
| "inserts J (AwaitInsert d i k) = (J d i k \<and> (\<forall>a. inserts J (k a)))"
| "inserts J (AwaitUnregister d i k) = inserts J (k ())"
| "inserts J (AwaitTrySend d m k) = inserts J (k ())"
| "inserts J (AwaitActivate d i delivered k) = (\<forall>a. inserts J (k a))"

abbreviation inserts_nothing :: "'r task \<Rightarrow> bool" where
  "inserts_nothing \<equiv> inserts (\<lambda>_ _ _. False)"

text \<open>
  A task minds connection \<open>i\<close> of device \<open>d\<close> if whatever it does next, it unregisters it, or is told
  that it is gone, or ends with a result that holds it.
\<close>

primrec minds :: "16 arr \<Rightarrow> u64 \<Rightarrow> ('r \<Rightarrow> bool) \<Rightarrow> 'r task \<Rightarrow> bool" where
  "minds d i R (Finished r) = R r"
| "minds d i R (AwaitAuth q method path body k) = (\<forall>a. minds d i R (k a))"
| "minds d i R (AwaitPush now m k) = (\<forall>a. minds d i R (k a))"
| "minds d i R (AwaitPull now d' k) = (\<forall>a. minds d i R (k a))"
| "minds d i R (AwaitAck d' i' k) = (\<forall>a. minds d i R (k a))"
| "minds d i R (AwaitPublish d' p now k) = (\<forall>a. minds d i R (k a))"
| "minds d i R (AwaitActive d' now k) = (\<forall>a. minds d i R (k a))"
| "minds d i R (AwaitRevoke d' generation now k) = (\<forall>a. minds d i R (k a))"
| "minds d i R (AwaitClaim r generation key_id d' request now k) = (\<forall>a. minds d i R (k a))"
| "minds d i R (AwaitNextId k) = (\<forall>a. minds d i R (k a))"
| "minds d i R (AwaitInsert d' i' k) = False"
| "minds d i R (AwaitUnregister d' i' k) =
     (if d' = d \<and> i' = i then inserts_nothing (k ()) else minds d i R (k ()))"
| "minds d i R (AwaitTrySend d' m k) = minds d i R (k ())"
| "minds d i R (AwaitActivate d' i' delivered k) =
     (if d' = d \<and> i' = i then minds d i R (k True) \<and> inserts_nothing (k False)
      else \<forall>a. minds d i R (k a))"

lemma inserts_map: "inserts J (map_task f t) \<longleftrightarrow> inserts (\<lambda>d i k. J d i (\<lambda>c. map_task f (k c))) t"
  by (induction t) (simp_all add: comp_def)

lemma minds_map: "minds d i R (map_task f t) \<longleftrightarrow> minds d i (\<lambda>r. R (f r)) t"
  by (induction t) (simp_all add: inserts_map)

lemma inserts_mono: "inserts J t \<Longrightarrow> (\<And>d i k. J d i k \<Longrightarrow> J' d i k) \<Longrightarrow> inserts J' t"
  by (induction t) auto

lemma inserts_resume: "inserts J t \<Longrightarrow> inserts J (fst (resume E t s))"
  by (cases t) (auto simp: case_prod_beta)

text \<open>A call adds no connection but the one a task inserts.\<close>

lemma connection_of_more_ops [simp]:
  "connection_of (snd (next_connection_id r)) = connection_of r"
  "connection_of (snd (insert_connection d i r)) = (connection_of r)(d \<mapsto> (i, cr_made r))"
  by (auto simp: connection_of_def next_connection_id_def insert_connection_def Let_def)

lemma resume_connection:
  assumes "connection_of (ap_connections (snd (resume E t s))) d = Some k"
  obtains (old) "connection_of (ap_connections s) d = Some k"
  | (new) i c k' where "t = AwaitInsert d i k'" "k = (i, c)" "fst (resume E t s) = k' c"
proof (cases t)
  case (AwaitInsert d' i k')
  show thesis
  proof (cases "d' = d")
    case True
    with assms AwaitInsert show thesis
      by (intro new [of i k' "cr_made (ap_connections s)"]) (auto simp: case_prod_beta insert_connection_def Let_def connection_of_def)
  qed (use assms AwaitInsert old in \<open>auto simp: case_prod_beta\<close>)
qed (use assms old in \<open>auto simp: case_prod_beta authorize_def connection_of_unregister split: if_splits\<close>)

lemma minds_resume:
  assumes "minds d i R t" and after: "connection_of (ap_connections (snd (resume E t s))) d = Some (i, c)"
  shows "minds d i R (fst (resume E t s))"
proof (cases t)
  case (AwaitActivate d' i' delivered k)
  then have "connection_of (ap_connections s) d = Some (i, c)"
    using after by (simp add: case_prod_beta)
  then have "fst (activate d i delivered (ap_connections s))"
    by (simp add: activate_refused)
  with assms(1) AwaitActivate show ?thesis
    by (auto simp: case_prod_beta split: if_splits)
qed (use assms in \<open>auto simp: case_prod_beta connection_of_unregister split: if_splits\<close>)

text \<open>Left to itself, such a task ends holding the connection, or the registry no longer does.\<close>

lemma complete_unfold: "complete E t s = complete E (fst (resume E t s)) (snd (resume E t s))"
  using complete_resume [of E t s] by (simp add: case_prod_beta)

lemma stays_gone:
  assumes "inserts_nothing t" and "connection_of (ap_connections s) d \<noteq> Some k"
  shows "connection_of (ap_connections (snd (complete E t s))) d \<noteq> Some k"
  using assms
  by (induction t arbitrary: s)
    (auto simp: case_prod_beta authorize_def connection_of_unregister split: if_splits)

lemma minds_complete:
  assumes "minds d i R t"
  shows "R (fst (complete E t s)) \<or> connection_of (ap_connections (snd (complete E t s))) d \<noteq> Some (i, c)"
  using assms
proof (induction t arbitrary: s)
  case (AwaitUnregister d' i' k)
  show ?case
  proof (cases "d' = d \<and> i' = i")
    case True
    with AwaitUnregister.prems have "inserts_nothing (k ())"
      by simp
    from stays_gone [OF this, of "s\<lparr>ap_connections := unregister d i (ap_connections s)\<rparr>" d "(i, c)"] True show ?thesis
      by (simp add: connection_of_unregister)
  next
    case False
    with AwaitUnregister.prems have "minds d i R (k ())"
      by (simp split: if_splits)
    with AwaitUnregister.IH show ?thesis
      by simp
  qed
next
  case (AwaitActivate d' i' delivered k)
  let ?a = "activate d' i' delivered (ap_connections s)"
  show ?case
  proof (cases "d' = d \<and> i' = i \<and> \<not> fst ?a")
    case True
    with AwaitActivate.prems have "inserts_nothing (k False)"
      by simp
    moreover have "connection_of (ap_connections s) d \<noteq> Some (i, c)"
      using True by (auto simp: activate_refused)
    moreover have "d' = d" "i' = i" "fst (activate d i delivered (ap_connections s)) = False"
      using True by auto
    ultimately show ?thesis
      using stays_gone [of "k False" "s\<lparr>ap_connections := snd (activate d i delivered (ap_connections s))\<rparr>" d "(i, c)"]
      by (simp add: case_prod_beta)
  next
    case False
    with AwaitActivate.prems have "minds d i R (k (fst ?a))"
      by (auto split: if_splits)
    with AwaitActivate.IH show ?thesis
      by (simp add: case_prod_beta)
  qed
qed (auto simp: case_prod_beta)

section \<open>Requests and sessions\<close>

text \<open>Requests insert nothing; what a session inserts it minds.\<close>

lemma inserts_with_path_id:
  "(\<And>d. inserts J (k d)) \<Longrightarrow> inserts J (with_path_id text refuse k)"
  by (auto simp: with_path_id_def split: panicking.split option.split)

lemma request_inserts: "inserts_nothing (request_task E op)"
  by (cases op)
    (auto simp: enqueue_task_def poll_task_def ack_task_def publish_task_def get_prekeys_task_def
      revoke_task_def claim_task_def Let_def intro!: inserts_with_path_id
      split: sum.split option.split PushResult.split)

definition result_holds :: "16 arr \<Rightarrow> u64 \<times> nat \<Rightarrow> ws_session option \<Rightarrow> bool" where
  "result_holds d k r \<longleftrightarrow> (case r of None \<Rightarrow> False | Some session \<Rightarrow> holds_connection d k session)"

definition minded :: "16 arr \<Rightarrow> u64 \<Rightarrow> (nat \<Rightarrow> ws_session option task) \<Rightarrow> bool" where
  "minded d i k \<longleftrightarrow> (\<forall>c. minds d i (result_holds d (i, c)) (k c))"

lemma websocket_inserts: "inserts J (websocket_task q so)"
  by (simp add: websocket_task_def split: sum.split)

lemma frame_keeps:
  assumes "\<And>r. inserts_nothing (k r)"
  shows "inserts_nothing (frame_task now kind payload d so k)"
  using assms by (cases kind)
    (auto simp: frame_task_def Let_def case_prod_beta split: sum.split PushResult.split)

lemma message_keeps:
  assumes "\<And>r. inserts_nothing (k r)"
  shows "inserts_nothing (message_task now message d so k)"
  using assms by (cases message) (auto simp: message_task_def case_prod_beta intro: frame_keeps split: sum.split)

lemma frame_minds:
  assumes "\<And>r. minds d' i R (k r)"
  shows "minds d' i R (frame_task now kind payload d so k)"
  using assms by (cases kind)
    (auto simp: frame_task_def Let_def case_prod_beta split: sum.split PushResult.split)

lemma message_minds:
  assumes "\<And>r. minds d' i R (k r)"
  shows "minds d' i R (message_task now message d so k)"
  using assms by (cases message) (auto simp: message_task_def case_prod_beta intro: frame_minds split: sum.split)

lemma end_minds: "minds (ss_device session) i R (end_task i session)"
  by (simp add: end_task_def)

lemma end_inserts: "inserts_nothing (end_task i session)" "inserts_nothing (or_end_task result i phase session)"
  by (simp_all add: end_task_def or_end_task_def Let_def)

lemma or_end_minds:
  assumes "\<And>so. R (session\<lparr>ss_socket := so, ss_phase := phase\<rparr>)"
  shows "minds (ss_device session) i R (or_end_task result i phase session)"
  using assms end_minds [of "session\<lparr>ss_socket := snd result\<rparr>" i R] by (simp add: or_end_task_def Let_def)

lemma session_minds:
  assumes "holds_connection d (i, c) session"
  shows "minds d i (holds_connection d (i, c)) (session_task event session)"
proof -
  have d: "d = ss_device session" and phase: "phase_connection (ss_phase session) = Some (i, c)"
    using assms by (simp_all add: holds_connection_def)
  show ?thesis
  proof (cases "ss_phase session")
    case (Registered i' c')
    with d phase show ?thesis
      by (cases event) (auto simp: holds_connection_def intro!: or_end_minds)
  next
    case (Greeted i' c')
    with d phase show ?thesis
      by (cases event) (auto simp: holds_connection_def)
  next
    case (SendingBacklog i' c' delivered backlog)
    with d phase show ?thesis
      by (cases event; cases backlog) (auto simp: holds_connection_def intro!: or_end_minds)
  next
    case (Live i' c' t)
    show ?thesis
    proof (cases event)
      case (Inbound inbound now instant)
      have "minds (ss_device session) i (holds_connection d (i, c)) (end_task i (session\<lparr>ss_socket := so\<rparr>))" for so
        using end_minds [of "session\<lparr>ss_socket := so\<rparr>" i] by simp
      with Live Inbound d phase show ?thesis
        by (cases inbound) (auto simp: holds_connection_def Let_def end_minds intro!: message_minds)
    next
      case (Outbound received)
      with Live d phase show ?thesis
        by (cases received) (auto simp: holds_connection_def end_minds intro!: or_end_minds)
    next
      case (IdleTimeout instant)
      with Live d phase end_minds [of "session\<lparr>ss_socket := ws_close (ss_socket session)\<rparr>" i] show ?thesis
        by (auto simp: holds_connection_def)
    qed (use Live d phase in \<open>auto simp: holds_connection_def\<close>)
  qed (use phase in simp_all)
qed

lemma session_inserts:
  "inserts (\<lambda>d i k. d = ss_device session \<and> (\<forall>c. minds d i (holds_connection d (i, c)) (k c))) (session_task event session)"
proof -
  have only: "inserts J t" if "inserts_nothing t" for J and t :: "ws_session task"
    using that by (rule inserts_mono) simp
  show ?thesis
  proof (cases "ss_phase session")
    case AwaitHello
    then show ?thesis by (cases event) (auto simp: holds_connection_def)
  next
    case (Registered i c)
    then show ?thesis by (cases event) (simp_all add: only [OF end_inserts(2)])
  next
    case (Greeted i c)
    then show ?thesis by (cases event) simp_all
  next
    case (SendingBacklog i c delivered backlog)
    then show ?thesis by (cases event; cases backlog) (simp_all add: only [OF end_inserts(2)])
  next
    case (Live i c t)
    show ?thesis
    proof (cases event)
      case (Inbound inbound now instant)
      with Live show ?thesis
        by (cases inbound) (auto simp: only [OF end_inserts(1)] Let_def end_inserts intro!: only [OF message_keeps])
    next
      case (Outbound received)
      with Live show ?thesis
        by (cases received) (simp_all add: only [OF end_inserts(1)] only [OF end_inserts(2)])
    qed (use Live in \<open>simp_all add: only [OF end_inserts(1)]\<close>)
  next
    case Ended
    then show ?thesis by (cases event) simp_all
  qed
qed

section \<open>Runs\<close>

definition connections_minded :: "concurrent \<Rightarrow> bool" where
  "connections_minded c \<longleftrightarrow>
     list_all (\<lambda>r. inserts_nothing (rn_task r)) (cc_requests c) \<and>
     list_all (\<lambda>r. inserts minded (rn_task r)) (cc_sessions c) \<and>
     (\<forall>d k. connection_of (ap_connections (cc_app c)) d = Some k \<longrightarrow>
        (\<exists>n < length (cc_sessions c). rn_who (cc_sessions c ! n) = Some d \<and>
           minds d (fst k) (result_holds d k) (rn_task (cc_sessions c ! n))))"

lemma connections_mindedD:
  assumes "connections_minded c" and "connection_of (ap_connections (cc_app c)) d = Some k"
  obtains n where "n < length (cc_sessions c)" "rn_who (cc_sessions c ! n) = Some d"
    "minds d (fst k) (result_holds d k) (rn_task (cc_sessions c ! n))"
  using assms unfolding connections_minded_def by blast

text \<open>A call of a session: a connection that was there is still minded, and one it inserts is its own.\<close>

lemma session_call_minded:
  assumes minded: "connections_minded c" and entitled: "all_entitled c" and n: "n < length (cc_sessions c)"
  shows "connections_minded (snd (concurrent_step E (RunSession n) c))"
proof -
  let ?r = "cc_sessions c ! n"
  let ?t = "fst (resume E (rn_task ?r) (cc_app c))" and ?s = "snd (resume E (rn_task ?r) (cc_app c))"
  let ?r' = "\<lparr>rn_who = authenticated_as E (rn_task ?r) (cc_app c) (rn_who ?r), rn_task = ?t\<rparr>"
  have step: "snd (concurrent_step E (RunSession n) c) =
      c\<lparr>cc_app := ?s, cc_sessions := (cc_sessions c)[n := ?r']\<rparr>"
    using n by (simp add: advance_def case_prod_beta)
  have inserts: "inserts minded (rn_task ?r)"
    using minded n by (simp add: connections_minded_def list_all_length)
  have own: "entitled own_session (rn_task ?r) (rn_who ?r)"
    using entitled n by (simp add: all_entitled_def list_all_length)
  have "\<exists>m < length (cc_sessions c). rn_who ((cc_sessions c)[n := ?r'] ! m) = Some d \<and>
      minds d (fst k) (result_holds d k) (rn_task ((cc_sessions c)[n := ?r'] ! m))"
    if after: "connection_of (ap_connections ?s) d = Some k" for d k
    using after
  proof (cases rule: resume_connection)
    case old
    from minded this obtain m where m: "m < length (cc_sessions c)" "rn_who (cc_sessions c ! m) = Some d"
        "minds d (fst k) (result_holds d k) (rn_task (cc_sessions c ! m))"
      by (rule connections_mindedD)
    show ?thesis
    proof (cases "m = n")
      case True
      have "minds d (fst k) (result_holds d k) ?t"
        using m(3) after True by (intro minds_resume [of _ _ _ _ _ _ "snd k"]) simp_all
      moreover have "authenticated_as E (rn_task ?r) (cc_app c) (rn_who ?r) = Some d"
        using own m(2) True by (simp add: keeps_name)
      ultimately show ?thesis
        using n by (intro exI [of _ n]) simp
    next
      case False
      with m show ?thesis
        by (intro exI [of _ m]) simp
    qed
  next
    case (new i ch k')
    then have "minds d i (result_holds d k) (k' ch)"
      using inserts by (simp add: minded_def)
    moreover have "rn_who ?r = Some d"
      using own new(1) by (cases "rn_who ?r") simp_all
    ultimately show ?thesis
      using new n by (intro exI [of _ n]) (simp add: authenticated_as_def)
  qed
  then show ?thesis
    using minded inserts_resume [OF inserts] unfolding step
    by (simp add: connections_minded_def list_all_update)
qed

lemma request_call_minded:
  assumes minded: "connections_minded c" and n: "n < length (cc_requests c)"
  shows "connections_minded (snd (concurrent_step E (RunRequest n) c))"
proof -
  let ?r = "cc_requests c ! n"
  let ?t = "fst (resume E (rn_task ?r) (cc_app c))" and ?s = "snd (resume E (rn_task ?r) (cc_app c))"
  have inserts: "inserts_nothing (rn_task ?r)"
    using minded n by (simp add: connections_minded_def list_all_length)
  have "connection_of (ap_connections (cc_app c)) d = Some k"
    if "connection_of (ap_connections ?s) d = Some k" for d k
    using that by (cases rule: resume_connection) (use inserts in simp_all)
  then show ?thesis
    using minded inserts_resume [OF inserts] n
    by (simp add: connections_minded_def list_all_update advance_def case_prod_beta)
qed

lemma event_minded:
  assumes minded: "connections_minded c"
  shows "connections_minded (snd (concurrent_step E (Event n event) c))"
proof (cases "\<exists>session. n < length (cc_sessions c) \<and> rn_task (cc_sessions c ! n) = Finished (Some session)")
  case True
  then obtain session where n: "n < length (cc_sessions c)" "rn_task (cc_sessions c ! n) = Finished (Some session)"
    by blast
  let ?t = "map_task Some (session_task event session)"
  let ?r' = "(cc_sessions c ! n)\<lparr>rn_task := ?t\<rparr>"
  have "inserts minded ?t"
    unfolding inserts_map
    by (rule inserts_mono [OF session_inserts]) (simp add: minded_def minds_map result_holds_def)
  moreover have "\<exists>m < length (cc_sessions c). rn_who ((cc_sessions c)[n := ?r'] ! m) = Some d \<and>
      minds d (fst k) (result_holds d k) (rn_task ((cc_sessions c)[n := ?r'] ! m))"
    if before: "connection_of (ap_connections (cc_app c)) d = Some k" for d k
  proof -
    from minded before obtain m where m: "m < length (cc_sessions c)" "rn_who (cc_sessions c ! m) = Some d"
        "minds d (fst k) (result_holds d k) (rn_task (cc_sessions c ! m))"
      by (rule connections_mindedD)
    show ?thesis
    proof (cases "m = n")
      case True
      with m(3) n(2) have "holds_connection d (fst k, snd k) session"
        by (simp add: result_holds_def)
      from session_minds [OF this, of event] m True show ?thesis
        by (intro exI [of _ n]) (simp add: minds_map result_holds_def)
    next
      case False
      with m show ?thesis
        by (intro exI [of _ m]) simp
    qed
  qed
  ultimately show ?thesis
    using minded n by (simp add: connections_minded_def list_all_update del: session_task.simps)
next
  case False
  then have "snd (concurrent_step E (Event n event) c) = c"
    by (auto split: task.split option.split)
  with minded show ?thesis by simp
qed

lemma step_minded:
  assumes "connections_minded c" and "all_entitled c"
  shows "connections_minded (snd (concurrent_step E op c))"
proof (cases op)
  case (Upgrade q fails)
  have "\<exists>n < Suc (length (cc_sessions c)). rn_who ((cc_sessions c @ [r]) ! n) = Some d \<and>
      minds d (fst k) (result_holds d k) (rn_task ((cc_sessions c @ [r]) ! n))"
    if before: "connection_of (ap_connections (cc_app c)) d = Some k" for d k r
  proof -
    from assms(1) before obtain n where "n < length (cc_sessions c)" "rn_who (cc_sessions c ! n) = Some d"
        "minds d (fst k) (result_holds d k) (rn_task (cc_sessions c ! n))"
      by (rule connections_mindedD)
    then show ?thesis
      by (intro exI [of _ n]) (simp add: nth_append)
  qed
  with assms Upgrade show ?thesis
    by (simp add: connections_minded_def spawn_def websocket_inserts)
next
  case (RunSession n)
  with assms session_call_minded [OF assms] show ?thesis
    by (cases "n < length (cc_sessions c)") simp_all
next
  case (RunRequest n)
  with assms request_call_minded [OF assms(1)] show ?thesis
    by (cases "n < length (cc_requests c)") simp_all
qed (use assms event_minded in \<open>simp_all add: connections_minded_def spawn_def request_inserts\<close>)

interpretation holding: machine "concurrent_step E" "\<lambda>c. connections_minded c \<and> all_entitled c" for E
  by unfold_locales (simp add: step_minded step_entitled)

lemma start_minded: "connections_minded concurrent_start"
  by (simp add: connections_minded_def concurrent_start_def connection_of_def AppState_default_def
      ConnectionRegistry_default_def)

section \<open>Property\<close>

text \<open>
  C16. Connections do not leak, however requests and sessions are interleaved. After any run, whatever
  connection the registry holds for a device belongs to a session of this very device that holds it
  or is in the middle of a call sequence; left to itself, that session ends up holding the
  connection, or the registry no longer holds it. A session that has ended has none.
\<close>

theorem connections_do_not_leak_concurrently:
  "let c = snd (run (concurrent_step E) ops concurrent_start)
   in case cr_inner (ap_connections (cc_app c)) d of
        None \<Rightarrow> True
      | Some state \<Rightarrow>
          list_ex (\<lambda>r. rn_who r = Some d \<and>
            (case complete E (rn_task r) (cc_app c) of (result, s) \<Rightarrow>
               (case result of
                  None \<Rightarrow> False
                | Some session \<Rightarrow> ss_device session = d \<and> ss_phase session \<noteq> Ended \<and>
                    phase_connection (ss_phase session) = Some (cs_id state, cs_sender state)) \<or>
               (case cr_inner (ap_connections s) d of
                  None \<Rightarrow> True
                | Some state' \<Rightarrow> (cs_id state', cs_sender state') \<noteq> (cs_id state, cs_sender state))))
            (cc_sessions c)"
proof -
  let ?c = "snd (run (concurrent_step E) ops concurrent_start)"
  have minded: "connections_minded ?c"
    using holding.run_inv [of concurrent_start E ops] start_minded start_entitled by blast
  show ?thesis
  proof (cases "cr_inner (ap_connections (cc_app ?c)) d")
    case (Some state)
    let ?k = "(cs_id state, cs_sender state)"
    have "connection_of (ap_connections (cc_app ?c)) d = Some ?k"
      using Some by (simp add: connection_of_def)
    with minded obtain n where n: "n < length (cc_sessions ?c)" "rn_who (cc_sessions ?c ! n) = Some d"
        "minds d (fst ?k) (result_holds d ?k) (rn_task (cc_sessions ?c ! n))"
      by (rule connections_mindedD)
    obtain result s where complete: "complete E (rn_task (cc_sessions ?c ! n)) (cc_app ?c) = (result, s)"
      by fastforce
    have "result_holds d ?k result \<or> connection_of (ap_connections s) d \<noteq> Some ?k"
      using minds_complete [OF n(3), of E "cc_app ?c" "cs_sender state"] complete by simp
    then have "(case result of
          None \<Rightarrow> False
        | Some session \<Rightarrow> ss_device session = d \<and> ss_phase session \<noteq> Ended \<and>
            phase_connection (ss_phase session) = Some ?k) \<or>
       (case cr_inner (ap_connections s) d of
          None \<Rightarrow> True
        | Some state' \<Rightarrow> (cs_id state', cs_sender state') \<noteq> ?k)"
      by (auto simp: result_holds_def holds_connection_def connection_of_def split: option.splits)
    with n Some complete show ?thesis
      by (auto simp: Let_def list_ex_iff intro!: bexI [OF _ nth_mem])
  qed (simp add: Let_def)
qed

end
