(* ===== verification/Dispatch.thy ===== *)
theory Dispatch
  imports Concurrent
begin

text \<open>
  What concurrent tasks deliver: a message is passed to a channel, kept waiting or sent on a socket
  only if it was accepted before from its authenticated sender and is addressed to the device that
  gets it - wherever other tasks run in between.
\<close>

section \<open>Channels and their devices\<close>

text \<open>
  The devices for which channels were made, in order: channel \<open>c\<close> was made for \<open>w ! c\<close>. Other tasks
  can only make further ones.
\<close>

type_synonym owners = "16 arr list"

definition sound_app :: "primitives \<Rightarrow> EncryptedMessage set \<Rightarrow> owners \<Rightarrow> AppState \<Rightarrow> bool" where
  "sound_app P A w s \<longleftrightarrow> app_ok P A (\<lambda>c. w ! c) s \<and> cr_made (ap_connections s) = length w"

definition sound_session :: "EncryptedMessage set \<Rightarrow> owners \<Rightarrow> ws_session \<Rightarrow> bool" where
  "sound_session A w session \<longleftrightarrow> session_ok A (\<lambda>c. w ! c) (length w) session"

lemma prefix_nth: "prefix w w' \<Longrightarrow> c < length w \<Longrightarrow> w' ! c = w ! c"
  by (auto simp: prefix_def nth_append)

lemma sound_session_mono: "sound_session A w session \<Longrightarrow> prefix w w' \<Longrightarrow> sound_session A w' session"
  unfolding sound_session_def
  by (erule session_ok_mono) (auto simp: prefix_nth prefix_length_le)

lemma carries_cong:
  assumes "carries Q owner r" and "connections_inv r" and "\<And>c. c < cr_made r \<Longrightarrow> owner' c = owner c"
  shows "carries Q owner' r"
proof -
  have "list_all (Q (owner' c)) (cr_sends r c)" for c
    using carriesD(3) [OF assms(1), of c] connections_invD(3) [OF assms(2), of c] assms(3) [of c]
    by (cases "c < cr_made r") simp_all
  then show ?thesis
    using carriesD(1,2) [OF assms(1)] sender_fresh [OF assms(2)] assms(3) by (auto simp: carries_def)
qed

lemma carries_insert:
  assumes "connections_inv r" and "carries Q (\<lambda>c. w ! c) r" and "cr_made r = length w"
  shows "carries Q (\<lambda>c. (w @ [d]) ! c) (snd (insert_connection d i r))"
proof -
  have "carries Q (\<lambda>c. (w @ [d]) ! c) r"
    using assms by (intro carries_cong [OF assms(2,1)]) (simp add: nth_append)
  then show ?thesis
    using assms(3) unfolding carries_def by (auto split: if_splits)
qed

lemma carries_next_id: "carries Q owner (snd (next_connection_id r)) \<longleftrightarrow> carries Q owner r"
  by (simp add: carries_def)

section \<open>Tasks that keep to it\<close>

text \<open>
  A task is tame if what it does next is sound, whatever the answers - as far as the answers are
  ones the components can give: accepted messages are of \<open>A\<close> and valid, what is pulled for a device
  may be delivered to it, and a channel is new.
\<close>

primrec tame :: "EncryptedMessage set \<Rightarrow> (owners \<Rightarrow> 'r \<Rightarrow> bool) \<Rightarrow> 'r task \<Rightarrow> owners \<Rightarrow> bool" where
  "tame A Q (Finished r) = (\<lambda>w. Q w r)"
| "tame A Q (AwaitAuth q method path body k) = (\<lambda>w. \<forall>a. tame A Q (k a) w)"
| "tame A Q (AwaitPush now m k) =
     (\<lambda>w. \<forall>a. (a = Accepted \<longrightarrow> msg_ok A (em_recipient_device_id m) m) \<longrightarrow> tame A Q (k a) w)"
| "tame A Q (AwaitPull now d k) = (\<lambda>w. \<forall>ms. list_all (msg_ok A d) ms \<longrightarrow> tame A Q (k ms) w)"
| "tame A Q (AwaitAck d i k) = (\<lambda>w. \<forall>a. tame A Q (k a) w)"
| "tame A Q (AwaitPublish d p now k) = (\<lambda>w. \<forall>a. tame A Q (k a) w)"
| "tame A Q (AwaitActive d now k) = (\<lambda>w. \<forall>a. tame A Q (k a) w)"
| "tame A Q (AwaitRevoke d generation now k) = (\<lambda>w. \<forall>a. tame A Q (k a) w)"
| "tame A Q (AwaitClaim r generation key_id d request now k) = (\<lambda>w. \<forall>a. tame A Q (k a) w)"
| "tame A Q (AwaitNextId k) = (\<lambda>w. \<forall>a. tame A Q (k a) w)"
| "tame A Q (AwaitInsert d i k) =
     (\<lambda>w. \<forall>w'. prefix w w' \<longrightarrow> tame A Q (k (length w')) (w' @ [d]))"
| "tame A Q (AwaitUnregister d i k) = (\<lambda>w. tame A Q (k ()) w)"
| "tame A Q (AwaitTrySend d m k) = (\<lambda>w. msg_ok A d m \<and> tame A Q (k ()) w)"
| "tame A Q (AwaitActivate d i delivered k) = (\<lambda>w. \<forall>a. tame A Q (k a) w)"

lemma tame_mono:
  assumes "\<And>w w' r. Q w r \<Longrightarrow> prefix w w' \<Longrightarrow> Q w' r"
  shows "tame A Q t w \<Longrightarrow> prefix w w' \<Longrightarrow> tame A Q t w'"
proof (induction t arbitrary: w w')
  case (Finished r)
  with assms show ?case by simp
next
  case (AwaitInsert d i k)
  then show ?case
    by (simp add: prefix_order.trans)
qed (simp_all, blast+)

lemma tame_map: "tame A Q (map_task f t) w \<longleftrightarrow> tame A (\<lambda>w r. Q w (f r)) t w"
  by (induction t arbitrary: w) auto

text \<open>One call of a tame task leaves the shared state sound and the task tame.\<close>

lemma tame_resume:
  assumes s: "sound_app P A w s" and "tame A Q t w" and P: "P = ge_primitives E"
    and A: "\<And>now m. call_of t = Some (CallRelay (RPush now m)) \<Longrightarrow>
      fst (RelayStore_push now m (ap_relay s)) = Accepted \<Longrightarrow> m \<in> A"
  shows "\<exists>w'. prefix w w' \<and> sound_app P A w' (snd (resume E t s)) \<and> tame A Q (fst (resume E t s)) w'"
proof -
  have ok: "app_ok P A (\<lambda>c. w ! c) s" and made: "cr_made (ap_connections s) = length w"
    and relay: "relay_inv (ap_relay s)" "stored_in A (ap_relay s)"
    and conns: "connections_inv (ap_connections s)" "carries (msg_ok A) (\<lambda>c. w ! c) (ap_connections s)"
    and reg: "registry_inv P (ap_prekeys s)"
    using s by (auto simp: sound_app_def app_ok_def)
  have same: ?thesis if "sound_app P A w (snd (resume E t s))" "tame A Q (fst (resume E t s)) w"
    using that by blast
  show ?thesis
  proof (cases t)
    case (AwaitPush now m k)
    obtain a g where a: "RelayStore_push now m (ap_relay s) = (a, g)"
      by fastforce
    have "stored_in A g" "relay_inv g"
      using stored_in_step [OF relay, of "RPush now m"] push_inv [OF relay(1) a] A [of now m] a
      by (cases a; simp add: AwaitPush)+
    moreover have "msg_ok A (em_recipient_device_id m) m" if "a = Accepted"
      using push_cases [OF relay(1) a] A [of now m] a that by (auto simp: msg_ok_def AwaitPush)
    ultimately show ?thesis
      using s assms(2) a by (intro same) (auto simp: AwaitPush sound_app_def app_ok_def)
  next
    case (AwaitPull now d k)
    obtain ms g where pull: "RelayStore_pull now d (ap_relay s) = (ms, g)"
      by fastforce
    have "list_all (msg_ok A d) ms"
      using pull_held [OF relay(1), of now d] pull live_queue_ok [OF relay(1), of d now] relay(2)
      by (auto simp: list_all_iff msg_ok_def queue_ok_def live_queue_held stored_in_def)
    moreover have "stored_in A g" "relay_inv g"
      using stored_in_step [OF relay, of "RPull now d"] pull_inv [OF relay(1), of now d] pull by simp_all
    ultimately show ?thesis
      using s assms(2) pull by (intro same) (auto simp: AwaitPull sound_app_def app_ok_def)
  next
    case (AwaitAck d i k)
    have "stored_in A (snd (RelayStore_ack d i (ap_relay s)))" "relay_inv (snd (RelayStore_ack d i (ap_relay s)))"
      using stored_in_step [OF relay, of "RAck d i"] ack_inv [OF relay(1), of d i] by simp_all
    then show ?thesis
      using s assms(2) by (intro same) (auto simp: AwaitAck sound_app_def app_ok_def case_prod_beta)
  next
    case (AwaitInsert d i k)
    have "sound_app P A (w @ [d]) (snd (resume E t s))"
      using s carries_insert [OF conns made] insert_inv [OF conns(1)] made
      by (simp add: AwaitInsert sound_app_def app_ok_def case_prod_beta)
    moreover have "tame A Q (fst (resume E t s)) (w @ [d])"
      using assms(2) made by (simp add: AwaitInsert case_prod_beta)
    ultimately show ?thesis
      by (intro exI [of _ "w @ [d]"]) simp
  next
    case (AwaitTrySend d m k)
    then show ?thesis
      using s assms(2) by (intro same)
        (auto simp: sound_app_def app_ok_def carries_try_send try_send_inv)
  next
    case (AwaitAuth q verb url body k)
    then show ?thesis
      using s assms(2) by (intro same) (auto simp: sound_app_def app_ok_def authorize_def case_prod_beta)
  next
    case (AwaitPublish d p now k)
    then show ?thesis
      using s assms(2)
      by (intro same) (auto simp: P sound_app_def app_ok_def case_prod_beta intro: publish_inv [OF prod.collapse [symmetric]])
  next
    case (AwaitRevoke d generation now k)
    then show ?thesis
      using s assms(2) revoke_inv [OF reg] by (intro same) (auto simp: sound_app_def app_ok_def case_prod_beta)
  next
    case (AwaitClaim r generation key_id d request now k)
    then show ?thesis
      using s assms(2) by (intro same) (auto simp: sound_app_def app_ok_def case_prod_beta intro: claim_inv [OF prod.collapse [symmetric]])
  next
    case (AwaitNextId k)
    then show ?thesis
      using s assms(2) by (intro same)
        (auto simp: sound_app_def app_ok_def case_prod_beta carries_next_id next_id_inv)
  next
    case (AwaitUnregister d i k)
    then show ?thesis
      using s assms(2) by (intro same) (auto simp: sound_app_def app_ok_def carries_unregister unregister_inv)
  next
    case (AwaitActivate d i delivered k)
    then show ?thesis
      using s assms(2) by (intro same)
        (auto simp: sound_app_def app_ok_def carries_activate activate_inv case_prod_beta)
  qed (use s assms(2) in \<open>auto intro: same\<close>)
qed

lemma tame_with_path_id:
  "(\<And>e. Q w (refuse e)) \<Longrightarrow> Q w AnsPanic \<Longrightarrow> (\<And>d. tame A Q (k d) w) \<Longrightarrow>
   tame A Q (with_path_id text refuse k) w"
  by (auto simp: with_path_id_def split: panicking.split option.split)

lemma request_tame: "tame A (\<lambda>_ _. True) (request_task E op) w"
  by (cases op)
    (auto simp: enqueue_task_def poll_task_def ack_task_def publish_task_def get_prekeys_task_def
      revoke_task_def claim_task_def Let_def intro!: tame_with_path_id
      split: sum.split option.split PushResult.split)

definition sound_result :: "EncryptedMessage set \<Rightarrow> owners \<Rightarrow> ws_session option \<Rightarrow> bool" where
  "sound_result A w r \<longleftrightarrow> pred_option (sound_session A w) r"

lemma sound_result_mono: "sound_result A w r \<Longrightarrow> prefix w w' \<Longrightarrow> sound_result A w' r"
  by (cases r) (auto simp: sound_result_def intro: sound_session_mono)

lemma websocket_tame:
  "tame A (sound_result A) (websocket_task q \<lparr>so_sent = [], so_attempts = 0, so_fails = fails\<rparr>) w"
  by (simp add: websocket_task_def sound_result_def sound_session_def session_ok_def sends_ok_def split: sum.split)

lemma sound_session_iff:
  "sound_session A w session \<longleftrightarrow> sends_ok A (ss_device session) (ss_socket session) \<and>
     phase_ok A (\<lambda>c. w ! c) (length w) (ss_device session) (ss_phase session)"
  by (simp add: sound_session_def session_ok_def)

lemma end_tame:
  "sends_ok A (ss_device session) (ss_socket session) \<Longrightarrow> tame A (sound_session A) (end_task i session) w"
  by (simp add: end_task_def sound_session_iff)

lemma or_end_tame:
  "sends_ok A (ss_device session) (snd result) \<Longrightarrow>
   phase_ok A (\<lambda>c. w ! c) (length w) (ss_device session) phase \<Longrightarrow>
   tame A (sound_session A) (or_end_task result i phase session) w"
  by (simp add: or_end_task_def Let_def end_tame sound_session_iff)

lemma frame_tame:
  assumes "sends_ok A d so" and k: "\<And>r so'. sends_ok A d so' \<Longrightarrow> tame A Q (k (r, so')) w"
  shows "tame A Q (frame_task now kind payload d so k) w"
proof (cases kind)
  case Ping
  then show ?thesis
    using sends_ok_pong [OF assms(1), of 0 payload]
    by (auto simp: frame_task_def case_prod_beta intro: k split: sum.split)
next
  case EncryptedMessageFrame
  then show ?thesis
    using assms(1) by (auto simp: frame_task_def Let_def intro: k sends_ok_close split: sum.split PushResult.split)
qed (use assms(1) in \<open>auto simp: frame_task_def intro: k sends_ok_close split: sum.split\<close>)

lemma message_tame:
  assumes "sends_ok A d so" and k: "\<And>r so'. sends_ok A d so' \<Longrightarrow> tame A Q (k (r, so')) w"
  shows "tame A Q (message_task now message d so k) w"
proof (cases message)
  case (WsPing bs)
  then show ?thesis
    using sends_ok_send [OF assms(1), of "WsPong bs"]
    by (auto simp: message_task_def case_prod_beta intro: k split: sum.split)
qed (use assms(1) in \<open>auto simp: message_task_def intro: k frame_tame sends_ok_close split: sum.split\<close>)

text \<open>What a session receives has to be what was sent on its channel.\<close>

lemma session_tame:
  assumes "sound_session A w session"
    and received: "\<And>i c t m. ss_phase session = Live i c t \<Longrightarrow> event = Outbound (Some m) \<Longrightarrow>
      msg_ok A (ss_device session) m"
  shows "tame A (sound_session A) (session_task event session) w"
proof -
  have so: "sends_ok A (ss_device session) (ss_socket session)"
    and phase: "phase_ok A (\<lambda>c. w ! c) (length w) (ss_device session) (ss_phase session)"
    using assms(1) by (simp_all add: sound_session_iff)
  show ?thesis
  proof (cases "ss_phase session")
    case AwaitHello
    with so show ?thesis
      by (cases event) (auto simp: sound_session_iff sends_ok_close owns_def)
  next
    case (Registered i c)
    with so phase show ?thesis
      by (cases event) (auto simp: sound_session_iff intro!: or_end_tame sends_ok_hello)
  next
    case (Greeted i c)
    with so phase show ?thesis
      by (cases event) (auto simp: sound_session_iff)
  next
    case (SendingBacklog i c delivered backlog)
    with so phase show ?thesis
      by (cases event; cases backlog) (auto simp: sound_session_iff intro!: or_end_tame sends_ok_encrypted)
  next
    case (Live i c t)
    show ?thesis
    proof (cases event)
      case (Inbound inbound now instant)
      with Live so phase show ?thesis
        by (cases inbound) (auto simp: Let_def sound_session_iff intro!: end_tame message_tame)
    next
      case (Outbound received)
      with Live so phase assms(2) show ?thesis
        by (cases received) (auto intro!: end_tame or_end_tame sends_ok_encrypted)
    next
      case (IdleTimeout instant)
      with Live so assms(1) show ?thesis
        by (auto intro!: end_tame sends_ok_close)
    qed (use Live assms(1) in simp_all)
  next
    case Ended
    with assms(1) show ?thesis by (cases event) simp_all
  qed
qed

section \<open>Runs\<close>

definition all_tame :: "primitives \<Rightarrow> EncryptedMessage set \<Rightarrow> concurrent \<Rightarrow> bool" where
  "all_tame P A c \<longleftrightarrow>
     (\<exists>w. sound_app P A w (cc_app c) \<and>
        list_all (\<lambda>r. tame A (\<lambda>_ _. True) (rn_task r) w) (cc_requests c) \<and>
        list_all (\<lambda>r. tame A (sound_result A) (rn_task r) w) (cc_sessions c))"

text \<open>The message a step made the relay accept, if any.\<close>

definition accepts :: "gateway_env \<Rightarrow> concurrent_op \<Rightarrow> concurrent \<Rightarrow> EncryptedMessage option" where
  "accepts E op c =
     Option.bind (Option.bind (fst (concurrent_step E op c)) relay_call) (\<lambda>rop.
       accepted_message rop (fst (relay_step rop (ap_relay (cc_app c)))))"

text \<open>A session that takes a message from its channel takes one that was sent on it.\<close>

definition takes_sent :: "concurrent_op \<Rightarrow> concurrent \<Rightarrow> bool" where
  "takes_sent op c \<longleftrightarrow>
     (case op of
        Event n (Outbound (Some m)) \<Rightarrow>
          if n < length (cc_sessions c)
          then (case rn_task (cc_sessions c ! n) of
              Finished (Some session) \<Rightarrow>
                (case ss_phase session of
                   Live i channel t \<Rightarrow> m \<in> set (cr_sends (ap_connections (cc_app c)) channel)
                 | _ \<Rightarrow> True)
            | _ \<Rightarrow> True)
          else True
      | _ \<Rightarrow> True)"

lemma list_all_mono: "list_all P xs \<Longrightarrow> (\<And>x. P x \<Longrightarrow> Q x) \<Longrightarrow> list_all Q xs"
  by (rule list.pred_mono_strong)

lemma all_tameI:
  assumes "sound_app P A w' (cc_app c')" and "prefix w w'"
    and "list_all (\<lambda>r. tame A (\<lambda>_ _. True) (rn_task r) w) (cc_requests c)"
    and "list_all (\<lambda>r. tame A (sound_result A) (rn_task r) w) (cc_sessions c)"
    and "cc_requests c' = cc_requests c \<or>
      (\<exists>n r. cc_requests c' = (cc_requests c)[n := r] \<and> tame A (\<lambda>_ _. True) (rn_task r) w')"
    and "cc_sessions c' = cc_sessions c \<or>
      (\<exists>n r. cc_sessions c' = (cc_sessions c)[n := r] \<and> tame A (sound_result A) (rn_task r) w')"
  shows "all_tame P A c'"
proof -
  have "list_all (\<lambda>r. tame A (\<lambda>_ _. True) (rn_task r) w') (cc_requests c)"
    using assms(3) by (rule list_all_mono) (rule tame_mono [OF _ _ assms(2)]; simp)
  then have requests: "list_all (\<lambda>r. tame A (\<lambda>_ _. True) (rn_task r) w') (cc_requests c')"
    using assms(5) by (auto simp: list_all_update)
  have "list_all (\<lambda>r. tame A (sound_result A) (rn_task r) w') (cc_sessions c)"
    using assms(4) by (rule list_all_mono) (rule tame_mono [OF sound_result_mono _ assms(2)])
  then have "list_all (\<lambda>r. tame A (sound_result A) (rn_task r) w') (cc_sessions c')"
    using assms(6) by (auto simp: list_all_update)
  with assms(1) requests show ?thesis
    unfolding all_tame_def by blast
qed

lemma all_tame_request:
  assumes "sound_app P A w' s" and "prefix w w'"
    and "list_all (\<lambda>r. tame A (\<lambda>_ _. True) (rn_task r) w) (cc_requests c)"
    and "list_all (\<lambda>r. tame A (sound_result A) (rn_task r) w) (cc_sessions c)"
    and "tame A (\<lambda>_ _. True) (rn_task r) w'"
  shows "all_tame P A (c\<lparr>cc_app := s, cc_requests := (cc_requests c)[n := r]\<rparr>)"
  by (rule all_tameI [OF _ assms(2-4)]) (use assms(1,5) in auto)

lemma all_tame_session:
  assumes "sound_app P A w' s" and "prefix w w'"
    and "list_all (\<lambda>r. tame A (\<lambda>_ _. True) (rn_task r) w) (cc_requests c)"
    and "list_all (\<lambda>r. tame A (sound_result A) (rn_task r) w) (cc_sessions c)"
    and "tame A (sound_result A) (rn_task r) w'"
  shows "all_tame P A (c\<lparr>cc_app := s, cc_sessions := (cc_sessions c)[n := r]\<rparr>)"
  by (rule all_tameI [OF _ assms(2-4)]) (use assms(1,5) in auto)

lemma accepts_push:
  assumes "fst (concurrent_step E op c) = call_by r"
    and "call_of (rn_task r) = Some (CallRelay (RPush now m))"
    and "fst (RelayStore_push now m (ap_relay (cc_app c))) = Accepted"
  shows "accepts E op c = Some m"
  using assms by (simp add: accepts_def call_by_def)

lemma advance_tame:
  assumes "sound_app P A w s" and "tame A Q (rn_task r) w" and "P = ge_primitives E"
    and "\<And>now m. call_of (rn_task r) = Some (CallRelay (RPush now m)) \<Longrightarrow>
      fst (RelayStore_push now m (ap_relay s)) = Accepted \<Longrightarrow> m \<in> A"
  obtains w' where "prefix w w'" and "sound_app P A w' (snd (advance E r s))"
    and "tame A Q (rn_task (fst (advance E r s))) w'"
proof -
  have "\<exists>w'. prefix w w' \<and> sound_app P A w' (snd (resume E (rn_task r) s)) \<and>
      tame A Q (fst (resume E (rn_task r) s)) w'"
    by (rule tame_resume [OF assms(1-3)]) (rule assms(4))
  then obtain w' where "prefix w w'" "sound_app P A w' (snd (resume E (rn_task r) s))"
      "tame A Q (fst (resume E (rn_task r) s)) w'"
    by blast
  then show thesis
    by (intro that) (simp_all add: advance_def case_prod_beta)
qed

lemma event_tame:
  assumes tame: "all_tame P A c" and "takes_sent (Event n event) c"
  shows "all_tame P A (snd (concurrent_step E (Event n event) c))"
proof (cases "\<exists>session. n < length (cc_sessions c) \<and> rn_task (cc_sessions c ! n) = Finished (Some session)")
  case True
  then obtain session where s: "n < length (cc_sessions c)" "rn_task (cc_sessions c ! n) = Finished (Some session)"
    by blast
  obtain w where w: "sound_app P A w (cc_app c)"
      "list_all (\<lambda>r. tame A (\<lambda>_ _. True) (rn_task r) w) (cc_requests c)"
      "list_all (\<lambda>r. tame A (sound_result A) (rn_task r) w) (cc_sessions c)"
    using tame by (auto simp: all_tame_def)
  then have "tame A (sound_result A) (Finished (Some session)) w"
    using s by (metis list_all_length)
  then have session: "sound_session A w session"
    by (simp add: sound_result_def)
  have "msg_ok A (ss_device session) m" if "ss_phase session = Live i ch t" "event = Outbound (Some m)" for i ch t m
  proof -
    have "m \<in> set (cr_sends (ap_connections (cc_app c)) ch)"
      using assms(2) s that by (simp add: takes_sent_def)
    moreover have "list_all (msg_ok A (w ! ch)) (cr_sends (ap_connections (cc_app c)) ch)"
      using w(1) carriesD(3) [of "msg_ok A" "\<lambda>c. w ! c"] by (simp add: sound_app_def app_ok_def)
    moreover have "w ! ch = ss_device session"
      using session that by (simp add: sound_session_iff owns_def)
    ultimately show ?thesis by (simp add: list_all_iff)
  qed
  with session have "tame A (sound_session A) (session_task event session) w"
    by (intro session_tame)
  then have "tame A (sound_result A) (map_task Some (session_task event session)) w"
    by (simp add: tame_map sound_result_def)
  then show ?thesis
    using all_tame_session [OF w(1) _ w(2,3), of "(cc_sessions c ! n)\<lparr>rn_task := map_task Some (session_task event session)\<rparr>" n] s
    by (simp del: session_task.simps)
next
  case False
  then have "snd (concurrent_step E (Event n event) c) = c"
    by (auto split: task.split option.split)
  with tame show ?thesis by simp
qed

lemma step_tame:
  assumes tame: "all_tame (ge_primitives E) A c" and A: "\<And>m. accepts E op c = Some m \<Longrightarrow> m \<in> A"
    and "takes_sent op c"
  shows "all_tame (ge_primitives E) A (snd (concurrent_step E op c))"
proof -
  obtain w where w: "sound_app (ge_primitives E) A w (cc_app c)"
      "list_all (\<lambda>r. tame A (\<lambda>_ _. True) (rn_task r) w) (cc_requests c)"
      "list_all (\<lambda>r. tame A (sound_result A) (rn_task r) w) (cc_sessions c)"
    using tame by (auto simp: all_tame_def)
  show ?thesis
  proof (cases op)
    case (Arrive gop)
    with w show ?thesis
      by (auto simp: all_tame_def spawn_def request_tame intro!: exI [of _ w])
  next
    case (Upgrade q fails)
    with w show ?thesis
      by (auto simp: all_tame_def spawn_def websocket_tame intro!: exI [of _ w])
  next
    case (Event n event)
    show ?thesis
      unfolding Event by (rule event_tame [OF tame]) (use assms(3) Event in simp)
  next
    case (RunRequest n)
    show ?thesis
    proof (cases "n < length (cc_requests c)")
      case True
      let ?r = "cc_requests c ! n"
      have call: "fst (concurrent_step E op c) = call_by ?r"
        using True by (simp add: RunRequest case_prod_beta)
      have A: "m \<in> A" if "call_of (rn_task ?r) = Some (CallRelay (RPush now m))"
        "fst (RelayStore_push now m (ap_relay (cc_app c))) = Accepted" for now m
        by (rule assms(2) [OF accepts_push [OF call that]])
      have r: "tame A (\<lambda>_ _. True) (rn_task ?r) w"
        using w(2) True by (simp add: list_all_length)
      obtain w' where "prefix w w'" "sound_app (ge_primitives E) A w' (snd (advance E ?r (cc_app c)))"
          "tame A (\<lambda>_ _. True) (rn_task (fst (advance E ?r (cc_app c)))) w'"
        by (rule advance_tame [OF w(1) r refl A])
      with True show ?thesis
        by (simp add: RunRequest case_prod_beta all_tame_request [OF _ _ w(2,3)])
    qed (use tame RunRequest in simp)
  next
    case (RunSession n)
    show ?thesis
    proof (cases "n < length (cc_sessions c)")
      case True
      let ?r = "cc_sessions c ! n"
      have call: "fst (concurrent_step E op c) = call_by ?r"
        using True by (simp add: RunSession case_prod_beta)
      have A: "m \<in> A" if "call_of (rn_task ?r) = Some (CallRelay (RPush now m))"
        "fst (RelayStore_push now m (ap_relay (cc_app c))) = Accepted" for now m
        by (rule assms(2) [OF accepts_push [OF call that]])
      have r: "tame A (sound_result A) (rn_task ?r) w"
        using w(3) True by (simp add: list_all_length)
      obtain w' where "prefix w w'" "sound_app (ge_primitives E) A w' (snd (advance E ?r (cc_app c)))"
          "tame A (sound_result A) (rn_task (fst (advance E ?r (cc_app c)))) w'"
        by (rule advance_tame [OF w(1) r refl A])
      with True show ?thesis
        by (simp add: RunSession case_prod_beta all_tame_session [OF _ _ w(2,3)])
    qed (use tame RunSession in simp)
  qed
qed

text \<open>Along a run.\<close>

fun all_take_sent :: "gateway_env \<Rightarrow> concurrent_op list \<Rightarrow> concurrent \<Rightarrow> bool" where
  "all_take_sent E [] c \<longleftrightarrow> True"
| "all_take_sent E (op # ops) c \<longleftrightarrow>
     takes_sent op c \<and> all_take_sent E ops (snd (concurrent_step E op c))"

fun acceptances :: "gateway_env \<Rightarrow> concurrent_op list \<Rightarrow> concurrent \<Rightarrow> EncryptedMessage list" where
  "acceptances E [] c = []"
| "acceptances E (op # ops) c =
     (case accepts E op c of None \<Rightarrow> [] | Some m \<Rightarrow> [m]) @ acceptances E ops (snd (concurrent_step E op c))"

lemma run_tame:
  "all_tame (ge_primitives E) A c \<Longrightarrow> set (acceptances E ops c) \<subseteq> A \<Longrightarrow> all_take_sent E ops c \<Longrightarrow>
   all_tame (ge_primitives E) A (snd (run (concurrent_step E) ops c))"
proof (induction ops arbitrary: c)
  case (Cons op ops)
  have "all_tame (ge_primitives E) A (snd (concurrent_step E op c))"
    using Cons.prems by (intro step_tame) (auto split: option.splits)
  with Cons show ?case by simp
qed simp

lemma start_tame: "all_tame P A concurrent_start"
proof -
  have "sound_app P A [] AppState_default"
    by (simp add: sound_app_def app_ok_def stored_in_def AppState_default_def held_default
        relay_inv_default registry_inv_default default_inv carries_default)
      (simp add: ConnectionRegistry_default_def)
  then show ?thesis
    by (auto simp: all_tame_def concurrent_start_def)
qed

text \<open>Accepted messages come from devices that were authenticated before.\<close>

lemma accepts_sender:
  assumes "all_entitled c" and "all_named D c" and "accepts E op c = Some m"
  shows "em_sender_device_id m \<in> D"
proof -
  obtain who now where call: "fst (concurrent_step E op c) = Some (who, CallRelay (RPush now m))"
    using assms(3) by (auto simp: accepts_def bind_eq_Some_conv elim!: relay_call.elims accepted_message.elims split: if_splits)
  then have "who = Some (em_sender_device_id m)"
    using step_entitled [OF assms(1), of E op] by (cases who) simp_all
  with call assms(2) show ?thesis
    by (auto dest: call_named)
qed

lemma acceptances_senders:
  "all_entitled c \<Longrightarrow> all_named D c \<Longrightarrow>
   list_all (\<lambda>m. em_sender_device_id m \<in> D \<union> set (authentications E ops c)) (acceptances E ops c)"
proof (induction ops arbitrary: D c)
  case (Cons op ops)
  have rest: "list_all (\<lambda>m. em_sender_device_id m \<in> D \<union> set (authentications E (op # ops) c))
      (acceptances E ops (snd (concurrent_step E op c)))"
    using Cons.IH [OF step_entitled [OF Cons.prems(1), THEN conjunct1] step_named [OF Cons.prems(2), of E op]]
    by (rule list.pred_mono_strong) (auto split: option.splits)
  show ?case
  proof (cases "accepts E op c")
    case (Some m)
    with rest accepts_sender [OF Cons.prems Some] show ?thesis by simp
  qed (use rest in simp)
qed simp

section \<open>A session that is left undisturbed\<close>

lemma resume_map: "resume E (map_task f t) s = apfst (map_task f) (resume E t s)"
  by (cases t) (simp_all add: case_prod_beta apfst_def map_prod_def comp_def)

lemma done_complete:
  "done_within 0 t \<Longrightarrow> t = Finished (fst (complete E t s)) \<and> snd (complete E t s) = s"
  by auto

lemma resume_twice:
  assumes "done_within 2 t" and "complete E t s = (r, s'')" and "resume E t s = (t', s')"
  shows "resume E t' s' = (Finished r, s'')"
proof -
  obtain r' where "fst (resume E t' s') = Finished r'"
    using done_within_steps(2) [OF assms(1), of E s s'] assms(3) by auto
  then have "resume E t' s' = (Finished r', snd (resume E t' s'))"
    by (simp add: prod_eq_iff)
  moreover have "complete E t s = (case resume E t' s' of (t'', s'') \<Rightarrow> complete E t'' s'')"
    using complete_resume [of E t s] complete_resume [of E t' s'] assms(3) by simp
  ultimately show ?thesis
    using assms(2) by (metis complete.simps(1) case_prod_conv prod.inject)
qed

definition undisturbed :: "session_event \<Rightarrow> concurrent_op list" where
  "undisturbed event = [Event 0 event, RunSession 0, RunSession 0]"

lemma run_undisturbed:
  assumes c: "cc_sessions c = [\<lparr>rn_who = Some (ss_device session), rn_task = Finished (Some session)\<rparr>]"
    and step: "session_step event (session, cc_app c) = (session', s)"
  shows "snd (run (concurrent_step E) (undisturbed event) c) =
    c\<lparr>cc_app := s, cc_sessions := [\<lparr>rn_who = Some (ss_device session), rn_task = Finished (Some session')\<rparr>]\<rparr>"
proof -
  let ?d = "ss_device session" and ?t = "session_task event session"
  obtain t' s' where t': "resume E ?t (cc_app c) = (t', s')"
    by fastforce
  have twice: "resume E t' s' = (Finished session', s)"
    by (rule resume_twice [OF session_done _ t']) (simp only: session_complete step)
  have own: "entitled (\<lambda>who session. who = Some (ss_device session)) ?t (Some ?d)"
    by (rule session_entitled)
  then have name: "authenticated_as E ?t (cc_app c) (Some ?d) = Some ?d"
    by (rule keeps_name)
  with entitled_resume [OF own, of E "cc_app c"] t'
  have own': "entitled (\<lambda>who session. who = Some (ss_device session)) t' (Some ?d)"
    by simp
  have mapped: "authenticated_as E (map_task Some t) s who = authenticated_as E t s who" for t s who
    by (cases t) (simp_all add: authenticated_as_def)
  show ?thesis
    using c name t' twice keeps_name [OF own', of E s']
    by (simp add: undisturbed_def advance_def resume_map mapped del: session_task.simps)
qed

text \<open>A session on its own, with the events of a list.\<close>

lemma run_session_alone:
  assumes "cc_sessions c = [\<lparr>rn_who = Some (ss_device session), rn_task = Finished (Some session)\<rparr>]"
    and "fold session_step events (session, cc_app c) = (session', s)"
  shows "snd (run (concurrent_step E) (concat (map undisturbed events)) c) =
    c\<lparr>cc_app := s, cc_sessions := [\<lparr>rn_who = Some (ss_device session), rn_task = Finished (Some session')\<rparr>]\<rparr>"
  using assms
proof (induction events arbitrary: c session)
  case (Cons event events)
  obtain session1 s1 where one: "session_step event (session, cc_app c) = (session1, s1)"
    by fastforce
  have device: "ss_device session1 = ss_device session"
    using session_step_effect [of event session "cc_app c"] one by simp
  show ?case
    using Cons.IH [of "c\<lparr>cc_app := s1, cc_sessions := [\<lparr>rn_who = Some (ss_device session),
        rn_task = Finished (Some session1)\<rparr>]\<rparr>" session1]
      run_undisturbed [OF Cons.prems(1) one, of E] Cons.prems one
    by (simp add: run_append_state device del: session_step.simps)
qed simp

section \<open>A sample run\<close>

lemma all_take_sent_append:
  "all_take_sent E (ops @ ops') c \<longleftrightarrow>
     all_take_sent E ops c \<and> all_take_sent E ops' (snd (run (concurrent_step E) ops c))"
  by (induction ops arbitrary: c) simp_all

lemma nothing_taken:
  "list_all (\<lambda>op. case op of Event n (Outbound (Some m)) \<Rightarrow> False | _ \<Rightarrow> True) ops \<Longrightarrow> all_take_sent E ops c"
proof (induction ops arbitrary: c)
  case (Cons op ops)
  have "takes_sent op c" for c
    using Cons.prems by (auto simp: takes_sent_def split: concurrent_op.splits session_event.splits option.splits)
  with Cons show ?case by simp
qed simp

definition sample_upgrade :: "concurrent_op list" where
  "sample_upgrade = [Upgrade sample_post (\<lambda>_. False), RunSession 0]"

definition sample_ops :: "concurrent_op list" where
  "sample_ops = sample_upgrade @ concat (map undisturbed sample_events) @
     [Event 0 (Outbound (Some sample_note))]"

lemma sample_session_started:
  obtains auth where "snd (run (concurrent_step sample_env) sample_upgrade concurrent_start) =
    \<lparr>cc_app = AppState_default\<lparr>ap_auth := auth\<rparr>, cc_requests = [],
     cc_sessions = [\<lparr>rn_who = Some (fill 1), rn_task = Finished (Some
       \<lparr>ss_device = fill 1, ss_socket = \<lparr>so_sent = [], so_attempts = 0, so_fails = (\<lambda>_. False)\<rparr>,
        ss_phase = AwaitHello\<rparr>)\<rparr>]\<rparr>"
proof -
  obtain s where auth: "authorize sample_env sample_post ''GET'' ''/v1/ws'' [] AppState_default = (Ok (fill 1), s)"
    using sample_authorize [of "''GET''" "''/v1/ws''" "[]"] by (auto simp: gateway_start_def prod_eq_iff)
  then have "s = AppState_default\<lparr>ap_auth := ap_auth s\<rparr>"
    by (auto simp: authorize_def split: prod.splits)
  with auth show thesis
    by (intro that [of "ap_auth s"])
      (simp add: sample_upgrade_def concurrent_start_def spawn_def websocket_task_def advance_def authenticated_as_def)
qed

lemma sample_ops_take_sent: "all_take_sent sample_env sample_ops concurrent_start"
proof -
  obtain auth where started: "snd (run (concurrent_step sample_env) sample_upgrade concurrent_start) =
    \<lparr>cc_app = AppState_default\<lparr>ap_auth := auth\<rparr>, cc_requests = [],
     cc_sessions = [\<lparr>rn_who = Some (fill 1), rn_task = Finished (Some
       \<lparr>ss_device = fill 1, ss_socket = \<lparr>so_sent = [], so_attempts = 0, so_fails = (\<lambda>_. False)\<rparr>,
        ss_phase = AwaitHello\<rparr>)\<rparr>]\<rparr>" (is "_ = ?c")
    by (rule sample_session_started)
  let ?session = "\<lparr>ss_device = fill 1, ss_socket = \<lparr>so_sent = [], so_attempts = 0, so_fails = (\<lambda>_. False)\<rparr>,
        ss_phase = AwaitHello\<rparr>"
  obtain session s where f: "fold session_step sample_events (?session, cc_app ?c) = (session, s)"
    by fastforce
  have live: "ss_phase session = Live 1 0 8 \<and> cr_sends (ap_connections s) 0 = [sample_note]"
    by (rule sample_session [OF _ _ _ f]) (simp_all add: works_def AppState_default_def)
  have ran: "snd (run (concurrent_step sample_env) (concat (map undisturbed sample_events)) ?c) =
      ?c\<lparr>cc_app := s, cc_sessions := [\<lparr>rn_who = Some (ss_device ?session), rn_task = Finished (Some session)\<rparr>]\<rparr>"
    by (rule run_session_alone [OF _ f]) simp
  have "all_take_sent sample_env (sample_upgrade @ concat (map undisturbed sample_events)) concurrent_start"
    by (rule nothing_taken) (simp add: sample_upgrade_def sample_events_def undisturbed_def)
  then show ?thesis
    using live by (simp add: sample_ops_def all_take_sent_append started ran takes_sent_def)
qed

end
