(* ===== verification/Polls.thy ===== *)
theory Polls
  imports Dispatch
begin

text \<open>
  What polls answer when tasks run concurrently: messages of the device that signed the poll, in the
  order in which they were accepted, whatever was pushed, pulled and acknowledged in between.
\<close>

section \<open>Answers with messages\<close>

definition answers_messages :: "gateway_answer \<Rightarrow> EncryptedMessage list option" where
  "answers_messages r = (case r of AnsMessages (Ok messages) \<Rightarrow> Some messages | _ \<Rightarrow> None)"

lemma answers_messages_simps [simp]:
  "answers_messages (AnsMessages (Ok messages)) = Some messages"
  "answers_messages (AnsMessages (Err e)) = None" "answers_messages (AnsStatus a) = None"
  "answers_messages (AnsPublication p) = None" "answers_messages (AnsClaim c) = None"
  "answers_messages AnsPanic = None" "answers_messages AnsSession = None"
  by (simp_all add: answers_messages_def)

text \<open>A task passes on what it pulls, and answers no other messages.\<close>

primrec passes_on :: "gateway_answer task \<Rightarrow> bool" where
  "passes_on (Finished r) = (answers_messages r = None)"
| "passes_on (AwaitAuth q method path body k) = (\<forall>a. passes_on (k a))"
| "passes_on (AwaitPush now m k) = (\<forall>a. passes_on (k a))"
| "passes_on (AwaitPull now d k) = (\<forall>messages. k messages = Finished (AnsMessages (Ok messages)))"
| "passes_on (AwaitAck d i k) = (\<forall>a. passes_on (k a))"
| "passes_on (AwaitPublish d p now k) = (\<forall>a. passes_on (k a))"
| "passes_on (AwaitActive d now k) = (\<forall>a. passes_on (k a))"
| "passes_on (AwaitRevoke d generation now k) = (\<forall>a. passes_on (k a))"
| "passes_on (AwaitClaim r generation key_id d request now k) = (\<forall>a. passes_on (k a))"
| "passes_on (AwaitNextId k) = (\<forall>a. passes_on (k a))"
| "passes_on (AwaitInsert d i k) = (\<forall>a. passes_on (k a))"
| "passes_on (AwaitUnregister d i k) = passes_on (k ())"
| "passes_on (AwaitTrySend d m k) = passes_on (k ())"
| "passes_on (AwaitActivate d i delivered k) = (\<forall>a. passes_on (k a))"

lemma passes_on_with_path_id:
  "(\<And>e. answers_messages (refuse e) = None) \<Longrightarrow> (\<And>d. passes_on (k d)) \<Longrightarrow> passes_on (with_path_id text refuse k)"
  by (auto simp: with_path_id_def split: panicking.split option.split)

lemma request_passes_on: "passes_on (request_task E op)"
  by (cases op)
    (auto simp: enqueue_task_def poll_task_def ack_task_def publish_task_def get_prekeys_task_def
      revoke_task_def claim_task_def Let_def intro!: passes_on_with_path_id
      split: sum.split option.split PushResult.split)

lemma passes_on_resume:
  assumes "passes_on t"
  obtains (goes_on) "passes_on (fst (resume E t s))"
  | (pulls) now d k where "t = AwaitPull now d k"
      "fst (resume E t s) = Finished (AnsMessages (Ok (fst (RelayStore_pull now d (ap_relay s)))))"
proof (cases t)
  case (AwaitPull now d k)
  with assms show thesis
    by (intro pulls) (simp_all add: case_prod_beta)
qed (use assms goes_on in \<open>simp_all add: case_prod_beta\<close>)

section \<open>Runs\<close>

text \<open>The messages of \<open>accepted\<close> for \<open>d\<close>.\<close>

abbreviation meant_for :: "16 arr \<Rightarrow> EncryptedMessage list \<Rightarrow> EncryptedMessage list" where
  "meant_for d accepted \<equiv> filter (\<lambda>m. em_recipient_device_id m = d) accepted"

definition answered_in_order :: "EncryptedMessage list \<Rightarrow> gateway_answer running \<Rightarrow> bool" where
  "answered_in_order accepted r \<longleftrightarrow>
     passes_on (rn_task r) \<or>
     (\<exists>messages d. rn_task r = Finished (AnsMessages (Ok messages)) \<and> rn_who r = Some d \<and>
        subseq messages (meant_for d accepted))"

definition queues_in_order :: "EncryptedMessage list \<Rightarrow> AppState \<Rightarrow> bool" where
  "queues_in_order accepted s \<longleftrightarrow>
     relay_inv (ap_relay s) \<and>
     (\<forall>d. subseq (map sm_message (held d (ap_relay s))) (meant_for d accepted))"

definition polls_in_order :: "EncryptedMessage list \<Rightarrow> concurrent \<Rightarrow> bool" where
  "polls_in_order accepted c \<longleftrightarrow>
     queues_in_order accepted (cc_app c) \<and> list_all (answered_in_order accepted) (cc_requests c)"

lemma answered_in_order_append: "answered_in_order accepted r \<Longrightarrow> answered_in_order (accepted @ later) r"
  by (auto simp: answered_in_order_def intro: list_emb_append2)

text \<open>What a step adds to the queues was accepted in it.\<close>

lemma step_queues_in_order:
  assumes "queues_in_order accepted (cc_app c)"
  shows "queues_in_order (accepted @ (case accepts E op c of None \<Rightarrow> [] | Some m \<Rightarrow> [m]))
    (cc_app (snd (concurrent_step E op c)))"
proof -
  have inv: "relay_inv (ap_relay (cc_app c))"
    and order: "\<And>d. subseq (map sm_message (held d (ap_relay (cc_app c)))) (meant_for d accepted)"
    using assms by (auto simp: queues_in_order_def)
  let ?relay = "ap_relay (cc_app (snd (concurrent_step E op c)))"
  have after: "?relay = after_op relay_step (Option.bind (fst (concurrent_step E op c)) relay_call) (ap_relay (cc_app c))"
    using step_components [of E op c] by (simp add: component_steps_def)
  show ?thesis
  proof (cases "Option.bind (fst (concurrent_step E op c)) relay_call")
    case None
    with after inv order show ?thesis
      by (simp add: queues_in_order_def accepts_def)
  next
    case (Some rop)
    have "subseq (map sm_message (held d ?relay))
        (meant_for d (accepted @ (case accepts E op c of None \<Rightarrow> [] | Some m \<Rightarrow> [m])))" for d
    proof -
      have "granted accepted_message [rop] [fst (relay_step rop (ap_relay (cc_app c)))] =
          (case accepts E op c of None \<Rightarrow> [] | Some m \<Rightarrow> [m])"
        using Some by (simp add: accepts_def split: option.split)
      with step_messages [OF inv, of d rop]
      have "subseq (map sm_message (held d ?relay)) (map sm_message (held d (ap_relay (cc_app c))) @
          meant_for d (case accepts E op c of None \<Rightarrow> [] | Some m \<Rightarrow> [m]))"
        using after Some by simp
      also have "subseq \<dots> (meant_for d accepted @ meant_for d (case accepts E op c of None \<Rightarrow> [] | Some m \<Rightarrow> [m]))"
        using order by (rule list_emb_append_mono) simp
      finally show ?thesis
        by simp
    qed
    with after inv Some show ?thesis
      by (simp add: queues_in_order_def relay.step_inv)
  qed
qed

lemma advance_in_order:
  assumes "queues_in_order accepted s" and "answered_in_order accepted r"
    and "entitled (\<lambda>_ _. True) (rn_task r) (rn_who r)"
  shows "answered_in_order accepted (fst (advance E r s))"
proof (cases "passes_on (rn_task r)")
  case True
  then show ?thesis
  proof (cases rule: passes_on_resume [of "rn_task r" E s])
    case goes_on
    then show ?thesis
      by (simp add: answered_in_order_def advance_def case_prod_beta)
  next
    case (pulls now d k)
    then have "rn_who r = Some d"
      using assms(3) by (cases "rn_who r") simp_all
    moreover have "subseq (fst (RelayStore_pull now d (ap_relay s))) (map sm_message (held d (ap_relay s)))"
      using assms(1) by (simp add: queues_in_order_def pull_held subseq_map)
    then have "subseq (fst (RelayStore_pull now d (ap_relay s))) (meant_for d accepted)"
      using assms(1) unfolding queues_in_order_def by (blast intro: subseq_order.trans)
    ultimately show ?thesis
      using pulls by (simp add: answered_in_order_def advance_def case_prod_beta authenticated_as_def)
  qed
next
  case False
  with assms(2) show ?thesis
    by (auto simp: answered_in_order_def advance_def authenticated_as_def)
qed

lemma step_in_order:
  assumes order: "polls_in_order accepted c" and "all_entitled c"
  shows "polls_in_order (accepted @ (case accepts E op c of None \<Rightarrow> [] | Some m \<Rightarrow> [m])) (snd (concurrent_step E op c))"
proof -
  let ?accepted = "accepted @ (case accepts E op c of None \<Rightarrow> [] | Some m \<Rightarrow> [m])"
  have queues: "queues_in_order ?accepted (cc_app (snd (concurrent_step E op c)))"
    using order by (intro step_queues_in_order) (simp add: polls_in_order_def)
  have requests: "list_all (answered_in_order ?accepted) (cc_requests c)"
    using order by (auto simp: polls_in_order_def elim!: list_all_mono intro: answered_in_order_append)
  have "list_all (answered_in_order ?accepted) (cc_requests (snd (concurrent_step E op c)))"
  proof (cases op)
    case (Arrive gop)
    with requests show ?thesis
      by (simp add: answered_in_order_def spawn_def request_passes_on)
  next
    case (Event n event)
    then have "cc_requests (snd (concurrent_step E op c)) = cc_requests c"
      by (simp split: task.split option.split)
    with requests show ?thesis
      by simp
  next
    case (RunRequest n)
    show ?thesis
    proof (cases "n < length (cc_requests c)")
      case True
      then have "answered_in_order accepted (fst (advance E (cc_requests c ! n) (cc_app c)))"
        using order assms(2)
        by (intro advance_in_order) (simp_all add: polls_in_order_def all_entitled_def list_all_length)
      with True requests RunRequest show ?thesis
        by (simp add: case_prod_beta list_all_update answered_in_order_append)
    qed (use requests RunRequest in simp)
  qed (use requests in \<open>simp_all add: case_prod_beta\<close>)
  with queues show ?thesis
    by (simp add: polls_in_order_def)
qed

lemma run_in_order:
  "polls_in_order accepted c \<Longrightarrow> all_entitled c \<Longrightarrow>
   polls_in_order (accepted @ acceptances E ops c) (snd (run (concurrent_step E) ops c))"
proof (induction ops arbitrary: accepted c)
  case (Cons op ops)
  have "all_entitled (snd (concurrent_step E op c))"
    using step_entitled [OF Cons.prems(2)] by blast
  from Cons.IH [OF step_in_order [OF Cons.prems] this] show ?case
    by (simp only: run_Cons_state acceptances.simps append_assoc)
qed simp

lemma start_in_order: "polls_in_order [] concurrent_start"
  by (simp add: polls_in_order_def queues_in_order_def concurrent_start_def AppState_default_def
      relay_inv_default held_default)

section \<open>Property\<close>

text \<open>
  C18. Polls are private and in order, however the calls of requests and sessions are interleaved. A
  request that has been answered with messages is one that a device has signed, and the messages
  are a subsequence, in the order of acceptance, of those accepted for this very device.
\<close>

theorem concurrent_polls_are_private:
  "list_all (\<lambda>r. case rn_task r of
       Finished (AnsMessages (Ok messages)) \<Rightarrow>
         (case rn_who r of
            None \<Rightarrow> False
          | Some d \<Rightarrow> d \<in> set (authentications E ops concurrent_start) \<and>
              subseq messages (filter (\<lambda>m. em_recipient_device_id m = d) (acceptances E ops concurrent_start)))
     | _ \<Rightarrow> True)
     (cc_requests (snd (run (concurrent_step E) ops concurrent_start)))"
proof -
  let ?c = "snd (run (concurrent_step E) ops concurrent_start)"
  have "list_all (answered_in_order (acceptances E ops concurrent_start)) (cc_requests ?c)"
    using run_in_order [OF start_in_order start_entitled, of E ops] by (simp add: polls_in_order_def)
  moreover have "list_all (named_in (set (authentications E ops concurrent_start))) (cc_requests ?c)"
    using run_named [OF start_named, of "{}" E ops] by (simp add: all_named_def)
  ultimately have "list_all (\<lambda>r. answered_in_order (acceptances E ops concurrent_start) r \<and>
      named_in (set (authentications E ops concurrent_start)) r) (cc_requests ?c)"
    by (simp add: list_all_iff)
  then show ?thesis
  proof (rule list_all_mono)
    fix r
    assume "answered_in_order (acceptances E ops concurrent_start) r \<and>
      named_in (set (authentications E ops concurrent_start)) r"
    then show "case rn_task r of
       Finished (AnsMessages (Ok messages)) \<Rightarrow>
         (case rn_who r of
            None \<Rightarrow> False
          | Some d \<Rightarrow> d \<in> set (authentications E ops concurrent_start) \<and>
              subseq messages (filter (\<lambda>m. em_recipient_device_id m = d) (acceptances E ops concurrent_start)))
     | _ \<Rightarrow> True"
      by (cases "rn_who r")
        (auto simp: answered_in_order_def named_in_def split: task.split gateway_answer.split sum.split)
  qed
qed

end
