(* ===== verification/Routes.thy ===== *)
theory Routes
  imports Tasks
begin

text \<open>
  The route table of \<open>main\<close> in \<open>backend/src/main.rs\<close>, and what a handler has signed to it: the method
  and path a handler authenticates are those of its own route, filled with the parameters it was
  called with. The router itself is axum's; what a template means is its documentation.
\<close>

section \<open>The table\<close>

datatype handler =
  HHealth | HEnqueue | HPoll | HAck | HPublish | HGetPrekeys | HRevoke | HClaim | HWebsocket

definition routes :: "(string \<times> string \<times> handler) list" where
  "routes =
     [(''/health'', ''GET'', HHealth),
      (''/v1/relay'', ''POST'', HEnqueue),
      (''/v1/relay/{device_id}'', ''GET'', HPoll),
      (''/v1/relay/{device_id}/{message_id}/ack'', ''POST'', HAck),
      (''/v1/prekeys'', ''POST'', HPublish),
      (''/v1/prekeys/{device_id}'', ''GET'', HGetPrekeys),
      (''/v1/prekeys/{device_id}/{generation}/revoke'', ''POST'', HRevoke),
      (''/v1/prekeys/{device_id}/{generation}/{key_id}/claim'', ''POST'', HClaim),
      (''/v1/ws'', ''GET'', HWebsocket)]"

datatype json_value = JString string | JBool bool

definition health :: "(string \<times> json_value) list" where
  "health =
     [(''service'', JString ''nexa-gateway''), (''status'', JString ''ok''),
      (''plaintext_storage'', JBool False), (''environment'', JString ''development''),
      (''authentication'', JString ''ed25519''), (''websocket'', JBool True),
      (''live_routing'', JBool True), (''prekey_publication'', JBool True), (''opk_claims'', JBool True)]"

section \<open>What a template means\<close>

text \<open>
  A path is cut at its slashes; a piece in braces stands for any piece that is not empty, every
  other piece for itself.
\<close>

fun pieces :: "string \<Rightarrow> string list" where
  "pieces [] = [[]]"
| "pieces (c # cs) =
     (if c = CHR ''/'' then [] # pieces cs
      else case pieces cs of p # ps \<Rightarrow> (c # p) # ps | [] \<Rightarrow> [[c]])"

definition is_parameter :: "string \<Rightarrow> bool" where
  "is_parameter piece \<longleftrightarrow> (case piece of [] \<Rightarrow> False | c # _ \<Rightarrow> c = CHR ''{'')"

definition fits :: "string \<Rightarrow> string \<Rightarrow> bool" where
  "fits template path \<longleftrightarrow>
     list_all2 (\<lambda>t p. if is_parameter t then p \<noteq> [] else p = t) (pieces template) (pieces path)"

text \<open>The path of a template, with values for its parameters.\<close>

fun filled :: "string list \<Rightarrow> string list \<Rightarrow> string" where
  "filled [] args = []"
| "filled (t # ts) args =
     (if is_parameter t
      then (case args of a # args \<Rightarrow> ''/'' @ a @ filled ts args | [] \<Rightarrow> ''/'' @ filled ts [])
      else ''/'' @ t @ filled ts args)"

definition path_of :: "string \<Rightarrow> string list \<Rightarrow> string" where
  "path_of template args = filled (tl (pieces template)) args"

text \<open>The handler of a request and the parameters it gets from the path.\<close>

fun handler_of :: "gateway_op \<Rightarrow> (handler \<times> string list) option" where
  "handler_of (OpEnqueue q) = Some (HEnqueue, [])"
| "handler_of (OpPoll q device) = Some (HPoll, [device])"
| "handler_of (OpAck q device message_id) = Some (HAck, [device, message_id])"
| "handler_of (OpPublish q) = Some (HPublish, [])"
| "handler_of (OpGetPrekeys q device) = Some (HGetPrekeys, [device])"
| "handler_of (OpRevoke q device generation) = Some (HRevoke, [device, decimal (unat generation)])"
| "handler_of (OpClaim q recipient generation key_id) =
     Some (HClaim, [recipient, decimal (unat generation), decimal (unat key_id)])"
| "handler_of (OpUpgrade q fails) = Some (HWebsocket, [])"
| "handler_of (OpSession n event) = None"

definition signs_route :: "handler \<times> string list \<Rightarrow> 'r task \<Rightarrow> bool" where
  "signs_route h t \<longleftrightarrow>
     (case call_of t of
        Some (CallAuth q method path body) \<Rightarrow>
          list_ex (\<lambda>(template, m, handler). handler = fst h \<and> m = method \<and> path_of template (snd h) = path) routes
      | Some (CallLookup d now) \<Rightarrow> fst h = HGetPrekeys
      | Some call \<Rightarrow> False
      | None \<Rightarrow> True)"

lemma templates:
  "pieces ''/health'' = [[], ''health'']" "pieces ''/v1/relay'' = [[], ''v1'', ''relay'']"
  "pieces ''/v1/relay/{device_id}'' = [[], ''v1'', ''relay'', ''{device_id}'']"
  "pieces ''/v1/relay/{device_id}/{message_id}/ack'' =
     [[], ''v1'', ''relay'', ''{device_id}'', ''{message_id}'', ''ack'']"
  "pieces ''/v1/prekeys'' = [[], ''v1'', ''prekeys'']"
  "pieces ''/v1/prekeys/{device_id}'' = [[], ''v1'', ''prekeys'', ''{device_id}'']"
  "pieces ''/v1/prekeys/{device_id}/{generation}/revoke'' =
     [[], ''v1'', ''prekeys'', ''{device_id}'', ''{generation}'', ''revoke'']"
  "pieces ''/v1/prekeys/{device_id}/{generation}/{key_id}/claim'' =
     [[], ''v1'', ''prekeys'', ''{device_id}'', ''{generation}'', ''{key_id}'', ''claim'']"
  "pieces ''/v1/ws'' = [[], ''v1'', ''ws'']"
  by simp_all

lemma one_route: "length (filter (\<lambda>(template, m, h). fits template path) routes) \<le> 1"
  unfolding routes_def fits_def templates filter.simps prod.case list_all2_Cons1
  by (auto simp: is_parameter_def)

lemma signs_simps [simp]:
  "signs_route h (Finished r)" "signs_route h (AwaitActive d now k') \<longleftrightarrow> fst h = HGetPrekeys"
  "signs_route h (AwaitAuth q method path body k) \<longleftrightarrow>
     list_ex (\<lambda>(template, m, handler). handler = fst h \<and> m = method \<and> path_of template (snd h) = path) routes"
  by (simp_all add: signs_route_def)

lemma signs_with_path_id:
  "(\<And>d. signs_route h (k d)) \<Longrightarrow> signs_route h (with_path_id text refuse k)"
  by (auto simp: with_path_id_def split: panicking.split option.split)

lemmas route_simps = routes_def path_of_def templates is_parameter_def

section \<open>Property\<close>

text \<open>
  C32. What is signed is what is routed. The first call of every request is its authentication - the
  look-up of prekeys makes none - and the method and path it authenticates are the method and the
  path of the handler's own route, filled with the parameters the handler was called with; the same
  holds for the upgrade to a WebSocket. And no path fits two routes, so that a request reaches no
  other handler than the one whose path was signed.
\<close>

theorem signed_paths_are_routed:
  "(case handler_of op of None \<Rightarrow> True | Some h \<Rightarrow> signs_route h (request_task E op)) \<and>
   signs_route (HWebsocket, []) (websocket_task q so) \<and>
   length (filter (\<lambda>(template, method, h). fits template path) routes) \<le> 1"
proof -
  have "signs_route h (request_task E op)" if "handler_of op = Some h" for h
    using that
    by (cases op)
      (auto simp: enqueue_task_def poll_task_def ack_task_def publish_task_def get_prekeys_task_def
        revoke_task_def claim_task_def route_simps intro!: signs_with_path_id)
  moreover have "signs_route (HWebsocket, []) (websocket_task q so)"
    by (simp add: websocket_task_def route_simps)
  ultimately show ?thesis
    using one_route by (simp split: option.split)
qed

end
