(* ===== verification/Ratchet.thy ===== *)
theory Ratchet
  imports Protocol
begin

text \<open>
  The symmetric ratchet of \<open>core/ratchet/src/lib.rs\<close>: chain and message keys, the sender's
  \<open>encrypt\<close> and the one-shot \<open>decrypt_once\<close>. HKDF-SHA256 and ChaCha20-Poly1305 are crates
  outside the repository and are parameters: \<open>hkdf salt ikm info\<close> is \<open>Hkdf::new\<close> followed by
  \<open>expand\<close> into 32 bytes, \<open>aead_enc key nonce msg aad\<close> and \<open>aead_dec key nonce ct aad\<close> are the
  cipher, each \<open>None\<close> where the crate returns an error. The nonce the code draws from the
  operating system is an argument of \<open>encrypt\<close>.
\<close>

section \<open>State and operations\<close>

type_synonym hkdf32 = "u8 list \<Rightarrow> u8 list \<Rightarrow> u8 list \<Rightarrow> 32 arr option"
type_synonym aead = "32 arr \<Rightarrow> 12 arr \<Rightarrow> u8 list \<Rightarrow> u8 list \<Rightarrow> u8 list option"

definition CHAIN_DOMAIN :: "u8 list" where
  "CHAIN_DOMAIN = byte_string ''NEXA/CHAIN/v1''"

definition MESSAGE_DOMAIN :: "u8 list" where
  "MESSAGE_DOMAIN = byte_string ''NEXA/MESSAGE/v1''"

datatype RatchetError = Kdf | Encryption | Decryption | InvalidNonce

record RatchetState =
  rs_chain_key :: "32 arr"
  rs_next_counter :: u64

definition RatchetState_from_root :: "hkdf32 \<Rightarrow> 32 arr \<Rightarrow> RatchetError + RatchetState" where
  "RatchetState_from_root hkdf root =
     and_then (ok_or (hkdf CHAIN_DOMAIN (bytes root) (byte_string ''initial-chain'')) Kdf) (\<lambda>chain.
     Ok \<lparr>rs_chain_key = chain, rs_next_counter = 0\<rparr>)"

definition RatchetState_from_snapshot_parts ::
  "32 arr \<Rightarrow> u64 \<Rightarrow> RatchetError + RatchetState" where
  "RatchetState_from_snapshot_parts chain_key counter =
     (if counter = u64_MAX then Err Kdf
      else Ok \<lparr>rs_chain_key = chain_key, rs_next_counter = counter\<rparr>)"

definition RatchetState_counter :: "RatchetState \<Rightarrow> u64" where
  "RatchetState_counter s = rs_next_counter s"

definition snapshot_chain_key :: "RatchetState \<Rightarrow> 32 arr" where
  "snapshot_chain_key s = rs_chain_key s"

text \<open>
  The state is written in the order of the code: the chain key is replaced before the counter is
  checked, so the step that finds the counter exhausted has already moved the chain.
\<close>

definition next_message_key ::
  "hkdf32 \<Rightarrow> RatchetState \<Rightarrow> (RatchetError + 32 arr) \<times> RatchetState" where
  "next_message_key hkdf s =
     (let current = bytes (rs_chain_key s); info = u64_to_be (rs_next_counter s) in
      case hkdf MESSAGE_DOMAIN current info of
        None \<Rightarrow> (Err Kdf, s)
      | Some message \<Rightarrow>
          (case hkdf CHAIN_DOMAIN current info of
             None \<Rightarrow> (Err Kdf, s)
           | Some next_key \<Rightarrow>
               let s' = s\<lparr>rs_chain_key := next_key\<rparr> in
               (case u64_checked_add (rs_next_counter s') 1 of
                  None \<Rightarrow> (Err Kdf, s')
                | Some counter \<Rightarrow> (Ok message, s'\<lparr>rs_next_counter := counter\<rparr>))))"

definition RatchetState_encrypt ::
  "hkdf32 \<Rightarrow> aead \<Rightarrow> 12 arr \<Rightarrow> u8 list \<Rightarrow> u8 list \<Rightarrow> RatchetState \<Rightarrow>
     (RatchetError + u8 list) \<times> RatchetState" where
  "RatchetState_encrypt hkdf aead_enc nonce plaintext aad s =
     (case next_message_key hkdf s of
        (Err e, s') \<Rightarrow> (Err e, s')
      | (Ok key, s') \<Rightarrow>
          (case aead_enc key nonce plaintext aad of
             None \<Rightarrow> (Err Encryption, s')
           | Some ciphertext \<Rightarrow> (Ok (bytes nonce @ ciphertext), s')))"

definition decrypt_once ::
  "aead \<Rightarrow> 32 arr \<Rightarrow> u8 list \<Rightarrow> u8 list \<Rightarrow> RatchetError + u8 list" where
  "decrypt_once aead_dec key packet aad =
     (if length packet < 12 then Err InvalidNonce
      else ok_or (aead_dec key (arr (take 12 packet)) (drop 12 packet) aad) Decryption)"

section \<open>Documented behaviour of the primitives\<close>

text \<open>
  HKDF-SHA256 refuses only outputs of more than 255 blocks, never 32 bytes; the cipher decrypts
  what it encrypted under the same key, nonce and associated data. Theorems that need these say so.
\<close>

definition hkdf_total :: "hkdf32 \<Rightarrow> bool" where
  "hkdf_total hkdf \<longleftrightarrow> (\<forall>salt ikm info. hkdf salt ikm info \<noteq> None)"

definition aead_inverts :: "aead \<Rightarrow> aead \<Rightarrow> bool" where
  "aead_inverts aead_enc aead_dec \<longleftrightarrow>
     (\<forall>key nonce msg aad ct. aead_enc key nonce msg aad = Some ct \<longrightarrow>
        aead_dec key nonce ct aad = Some msg)"

section \<open>The key sequence\<close>

text \<open>
  The reference sequence: the \<open>n\<close>-th chain key and the \<open>n\<close>-th message key of a session whose
  initial chain key is \<open>c0\<close>.
\<close>

fun chain_key_at :: "hkdf32 \<Rightarrow> 32 arr \<Rightarrow> nat \<Rightarrow> 32 arr" where
  "chain_key_at hkdf c0 0 = c0"
| "chain_key_at hkdf c0 (Suc n) =
     the (hkdf CHAIN_DOMAIN (bytes (chain_key_at hkdf c0 n)) (u64_to_be (word_of_nat n)))"

definition message_key_at :: "hkdf32 \<Rightarrow> 32 arr \<Rightarrow> nat \<Rightarrow> 32 arr" where
  "message_key_at hkdf c0 n =
     the (hkdf MESSAGE_DOMAIN (bytes (chain_key_at hkdf c0 n)) (u64_to_be (word_of_nat n)))"

text \<open>A sending or receiving chain that has followed the sequence up to its counter.\<close>

definition on_chain :: "hkdf32 \<Rightarrow> 32 arr \<Rightarrow> RatchetState \<Rightarrow> bool" where
  "on_chain hkdf c0 s \<longleftrightarrow> rs_chain_key s = chain_key_at hkdf c0 (unat (rs_next_counter s))"

lemma next_message_key_Ok:
  "next_message_key hkdf s = (Ok key, s') \<Longrightarrow>
     rs_next_counter s \<noteq> u64_MAX \<and> rs_next_counter s' = rs_next_counter s + 1 \<and>
     hkdf MESSAGE_DOMAIN (bytes (rs_chain_key s)) (u64_to_be (rs_next_counter s)) = Some key \<and>
     hkdf CHAIN_DOMAIN (bytes (rs_chain_key s)) (u64_to_be (rs_next_counter s)) =
       Some (rs_chain_key s')"
  by (auto simp: next_message_key_def Let_def u64_checked_add_1 split: option.splits if_splits)

lemma next_message_key_counter:
  "next_message_key hkdf s = (Ok key, s') \<Longrightarrow>
     unat (rs_next_counter s') = Suc (unat (rs_next_counter s))"
  by (auto dest: next_message_key_Ok simp: u64_plus_1_unat)

lemma next_message_key_on_chain:
  assumes "next_message_key hkdf s = (Ok key, s')" and "on_chain hkdf c0 s"
  shows "on_chain hkdf c0 s' \<and> key = message_key_at hkdf c0 (unat (rs_next_counter s))"
  using next_message_key_Ok [OF assms(1)] next_message_key_counter [OF assms(1)] assms(2)
  by (simp add: on_chain_def message_key_at_def)

lemma next_message_key_total:
  assumes "hkdf_total hkdf" and "rs_next_counter s \<noteq> u64_MAX"
  shows "\<exists>key s'. next_message_key hkdf s = (Ok key, s')"
proof -
  let ?h = "\<lambda>domain. hkdf domain (bytes (rs_chain_key s)) (u64_to_be (rs_next_counter s))"
  obtain message chain where "?h MESSAGE_DOMAIN = Some message" "?h CHAIN_DOMAIN = Some chain"
    using assms(1) unfolding hkdf_total_def by (metis not_None_eq)
  then show ?thesis
    using assms(2) by (simp add: next_message_key_def Let_def u64_checked_add_1)
qed

lemma next_message_key_exhausted:
  "rs_next_counter s = u64_MAX \<Longrightarrow> fst (next_message_key hkdf s) = Err Kdf"
  by (auto simp: next_message_key_def Let_def u64_checked_add_1 split: option.splits)

lemma next_message_key_Err_counter:
  "fst (next_message_key hkdf s) = Err e \<Longrightarrow>
     rs_next_counter (snd (next_message_key hkdf s)) = rs_next_counter s"
  by (auto simp: next_message_key_def Let_def split: option.splits)

lemma from_root_on_chain:
  "RatchetState_from_root hkdf root = Ok s \<Longrightarrow>
     rs_next_counter s = 0 \<and> on_chain hkdf (rs_chain_key s) s"
  by (auto simp: RatchetState_from_root_def result_simps on_chain_def)

section \<open>The sender\<close>

text \<open>A request to encrypt: the nonce drawn, the plaintext and the associated data.\<close>

record send_request =
  sq_nonce :: "12 arr"
  sq_plaintext :: "u8 list"
  sq_aad :: "u8 list"

definition send_step ::
  "hkdf32 \<Rightarrow> aead \<Rightarrow> send_request \<Rightarrow> RatchetState \<Rightarrow> (RatchetError + u8 list) \<times> RatchetState" where
  "send_step hkdf aead_enc q = RatchetState_encrypt hkdf aead_enc (sq_nonce q) (sq_plaintext q) (sq_aad q)"

lemma encrypt_Ok:
  assumes "RatchetState_encrypt hkdf aead_enc nonce pt aad s = (Ok packet, s')"
    and "on_chain hkdf c0 s"
  shows "on_chain hkdf c0 s' \<and> rs_next_counter s' = rs_next_counter s + 1 \<and>
    rs_next_counter s \<noteq> u64_MAX \<and>
    (\<exists>ct. aead_enc (message_key_at hkdf c0 (unat (rs_next_counter s))) nonce pt aad = Some ct \<and>
          packet = bytes nonce @ ct)"
proof -
  obtain key where n: "next_message_key hkdf s = (Ok key, s')"
    and "\<exists>ct. aead_enc key nonce pt aad = Some ct \<and> packet = bytes nonce @ ct"
    using assms(1)
    by (auto simp: RatchetState_encrypt_def split: prod.splits sum.splits option.splits)
  then show ?thesis
    using next_message_key_on_chain [OF n assms(2)] next_message_key_Ok [OF n] by auto
qed

text \<open>The packets of a run that never failed, one per request.\<close>

lemma send_run_packets:
  assumes "fst (run (send_step hkdf aead_enc) qs s) = map Ok packets" and "on_chain hkdf c0 s"
  shows "length packets = length qs \<and>
    (\<forall>i < length qs. unat (rs_next_counter s) + i < 2 ^ 64 - 1 \<and>
       (\<exists>ct. aead_enc (message_key_at hkdf c0 (unat (rs_next_counter s) + i))
               (sq_nonce (qs ! i)) (sq_plaintext (qs ! i)) (sq_aad (qs ! i)) = Some ct \<and>
             packets ! i = bytes (sq_nonce (qs ! i)) @ ct))"
  using assms
proof (induction qs arbitrary: s packets)
  case Nil
  then show ?case by simp
next
  case (Cons q qs)
  let ?e = "send_step hkdf aead_enc q s"
  from Cons.prems(1) obtain p ps where ps: "packets = p # ps" "fst ?e = Ok p"
    "fst (run (send_step hkdf aead_enc) qs (snd ?e)) = map Ok ps"
    by (cases packets) auto
  then have "RatchetState_encrypt hkdf aead_enc (sq_nonce q) (sq_plaintext q) (sq_aad q) s =
      (Ok p, snd ?e)"
    by (simp add: send_step_def prod_eq_iff)
  note e = encrypt_Ok [OF this Cons.prems(2)]
  then have next_counter: "unat (rs_next_counter (snd ?e)) = Suc (unat (rs_next_counter s))"
    by (simp add: u64_plus_1_unat)
  have "unat (rs_next_counter s) \<noteq> 2 ^ 64 - 1"
    using e by (metis unat_u64_MAX word_unat_eq_iff)
  then have small: "unat (rs_next_counter s) < 2 ^ 64 - 1"
    using unat_u64_bound [of "rs_next_counter s"] by simp
  have IH: "length ps = length qs \<and>
    (\<forall>i < length qs. Suc (unat (rs_next_counter s)) + i < 2 ^ 64 - 1 \<and>
       (\<exists>ct. aead_enc (message_key_at hkdf c0 (Suc (unat (rs_next_counter s)) + i))
               (sq_nonce (qs ! i)) (sq_plaintext (qs ! i)) (sq_aad (qs ! i)) = Some ct \<and>
             ps ! i = bytes (sq_nonce (qs ! i)) @ ct))"
    using Cons.IH [OF ps(3)] e next_counter by simp
  show ?case
    using IH e small by (auto simp: ps(1) less_Suc_eq_0_disj)
qed

section \<open>Sample primitives\<close>

text \<open>
  Hkdf that always answers and a cipher that hides nothing: one instance of the laws the theorems
  ask of the primitives.
\<close>

definition sample_hkdf :: hkdf32 where
  "sample_hkdf salt ikm info = Some (fill 7)"

definition sample_aead :: aead where
  "sample_aead key nonce msg aad = Some msg"

lemma sample_laws [simp]: "hkdf_total sample_hkdf" "aead_inverts sample_aead sample_aead"
  by (simp_all add: hkdf_total_def sample_hkdf_def aead_inverts_def sample_aead_def)

end
