(* ===== verification/Receive.thy ===== *)
theory Receive
  imports Ratchet
begin

text \<open>
  The receiving ratchet of \<open>core/ratchet/src/receive.rs\<close>: the skipped-key map, the key search with
  its loop, and the two decrypt operations, which work on a copy of the state and commit it only
  on success. The receiver is shown to implement a replay window over message numbers.
\<close>

section \<open>State and operations\<close>

definition MAX_SKIP :: u64 where
  "MAX_SKIP = 256"

datatype ReceiveError =
  TooFarAhead | Replay | ReceiveDecryption | InvalidHeader RatchetHeaderError

record ReceiveRatchet =
  rr_state :: RatchetState
  rr_skipped :: "(u64, 32 arr) btree"

definition ReceiveRatchet_from_root :: "hkdf32 \<Rightarrow> 32 arr \<Rightarrow> RatchetError + ReceiveRatchet" where
  "ReceiveRatchet_from_root hkdf root =
     and_then (RatchetState_from_root hkdf root) (\<lambda>state.
     Ok \<lparr>rr_state = state, rr_skipped = bt_empty\<rparr>)"

definition expected_counter :: "ReceiveRatchet \<Rightarrow> u64" where
  "expected_counter r = RatchetState_counter (rr_state r)"

definition skipped_count :: "ReceiveRatchet \<Rightarrow> usize" where
  "skipped_count r = bt_len (rr_skipped r)"

lemma key_for_loop_decreases:
  assumes "expected_counter r \<le> target" and "next_message_key hkdf (rr_state r) = (Ok key, s')"
  shows "unat target + 1 - unat (rs_next_counter s') <
         unat target + 1 - unat (rs_next_counter (rr_state r))"
  using assms next_message_key_counter [OF assms(2)]
  by (simp add: expected_counter_def RatchetState_counter_def word_le_nat_alt)

text \<open>
  The loop of \<open>key_for\<close>: advance the chain to the target, keeping the keys passed on the way. It
  ends because every round that goes on has moved the counter towards the target.
\<close>

function key_for_loop ::
  "hkdf32 \<Rightarrow> u64 \<Rightarrow> ReceiveRatchet \<Rightarrow> 32 arr option \<Rightarrow>
     (ReceiveError + 32 arr) \<times> ReceiveRatchet" where
  "key_for_loop hkdf target r target_key =
     (if expected_counter r \<le> target then
        (case next_message_key hkdf (rr_state r) of
           (Err e, s') \<Rightarrow> (Err ReceiveDecryption, r\<lparr>rr_state := s'\<rparr>)
         | (Ok key, s') \<Rightarrow>
             (if expected_counter r = target
              then key_for_loop hkdf target (r\<lparr>rr_state := s'\<rparr>) (Some key)
              else key_for_loop hkdf target
                     (r\<lparr>rr_state := s',
                        rr_skipped := bt_insert (expected_counter r) key (rr_skipped r)\<rparr>)
                     target_key))
      else (ok_or target_key ReceiveDecryption, r))"
  by pat_completeness auto
termination
proof (relation "measure (\<lambda>(hkdf, target, r, target_key).
    unat target + 1 - unat (rs_next_counter (rr_state r)))", goal_cases)
  case 1
  show ?case by simp
next
  case (2 hkdf target r target_key result s' key)
  then show ?case
    using key_for_loop_decreases [of r target hkdf key s'] by simp
next
  case (3 hkdf target r target_key result s' key)
  then show ?case
    using key_for_loop_decreases [of r target hkdf key s'] by simp
qed

declare key_for_loop.simps [simp del]

definition key_for ::
  "hkdf32 \<Rightarrow> u64 \<Rightarrow> ReceiveRatchet \<Rightarrow> (ReceiveError + 32 arr) \<times> ReceiveRatchet" where
  "key_for hkdf target r =
     (let expected = expected_counter r in
      if target < expected then
        (case bt_get (rr_skipped r) target of
           None \<Rightarrow> (Err Replay, r)
         | Some key \<Rightarrow> (Ok key, r\<lparr>rr_skipped := bt_remove target (rr_skipped r)\<rparr>))
      else if MAX_SKIP < target - expected then (Err TooFarAhead, r)
      else key_for_loop hkdf target r None)"

definition ReceiveRatchet_decrypt ::
  "hkdf32 \<Rightarrow> aead \<Rightarrow> u64 \<Rightarrow> u8 list \<Rightarrow> u8 list \<Rightarrow> ReceiveRatchet \<Rightarrow>
     (ReceiveError + u8 list) \<times> ReceiveRatchet" where
  "ReceiveRatchet_decrypt hkdf aead_dec counter packet aad r =
     (case key_for hkdf counter r of
        (Err e, candidate) \<Rightarrow> (Err e, r)
      | (Ok key, candidate) \<Rightarrow>
          (case map_err (\<lambda>_. ReceiveDecryption) (decrypt_once aead_dec key packet aad) of
             Err e \<Rightarrow> (Err e, r)
           | Ok plaintext \<Rightarrow> (Ok plaintext, candidate)))"

definition decrypt_with_header ::
  "hkdf32 \<Rightarrow> aead \<Rightarrow> u8 list \<Rightarrow> u8 list \<Rightarrow> u8 list \<Rightarrow> ReceiveRatchet \<Rightarrow>
     (ReceiveError + u8 list) \<times> ReceiveRatchet" where
  "decrypt_with_header hkdf aead_dec header_bytes packet aad r =
     (case map_err InvalidHeader (RatchetHeader_decode header_bytes) of
        Err e \<Rightarrow> (Err e, r)
      | Ok header \<Rightarrow>
          ReceiveRatchet_decrypt hkdf aead_dec (rh_message_counter header) packet aad r)"

section \<open>The key search\<close>

text \<open>
  One round of the loop that does not fail: at the target it is the last round, before the target
  it keeps the key and the loop goes on from a counter that is one higher.
\<close>

lemma next_counter:
  "next_message_key hkdf (rr_state r) = (Ok key, s') \<Longrightarrow>
     unat (rs_next_counter s') = Suc (unat (expected_counter r))"
  by (simp add: next_message_key_counter expected_counter_def RatchetState_counter_def)

lemma expected_counter_update [simp]:
  "expected_counter (r\<lparr>rr_state := s\<rparr>) = rs_next_counter s"
  "expected_counter (r\<lparr>rr_skipped := m\<rparr>) = expected_counter r"
  "expected_counter (r\<lparr>rr_state := s, rr_skipped := m\<rparr>) = rs_next_counter s"
  by (simp_all add: expected_counter_def RatchetState_counter_def)

lemma key_for_loop_last:
  assumes "next_message_key hkdf (rr_state r) = (Ok key, s')" and "expected_counter r = target"
  shows "key_for_loop hkdf target r tk = (Ok key, r\<lparr>rr_state := s'\<rparr>)"
proof -
  let ?r = "r\<lparr>rr_state := s'\<rparr>"
  have "\<not> expected_counter ?r \<le> target"
    using next_counter [OF assms(1)] assms(2) by (simp add: word_le_nat_alt)
  with assms show ?thesis
    by (simp add: key_for_loop.simps [of hkdf target r] key_for_loop.simps [of hkdf target ?r])
qed

abbreviation keep_key :: "32 arr \<Rightarrow> RatchetState \<Rightarrow> ReceiveRatchet \<Rightarrow> ReceiveRatchet" where
  "keep_key key s' r \<equiv>
     r\<lparr>rr_state := s', rr_skipped := bt_insert (expected_counter r) key (rr_skipped r)\<rparr>"

lemma key_for_loop_pass:
  assumes "next_message_key hkdf (rr_state r) = (Ok key, s')" and "expected_counter r \<le> target"
    and "expected_counter r \<noteq> target"
  shows "key_for_loop hkdf target r tk = key_for_loop hkdf target (keep_key key s' r) tk"
    and "expected_counter (keep_key key s' r) \<le> target"
  using assms next_counter [OF assms(1)] unat_strict_mono [OF assms(2,3)]
  by (simp_all add: key_for_loop.simps [of hkdf target r] word_le_nat_alt)

text \<open>
  So a fact about the loop follows from its three rounds: the failing one, the last one, and a
  passing one followed by the rest of the loop.
\<close>

lemma key_for_loop_rounds [consumes 2, case_names fail last pass]:
  assumes "expected_counter r \<le> target" and "key_for_loop hkdf target r tk = res"
    and "\<And>r tk e s'. expected_counter r \<le> target \<Longrightarrow>
           next_message_key hkdf (rr_state r) = (Err e, s') \<Longrightarrow>
           P r tk (Err ReceiveDecryption, r\<lparr>rr_state := s'\<rparr>)"
    and "\<And>r tk key s'. expected_counter r = target \<Longrightarrow>
           next_message_key hkdf (rr_state r) = (Ok key, s') \<Longrightarrow>
           P r tk (Ok key, r\<lparr>rr_state := s'\<rparr>)"
    and "\<And>r tk res key s'. expected_counter r \<le> target \<Longrightarrow> expected_counter r \<noteq> target \<Longrightarrow>
           next_message_key hkdf (rr_state r) = (Ok key, s') \<Longrightarrow>
           P (keep_key key s' r) tk res \<Longrightarrow> P r tk res"
  shows "P r tk res"
  using assms(1,2)
proof (induction "unat target - unat (expected_counter r)" arbitrary: r tk rule: less_induct)
  case less
  obtain result s' where n: "next_message_key hkdf (rr_state r) = (result, s')"
    by fastforce
  show ?case
  proof (cases result)
    case (Inl e)
    then show ?thesis
      using assms(3) [OF less.prems(1)] n less.prems by (simp add: key_for_loop.simps [of hkdf target r])
  next
    case (Inr key)
    note n' = n [unfolded Inr]
    show ?thesis
    proof (cases "expected_counter r = target")
      case True
      then show ?thesis
        using assms(4) [OF True n'] key_for_loop_last [OF n' True] less.prems(2) by simp
    next
      case False
      note pass = key_for_loop_pass [OF n' less.prems(1) False]
      have "unat target - unat (expected_counter (keep_key key s' r)) <
          unat target - unat (expected_counter r)"
        using next_counter [OF n'] unat_strict_mono [OF less.prems(1) False] by simp
      from less.hyps [OF this pass(2)] show ?thesis
        using assms(5) [OF less.prems(1) False n'] less.prems(2) by (simp add: pass(1))
    qed
  qed
qed

text \<open>What the loop does to the counter and to the set of skipped keys.\<close>

lemma key_for_loop_effect:
  assumes "expected_counter r \<le> target" and "key_for_loop hkdf target r tk = res"
  shows "case res of
      (Err e, r') \<Rightarrow> e = ReceiveDecryption
    | (Ok key, r') \<Rightarrow> unat (expected_counter r') = Suc (unat target) \<and>
        dom (bt_get (rr_skipped r')) =
          dom (bt_get (rr_skipped r)) \<union> {expected_counter r ..< target}"
  using assms
proof (induction r tk res rule: key_for_loop_rounds)
  case (fail r tk e s')
  then show ?case by simp
next
  case (last r tk key s')
  then show ?case by (simp add: next_counter)
next
  case (pass r tk res key s')
  have "{expected_counter r ..< target} =
      insert (expected_counter r) {rs_next_counter s' ..< target}"
    using unat_strict_mono [OF pass(1,2)] next_counter [OF pass(3)]
    by (auto simp: word_le_nat_alt word_less_nat_alt word_unat_eq_iff)
  with pass(4) show ?case
    by (auto simp: dom_bt_insert simp del: bt_get_insert split: prod.splits sum.splits)
qed

text \<open>A receiver in step with the key sequence of its session.\<close>

definition tracks :: "hkdf32 \<Rightarrow> 32 arr \<Rightarrow> ReceiveRatchet \<Rightarrow> bool" where
  "tracks hkdf c0 r \<longleftrightarrow>
     on_chain hkdf c0 (rr_state r) \<and>
     (\<forall>k key. bt_get (rr_skipped r) k = Some key \<longrightarrow>
        k < expected_counter r \<and> key = message_key_at hkdf c0 (unat k))"

lemma tracks_from_root:
  "ReceiveRatchet_from_root hkdf root = Ok r \<Longrightarrow>
     \<exists>c0. hkdf CHAIN_DOMAIN (bytes root) (byte_string ''initial-chain'') = Some c0 \<and>
       tracks hkdf c0 r \<and> expected_counter r = 0 \<and> rr_skipped r = bt_empty"
  by (auto simp: ReceiveRatchet_from_root_def RatchetState_from_root_def result_simps tracks_def
      on_chain_def expected_counter_def RatchetState_counter_def)

lemma key_for_loop_tracks:
  assumes "expected_counter r \<le> target" and "key_for_loop hkdf target r tk = res"
  shows "tracks hkdf c0 r \<longrightarrow> (case res of
      (Err e, r') \<Rightarrow> True
    | (Ok key, r') \<Rightarrow> tracks hkdf c0 r' \<and> key = message_key_at hkdf c0 (unat target))"
  using assms
proof (induction r tk res rule: key_for_loop_rounds)
  case (fail r tk e s')
  then show ?case by simp
next
  case (last r tk key s')
  have "i < rs_next_counter s'" if "i < expected_counter r" for i
    using that next_counter [OF last(2)] by (simp add: word_less_nat_alt)
  then show ?case
    using next_message_key_on_chain [OF last(2)] last(1)
    by (auto simp: tracks_def expected_counter_def RatchetState_counter_def)
next
  case (pass r tk res key s')
  have "i < rs_next_counter s'" if "i \<le> expected_counter r" for i
    using that next_counter [OF pass(3)] by (simp add: word_le_nat_alt word_less_nat_alt)
  then have "tracks hkdf c0 (keep_key key s' r)" if "tracks hkdf c0 r"
    using next_message_key_on_chain [OF pass(3)] that
    by (auto simp: tracks_def expected_counter_def RatchetState_counter_def order_less_imp_le)
  with pass(4) show ?case
    by blast
qed

lemma key_for_loop_total:
  assumes "expected_counter r \<le> target" and "key_for_loop hkdf target r tk = res"
  shows "hkdf_total hkdf \<and> target \<noteq> u64_MAX \<longrightarrow> is_ok (fst res)"
  using assms
proof (induction r tk res rule: key_for_loop_rounds)
  case (fail r tk e s')
  have "is_ok (fst (next_message_key hkdf (rr_state r)))" if "hkdf_total hkdf" "target \<noteq> u64_MAX"
  proof -
    have "expected_counter r \<noteq> u64_MAX"
      using fail(1) that(2) by (metis u64_le_MAX antisym)
    then show ?thesis
      using next_message_key_total [OF that(1), of "rr_state r"]
      by (auto simp: expected_counter_def RatchetState_counter_def)
  qed
  with fail(2) show ?case by auto
qed auto

text \<open>One message takes at most \<open>MAX_SKIP\<close> new keys into the map.\<close>

lemma card_word_range: "card {a ..< b :: u64} = unat b - unat a"
proof -
  have "unat ` {a ..< b} = {unat a ..< unat b}"
  proof (rule set_eqI, rule iffI)
    fix n
    assume n: "n \<in> {unat a ..< unat b}"
    then have "unat (word_of_nat n :: u64) = n"
      using unat_u64_bound [of b] by (simp add: unat_of_nat)
    with n show "n \<in> unat ` {a ..< b}"
      by (intro image_eqI [of _ _ "word_of_nat n"]) (auto simp: word_le_nat_alt word_less_nat_alt)
  qed (auto simp: word_le_nat_alt word_less_nat_alt)
  then show ?thesis
    by (metis card_atLeastLessThan card_image inj_on_def word_unat_eq_iff)
qed

lemma within_MAX_SKIP:
  "a \<le> b \<Longrightarrow> \<not> MAX_SKIP < b - a \<longleftrightarrow> unat b \<le> unat a + 256"
  by (auto simp: MAX_SKIP_def word_less_nat_alt word_le_nat_alt unat_sub)

section \<open>The replay window\<close>

text \<open>
  What a receiver promises, without keys: it knows the next number it has not seen and the numbers
  below it that are still missing. A number is refused when it was used before, when it is more
  than 256 ahead, and when it is the last 64-bit number, which no chain can step over; a number it
  admits is used up by the delivery, and the numbers passed become missing.
\<close>

record replay_window =
  rw_next :: nat
  rw_missing :: "nat set"

definition window_refusal :: "replay_window \<Rightarrow> nat \<Rightarrow> ReceiveError option" where
  "window_refusal w n =
     (if n < rw_next w then (if n \<in> rw_missing w then None else Some Replay)
      else if rw_next w + 256 < n then Some TooFarAhead
      else if n = 2 ^ 64 - 1 then Some ReceiveDecryption
      else None)"

definition window_take :: "nat \<Rightarrow> replay_window \<Rightarrow> replay_window" where
  "window_take n w =
     (if n < rw_next w then w\<lparr>rw_missing := rw_missing w - {n}\<rparr>
      else \<lparr>rw_next = Suc n, rw_missing = rw_missing w \<union> {rw_next w ..< n}\<rparr>)"

text \<open>
  One delivery to a window: \<open>opens n packet aad\<close> is the plaintext, if the packet authenticates
  under the message key of number \<open>n\<close>.
\<close>

definition window_deliver ::
  "(nat \<Rightarrow> u8 list \<Rightarrow> u8 list \<Rightarrow> u8 list option) \<Rightarrow> nat \<Rightarrow> u8 list \<Rightarrow> u8 list \<Rightarrow> replay_window \<Rightarrow>
     (ReceiveError + u8 list) \<times> replay_window" where
  "window_deliver opens n packet aad w =
     (case window_refusal w n of
        Some e \<Rightarrow> (Err e, w)
      | None \<Rightarrow>
          (case opens n packet aad of
             None \<Rightarrow> (Err ReceiveDecryption, w)
           | Some plaintext \<Rightarrow> (Ok plaintext, window_take n w)))"

type_synonym delivery = "u8 list \<times> u8 list \<times> u8 list"

definition window_step ::
  "(nat \<Rightarrow> u8 list \<Rightarrow> u8 list \<Rightarrow> u8 list option) \<Rightarrow> delivery \<Rightarrow> replay_window \<Rightarrow>
     (ReceiveError + u8 list) \<times> replay_window" where
  "window_step opens d w =
     (case d of (header_bytes, packet, aad) \<Rightarrow>
        case RatchetHeader_decode header_bytes of
          Err e \<Rightarrow> (Err (InvalidHeader e), w)
        | Ok header \<Rightarrow> window_deliver opens (unat (rh_message_counter header)) packet aad w)"

definition receive_step ::
  "hkdf32 \<Rightarrow> aead \<Rightarrow> delivery \<Rightarrow> ReceiveRatchet \<Rightarrow> (ReceiveError + u8 list) \<times> ReceiveRatchet" where
  "receive_step hkdf aead_dec d r =
     (case d of (header_bytes, packet, aad) \<Rightarrow>
        decrypt_with_header hkdf aead_dec header_bytes packet aad r)"

text \<open>The window of a receiver, and what opens under the keys of its session.\<close>

definition window_of :: "ReceiveRatchet \<Rightarrow> replay_window" where
  "window_of r = \<lparr>rw_next = unat (expected_counter r),
                  rw_missing = unat ` dom (bt_get (rr_skipped r))\<rparr>"

definition session_opens ::
  "hkdf32 \<Rightarrow> aead \<Rightarrow> 32 arr \<Rightarrow> nat \<Rightarrow> u8 list \<Rightarrow> u8 list \<Rightarrow> u8 list option" where
  "session_opens hkdf aead_dec c0 n packet aad =
     (case decrypt_once aead_dec (message_key_at hkdf c0 n) packet aad of
        Err e \<Rightarrow> None | Ok plaintext \<Rightarrow> Some plaintext)"

lemma inj_unat [simp]: "inj_on unat (A :: 'a::len word set)"
  by (simp add: inj_on_def word_unat_eq_iff)

lemma unat_in_image [simp]: "unat (k :: 'a::len word) \<in> unat ` A \<longleftrightarrow> k \<in> A"
  by (auto simp: word_unat_eq_iff [symmetric])

lemma unat_range: "unat ` {a ..< b :: u64} = {unat a ..< unat b}"
proof (rule card_subset_eq)
  show "card (unat ` {a ..< b}) = card {unat a ..< unat b}"
    by (simp add: card_image card_word_range)
qed (auto simp: word_le_nat_alt word_less_nat_alt)

text \<open>The key search takes exactly the numbers the window admits, and finds their keys.\<close>

lemma key_for_window:
  assumes "hkdf_total hkdf" and t: "tracks hkdf c0 r"
  shows "case key_for hkdf target r of
      (Err e, r') \<Rightarrow> window_refusal (window_of r) (unat target) = Some e
    | (Ok key, r') \<Rightarrow> window_refusal (window_of r) (unat target) = None \<and>
        tracks hkdf c0 r' \<and> key = message_key_at hkdf c0 (unat target) \<and>
        window_of r' = window_take (unat target) (window_of r)"
proof (cases "target < expected_counter r")
  case True
  then have "unat target < unat (expected_counter r)"
    by (simp add: word_less_nat_alt)
  with True t show ?thesis
    by (auto simp: key_for_def window_refusal_def window_of_def window_take_def tracks_def domIff
        dom_bt_remove image_set_diff simp del: bt_get_remove split: option.splits)
      (auto split: if_splits)
next
  case False
  then have le: "expected_counter r \<le> target" and le': "unat (expected_counter r) \<le> unat target"
    by (simp_all add: word_le_nat_alt word_less_nat_alt)
  let ?l = "key_for_loop hkdf target r None"
  note effect = key_for_loop_effect [OF le refl, of hkdf None]
    and tr = key_for_loop_tracks [OF le refl, of hkdf c0 None]
    and total = key_for_loop_total [OF le refl, of hkdf None]
  have k: "key_for hkdf target r =
      (if unat (expected_counter r) + 256 < unat target then (Err TooFarAhead, r) else ?l)"
    using False within_MAX_SKIP [OF le] by (auto simp: key_for_def Let_def not_less)
  show ?thesis
  proof (cases "target = u64_MAX")
    case True
    then have "\<exists>e r'. ?l = (Err ReceiveDecryption, r')"
      using effect unat_u64_bound [of "expected_counter (snd ?l)"]
      by (auto simp: unat_u64_MAX split: prod.splits sum.splits)
    with k le' show ?thesis
      using True by (auto simp: window_refusal_def window_of_def unat_u64_MAX)
  next
    case False
    then have "unat target \<noteq> 2 ^ 64 - 1"
      by (metis unat_u64_MAX word_unat_eq_iff)
    moreover obtain key r' where "?l = (Ok key, r')"
      using total assms(1) False by (cases ?l; cases "fst ?l") auto
    ultimately show ?thesis
      using k le' effect tr t
      by (simp add: window_refusal_def window_of_def window_take_def image_Un unat_range)
  qed
qed

section \<open>What a receiver promises\<close>

lemma receive_step_cases:
  "receive_step hkdf aead_dec (header_bytes, packet, aad) r =
     (case RatchetHeader_decode header_bytes of
        Err e \<Rightarrow> (Err (InvalidHeader e), r)
      | Ok header \<Rightarrow> ReceiveRatchet_decrypt hkdf aead_dec (rh_message_counter header) packet aad r)"
  by (simp add: receive_step_def decrypt_with_header_def map_err_def split: sum.split)

lemma decrypt_Ok:
  "ReceiveRatchet_decrypt hkdf aead_dec counter packet aad r = (Ok plaintext, r') \<Longrightarrow>
     \<exists>key. key_for hkdf counter r = (Ok key, r') \<and> decrypt_once aead_dec key packet aad = Ok plaintext"
  by (auto simp: ReceiveRatchet_decrypt_def result_simps split: prod.splits sum.splits)

lemma decrypt_Err:
  "fst (ReceiveRatchet_decrypt hkdf aead_dec counter packet aad r) = Err e \<Longrightarrow>
     snd (ReceiveRatchet_decrypt hkdf aead_dec counter packet aad r) = r"
  by (auto simp: ReceiveRatchet_decrypt_def split: prod.splits sum.splits)

lemma decrypt_window:
  assumes "hkdf_total hkdf" and "tracks hkdf c0 r"
  shows "window_deliver (session_opens hkdf aead_dec c0) (unat counter) packet aad (window_of r) =
      (fst (ReceiveRatchet_decrypt hkdf aead_dec counter packet aad r),
       window_of (snd (ReceiveRatchet_decrypt hkdf aead_dec counter packet aad r))) \<and>
    tracks hkdf c0 (snd (ReceiveRatchet_decrypt hkdf aead_dec counter packet aad r))"
  using key_for_window [OF assms, of counter] assms(2)
  by (auto simp: window_deliver_def ReceiveRatchet_decrypt_def session_opens_def map_err_def
      split: prod.splits sum.splits)

interpretation receiver: refined_machine "receive_step hkdf aead_dec"
  "\<lambda>r. hkdf_total hkdf \<and> tracks hkdf c0 r" "window_step (session_opens hkdf aead_dec c0)" window_of
  for hkdf aead_dec c0
proof (unfold_locales, goal_cases)
  case (1 r d)
  then show ?case
    using decrypt_window by (cases d) (auto simp: receive_step_cases split: sum.splits)
next
  case (2 r d)
  then show ?case
    using decrypt_window [of hkdf c0 r aead_dec]
    by (cases d) (auto simp: receive_step_cases window_step_def split: sum.splits)
qed

text \<open>
  The number a delivery was accepted under. The spent numbers are those below the counter that are
  not among the skipped ones; unlike the refinement this needs no law of the primitives.
\<close>

definition accepted_number :: "delivery \<Rightarrow> ReceiveError + u8 list \<Rightarrow> u64 option" where
  "accepted_number d out =
     (case RatchetHeader_decode (fst d) of
        Err e \<Rightarrow> None
      | Ok header \<Rightarrow> (if is_ok out then Some (rh_message_counter header) else None))"

definition number_spent :: "ReceiveRatchet \<Rightarrow> u64 \<Rightarrow> bool" where
  "number_spent r k \<longleftrightarrow> k < expected_counter r \<and> k \<notin> dom (bt_get (rr_skipped r))"

definition skipped_below :: "ReceiveRatchet \<Rightarrow> bool" where
  "skipped_below r \<longleftrightarrow> (\<forall>k \<in> dom (bt_get (rr_skipped r)). k < expected_counter r)"

lemma key_for_spends:
  assumes "key_for hkdf target r = (Ok key, r')" and "skipped_below r"
  shows "skipped_below r' \<and> \<not> number_spent r target \<and> number_spent r' target \<and>
    (\<forall>k. number_spent r k \<longrightarrow> number_spent r' k)"
proof (cases "target < expected_counter r")
  case True
  with assms show ?thesis
    by (auto simp: key_for_def number_spent_def skipped_below_def split: option.splits if_splits)
next
  case False
  then have le: "expected_counter r \<le> target"
    by simp
  have "key_for_loop hkdf target r None = (Ok key, r')"
    using False assms(1) by (auto simp: key_for_def Let_def split: if_splits)
  with key_for_loop_effect [OF le this]
  have n: "unat (expected_counter r') = Suc (unat target)"
    and d: "dom (bt_get (rr_skipped r')) =
      dom (bt_get (rr_skipped r)) \<union> {expected_counter r ..< target}"
    by simp_all
  have below: "k < expected_counter r' \<longleftrightarrow> k \<le> target" for k
    using n by (simp add: word_le_nat_alt word_less_nat_alt less_Suc_eq_le)
  have "k < target" if "k \<in> dom (bt_get (rr_skipped r))" for k
    using assms(2) that le unfolding skipped_below_def by (meson order_less_le_trans)
  then have "target \<notin> dom (bt_get (rr_skipped r'))" "\<forall>k \<in> dom (bt_get (rr_skipped r')). k \<le> target"
    unfolding d by (auto intro: order_less_imp_le)
  then show ?thesis
    using le unfolding number_spent_def skipped_below_def below by (auto simp: d)
qed

interpretation accepted: once_only "receive_step hkdf aead_dec" skipped_below accepted_number
  number_spent for hkdf aead_dec
proof -
  have step: "skipped_below (snd (receive_step hkdf aead_dec d r)) \<and>
      (\<forall>k. number_spent r k \<longrightarrow> number_spent (snd (receive_step hkdf aead_dec d r)) k) \<and>
      (\<forall>k. accepted_number d (fst (receive_step hkdf aead_dec d r)) = Some k \<longrightarrow>
         \<not> number_spent r k \<and> number_spent (snd (receive_step hkdf aead_dec d r)) k)"
    if inv: "skipped_below r" for d r
  proof -
    obtain h p a where d: "d = (h, p, a)" by (cases d)
    show ?thesis
    proof (cases "RatchetHeader_decode h")
      case (Inl e)
      with inv d show ?thesis by (simp add: receive_step_cases accepted_number_def)
    next
      case (Inr header)
      let ?d = "ReceiveRatchet_decrypt hkdf aead_dec (rh_message_counter header) p a r"
      show ?thesis
      proof (cases "fst ?d")
        case (Inl e)
        then show ?thesis
          using inv decrypt_Err [OF Inl]
          by (simp add: d Inr receive_step_cases accepted_number_def)
      next
        case (Inr pt)
        then obtain key where "key_for hkdf (rh_message_counter header) r = (Ok key, snd ?d)"
          using decrypt_Ok by (metis prod.collapse)
        from key_for_spends [OF this inv] show ?thesis
          by (simp add: d \<open>RatchetHeader_decode h = Inr header\<close> Inr receive_step_cases
              accepted_number_def)
      qed
    qed
  qed
  show "once_only (receive_step hkdf aead_dec) skipped_below accepted_number number_spent"
    using step by unfold_locales blast+
qed

interpretation receive: transactional "receive_step hkdf aead_dec" for hkdf aead_dec
proof (unfold_locales, goal_cases)
  case (1 d r e)
  then show ?case
    using decrypt_Err by (cases d) (auto simp: receive_step_cases split: sum.splits)
qed

section \<open>Delivery in any order\<close>

text \<open>
  A schedule is the order in which the packets of a session arrive. It stays within the window
  when no packet is more than 256 ahead of the highest number that has arrived.
\<close>

fun within_window :: "nat \<Rightarrow> nat list \<Rightarrow> bool" where
  "within_window next [] \<longleftrightarrow> True"
| "within_window next (i # is) \<longleftrightarrow> i \<le> next + 256 \<and> within_window (max next (Suc i)) is"

text \<open>The delivery of packet \<open>i\<close> of a session: its header, the packet, the associated data.\<close>

definition delivery_of :: "send_request list \<Rightarrow> u8 list list \<Rightarrow> nat \<Rightarrow> delivery" where
  "delivery_of qs packets i =
     (bytes (RatchetHeader_encode (RatchetHeader_new (word_of_nat i))), packets ! i, sq_aad (qs ! i))"

lemma window_schedule:
  assumes "distinct is" and "within_window (rw_next w) is"
    and "\<forall>i \<in> set is. i < 2 ^ 64 - 1 \<and> opens i (packets ! i) (sq_aad (qs ! i)) = Some (pt i)"
    and "\<forall>i \<in> set is. i < rw_next w \<longrightarrow> i \<in> rw_missing w"
  shows "fst (run (window_step opens) (map (delivery_of qs packets) is) w) = map (\<lambda>i. Ok (pt i)) is"
  using assms
proof (induction "is" arbitrary: w)
  case Nil
  then show ?case by simp
next
  case (Cons i "is")
  have "i < 2 ^ 64 - 1" "opens i (packets ! i) (sq_aad (qs ! i)) = Some (pt i)"
    using Cons.prems(3) by simp_all
  moreover from this have "unat (word_of_nat i :: u64) = i"
    by (simp add: unat_of_nat)
  moreover have "RatchetHeader_decode (bytes (RatchetHeader_encode (RatchetHeader_new (word_of_nat i)))) =
      Ok (RatchetHeader_new (word_of_nat i))"
    by (simp add: RatchetHeader_decode_Ok RatchetHeader_new_def)
  ultimately have step: "window_step opens (delivery_of qs packets i) w =
      (Ok (pt i), window_take i w)"
    using Cons.prems(2,4)
    by (auto simp: window_step_def delivery_of_def window_deliver_def
        window_refusal_def RatchetHeader_new_def)
  have "fst (run (window_step opens) (map (delivery_of qs packets) is) (window_take i w)) =
      map (\<lambda>i. Ok (pt i)) is"
    using Cons.prems
    by (cases "i < rw_next w"; intro Cons.IH)
      (auto simp: window_take_def max_absorb1 max_absorb2 less_Suc_eq)
  with step show ?case by simp
qed

section \<open>Properties\<close>

lemma skipped_below_from_root:
  "ReceiveRatchet_from_root hkdf root = Ok r \<Longrightarrow> skipped_below r"
  by (auto simp: skipped_below_def dest!: tracks_from_root)

lemma sample_from_root [simp]:
  "ReceiveRatchet_from_root sample_hkdf root =
     Ok \<lparr>rr_state = \<lparr>rs_chain_key = fill 7, rs_next_counter = 0\<rparr>, rr_skipped = bt_empty\<rparr>"
  "RatchetState_from_root sample_hkdf root = Ok \<lparr>rs_chain_key = fill 7, rs_next_counter = 0\<rparr>"
  by (simp_all add: ReceiveRatchet_from_root_def RatchetState_from_root_def sample_hkdf_def)

text \<open>
  C5. Refinement of the receiver: on any sequence of deliveries - headers, packets and associated
  data chosen by the network - a receiver created from a session root answers exactly as the
  replay window does, error for error, and ends in the state whose window is the window's. In
  particular a number already used is \<open>Replay\<close>, a number more than 256 ahead is \<open>TooFarAhead\<close>,
  the last 64-bit number is \<open>Decryption\<close>, and every other number opens exactly the packets that
  authenticate under the message key of that number of the session.
\<close>

theorem receiver_refines_replay_window:
  assumes "hkdf_total hkdf"
    and "ReceiveRatchet_from_root hkdf root = Ok r"
    and "hkdf CHAIN_DOMAIN (bytes root) (byte_string ''initial-chain'') = Some c0"
  shows "run (window_step (session_opens hkdf aead_dec c0)) ds \<lparr>rw_next = 0, rw_missing = {}\<rparr> =
    (fst (run (receive_step hkdf aead_dec) ds r),
     window_of (snd (run (receive_step hkdf aead_dec) ds r)))"
proof -
  have "tracks hkdf c0 r" "window_of r = \<lparr>rw_next = 0, rw_missing = {}\<rparr>"
    using tracks_from_root [OF assms(2)] assms(3) by (auto simp: window_of_def)
  then show ?thesis
    using receiver.run_simulates [of hkdf c0 r] assms(1) by metis
qed

theorem receiver_refines_replay_window_witness:
  "run (window_step (session_opens sample_hkdf sample_aead (fill 7))) [([0, 1, 9], [5], [])]
     \<lparr>rw_next = 0, rw_missing = {}\<rparr> =
    (fst (run (receive_step sample_hkdf sample_aead) [([0, 1, 9], [5], [])]
       \<lparr>rr_state = \<lparr>rs_chain_key = fill 7, rs_next_counter = 0\<rparr>, rr_skipped = bt_empty\<rparr>),
     window_of (snd (run (receive_step sample_hkdf sample_aead) [([0, 1, 9], [5], [])]
       \<lparr>rr_state = \<lparr>rs_chain_key = fill 7, rs_next_counter = 0\<rparr>, rr_skipped = bt_empty\<rparr>)))"
  by (rule receiver_refines_replay_window [of sample_hkdf "fill 1"]) (simp_all add: sample_hkdf_def)

text \<open>
  C6. Replay protection against an arbitrary network: whatever headers and packets a receiver is
  given, and whatever the primitives answer, no message number is accepted twice in its lifetime.
\<close>

theorem no_number_accepted_twice:
  "case ReceiveRatchet_from_root hkdf root of
     Ok r \<Rightarrow> distinct (granted accepted_number ds (fst (run (receive_step hkdf aead_dec) ds r)))
   | Err e \<Rightarrow> e = Kdf"
proof (cases "ReceiveRatchet_from_root hkdf root")
  case (Inl e)
  then show ?thesis
    by (auto simp: ReceiveRatchet_from_root_def RatchetState_from_root_def result_simps)
next
  case (Inr r)
  then show ?thesis
    using accepted.granted_once [OF skipped_below_from_root [OF Inr]] by simp
qed

text \<open>
  Rejected deliveries cost nothing: leaving out every delivery that was rejected - a malformed
  header, a replay, a number too far ahead, a packet that does not authenticate - does not change
  the state the receiver ends in.
\<close>

theorem rejected_deliveries_leave_no_trace:
  "snd (run (receive_step hkdf aead_dec) ds r) =
   snd (run (receive_step hkdf aead_dec)
          (map fst (filter (\<lambda>(d, out). is_ok out)
             (zip ds (fst (run (receive_step hkdf aead_dec) ds r))))) r)"
  by (rule receive.run_successes)

text \<open>
  A message can make the receiver remember at most \<open>MAX_SKIP\<close> = 256 keys more than before,
  whatever the packet and its header say.
\<close>

theorem skipped_keys_bounded_per_message:
  "skipped_count (snd (decrypt_with_header hkdf aead_dec header_bytes packet aad r))
     \<le> skipped_count r + 256"
proof (cases "\<exists>header pt. RatchetHeader_decode header_bytes = Ok header \<and>
    fst (ReceiveRatchet_decrypt hkdf aead_dec (rh_message_counter header) packet aad r) = Ok pt")
  case False
  then have "snd (decrypt_with_header hkdf aead_dec header_bytes packet aad r) = r"
    using decrypt_Err by (auto simp: decrypt_with_header_def map_err_def split: sum.splits)
      (metis sum.exhaust)
  then show ?thesis by simp
next
  case True
  then obtain header key r' where h: "RatchetHeader_decode header_bytes = Ok header"
    and r': "snd (decrypt_with_header hkdf aead_dec header_bytes packet aad r) = r'"
    and k: "key_for hkdf (rh_message_counter header) r = (Ok key, r')"
    using decrypt_Ok by (auto simp: decrypt_with_header_def map_err_def) (metis prod.collapse)
  show ?thesis
  proof (cases "rh_message_counter header < expected_counter r")
    case True
    with k have "r' = r\<lparr>rr_skipped := bt_remove (rh_message_counter header) (rr_skipped r)\<rparr>"
      by (auto simp: key_for_def split: option.splits)
    then show ?thesis
      by (simp add: r' skipped_count_def bt_remove_def bt_len_retain_le trans_le_add1)
  next
    case False
    then have le: "expected_counter r \<le> rh_message_counter header"
      by simp
    have "key_for_loop hkdf (rh_message_counter header) r None = (Ok key, r')"
      and near: "unat (rh_message_counter header) \<le> unat (expected_counter r) + 256"
      using False k within_MAX_SKIP [OF le] by (auto simp: key_for_def Let_def split: if_splits)
    with key_for_loop_effect [OF le] have "dom (bt_get (rr_skipped r')) =
        dom (bt_get (rr_skipped r)) \<union> {expected_counter r ..< rh_message_counter header}"
      by fastforce
    then have "skipped_count r' \<le> skipped_count r +
        card {expected_counter r ..< rh_message_counter header}"
      by (metis bt_len_card card_Un_le skipped_count_def)
    with near show ?thesis
      by (simp add: r' card_word_range)
  qed
qed

text \<open>A sender and a receiver of one root: what is delivered opens as what was sent.\<close>

lemma schedule_delivered:
  assumes "hkdf_total hkdf" and "aead_inverts aead_enc aead_dec"
    and "RatchetState_from_root hkdf root = Ok sender"
    and "ReceiveRatchet_from_root hkdf root = Ok r"
    and "fst (run (send_step hkdf aead_enc) qs sender) = map Ok packets"
    and "distinct schedule" and "\<forall>i \<in> set schedule. i < length qs"
    and "within_window 0 schedule"
  shows "fst (run (receive_step hkdf aead_dec) (map (delivery_of qs packets) schedule) r) =
    map (\<lambda>i. Ok (sq_plaintext (qs ! i))) schedule"
proof -
  obtain c0 where c0: "tracks hkdf c0 r" "expected_counter r = 0" "rr_skipped r = bt_empty"
    and root: "hkdf CHAIN_DOMAIN (bytes root) (byte_string ''initial-chain'') = Some c0"
    using tracks_from_root [OF assms(4)] by blast
  have "on_chain hkdf c0 sender" "rs_next_counter sender = 0"
    using root assms(3) by (auto simp: RatchetState_from_root_def on_chain_def)
  note sent = send_run_packets [OF assms(5) this(1), unfolded this(2)]
  have "i < 2 ^ 64 - 1 \<and> session_opens hkdf aead_dec c0 i (packets ! i) (sq_aad (qs ! i)) =
      Some (sq_plaintext (qs ! i))" if "i \<in> set schedule" for i
  proof -
    from that sent assms(7) obtain ct where "i < 2 ^ 64 - 1"
      "aead_enc (message_key_at hkdf c0 i) (sq_nonce (qs ! i)) (sq_plaintext (qs ! i)) (sq_aad (qs ! i))
         = Some ct" "packets ! i = bytes (sq_nonce (qs ! i)) @ ct"
      by auto
    then show ?thesis
      using assms(2)
      by (simp add: session_opens_def decrypt_once_def aead_inverts_def length_bytes)
  qed
  then have "fst (run (window_step (session_opens hkdf aead_dec c0))
      (map (delivery_of qs packets) schedule) (window_of r)) =
      map (\<lambda>i. Ok (sq_plaintext (qs ! i))) schedule"
    using assms(6,8) c0(2) by (intro window_schedule) (auto simp: window_of_def)
  then show ?thesis
    using receiver.run_simulates [of hkdf c0 r] assms(1) c0(1) by (metis fst_conv)
qed

text \<open>
  C20. Delivery in any order: a sender and a receiver created from the same root; the packets of a
  sending run, delivered in any order without repetition, some of them perhaps never, each no more
  than 256 ahead of the highest number that arrived before it. Every packet delivered decrypts to
  the plaintext that was sent under its number.
\<close>

theorem out_of_order_delivery:
  assumes "hkdf_total hkdf" and "aead_inverts aead_enc aead_dec"
    and "RatchetState_from_root hkdf root = Ok sender"
    and "ReceiveRatchet_from_root hkdf root = Ok r"
    and "fst (run (send_step hkdf aead_enc) qs sender) = map Ok packets"
    and "distinct schedule" and "\<forall>i \<in> set schedule. i < length qs"
    and "within_window 0 schedule"
  shows "fst (run (receive_step hkdf aead_dec) (map (delivery_of qs packets) schedule) r) =
    map (\<lambda>i. Ok (sq_plaintext (qs ! i))) schedule"
  using assms by (rule schedule_delivered)

lemma sample_send:
  "send_step sample_hkdf sample_aead q \<lparr>rs_chain_key = fill 7, rs_next_counter = n\<rparr> =
     (if n = u64_MAX then (Err Kdf, \<lparr>rs_chain_key = fill 7, rs_next_counter = n\<rparr>)
      else (Ok (bytes (sq_nonce q) @ sq_plaintext q),
            \<lparr>rs_chain_key = fill 7, rs_next_counter = n + 1\<rparr>))"
  by (simp add: send_step_def RatchetState_encrypt_def next_message_key_def sample_hkdf_def
      sample_aead_def Let_def u64_checked_add_1)

abbreviation sample_requests :: "send_request list" where
  "sample_requests \<equiv>
     [\<lparr>sq_nonce = fill 1, sq_plaintext = [10], sq_aad = [1]\<rparr>,
      \<lparr>sq_nonce = fill 2, sq_plaintext = [20], sq_aad = [2]\<rparr>]"

theorem out_of_order_delivery_witness:
  "fst (run (receive_step sample_hkdf sample_aead)
     (map (delivery_of sample_requests [bytes (fill 1 :: 12 arr) @ [10], bytes (fill 2 :: 12 arr) @ [20]])
        [1, 0])
     \<lparr>rr_state = \<lparr>rs_chain_key = fill 7, rs_next_counter = 0\<rparr>, rr_skipped = bt_empty\<rparr>) =
   map (\<lambda>i. Ok (sq_plaintext (sample_requests ! i))) [1, 0]"
  by (rule out_of_order_delivery [of sample_hkdf sample_aead sample_aead "fill 1"
        "\<lparr>rs_chain_key = fill 7, rs_next_counter = 0\<rparr>"])
    (simp_all add: sample_send u64_MAX_def)

end
