(* ===== verification/Snapshot.thy ===== *)
theory Snapshot
  imports Receive
begin

text \<open>
  The snapshot of a receiving ratchet, \<open>snapshot\<close> and \<open>from_snapshot\<close> of
  \<open>core/ratchet/src/receive.rs\<close>: a fixed header, the chain key and the skipped keys. Shown:
  which bytes are accepted, what a restored receiver is, and when no snapshot can be taken.
\<close>

section \<open>The snapshot format\<close>

definition SNAPSHOT_VERSION :: u16 where
  "SNAPSHOT_VERSION = 1"

definition SNAPSHOT_MAGIC :: "u8 list" where
  "SNAPSHOT_MAGIC = byte_string ''MRS1''"

definition SNAPSHOT_HEADER_LEN :: usize where
  "SNAPSHOT_HEADER_LEN = 4 + 2 + 8 + 2"

definition SNAPSHOT_ENTRY_LEN :: usize where
  "SNAPSHOT_ENTRY_LEN = 8 + 32"

definition MAX_SNAPSHOT_SKIPPED :: usize where
  "MAX_SNAPSHOT_SKIPPED = 256"

datatype ReceiveSnapshotError =
  SnapshotTruncated | SnapshotInvalidMagic | SnapshotInvalidVersion | SnapshotInvalidLength
| TooManySkipped | DuplicateCounter

definition ReceiveRatchet_snapshot :: "ReceiveRatchet \<Rightarrow> ReceiveSnapshotError + u8 list" where
  "ReceiveRatchet_snapshot r =
     (if MAX_SNAPSHOT_SKIPPED < bt_len (rr_skipped r) then Err TooManySkipped
      else Ok (SNAPSHOT_MAGIC @ u16_to_be SNAPSHOT_VERSION @
               u64_to_be (RatchetState_counter (rr_state r)) @
               u16_to_be (word_of_nat (bt_len (rr_skipped r))) @
               bytes (snapshot_chain_key (rr_state r)) @
               concat (map (\<lambda>(counter, key). u64_to_be counter @ bytes key)
                           (entries (rr_skipped r)))))"

text \<open>
  The loop over the entries. \<open>BTreeMap::insert\<close> returning \<open>Some\<close> is the key being there already.
\<close>

fun read_skipped ::
  "u8 list \<Rightarrow> nat \<Rightarrow> usize \<Rightarrow> (u64, 32 arr) btree \<Rightarrow>
     ReceiveSnapshotError + (u64, 32 arr) btree" where
  "read_skipped snapshot 0 offset skipped = Ok skipped"
| "read_skipped snapshot (Suc n) offset skipped =
     (let key_end = offset + SNAPSHOT_ENTRY_LEN;
          entry = slice snapshot offset key_end;
          entry_counter = u64_from_be (take 8 entry)
      in if bt_contains skipped entry_counter then Err DuplicateCounter
         else read_skipped snapshot n key_end
                (bt_insert entry_counter (arr (slice entry 8 40)) skipped))"

definition ReceiveRatchet_from_snapshot ::
  "u8 list \<Rightarrow> ReceiveSnapshotError + ReceiveRatchet" where
  "ReceiveRatchet_from_snapshot snapshot =
     (if length snapshot < SNAPSHOT_HEADER_LEN + 32 then Err SnapshotTruncated
      else if take 4 snapshot \<noteq> SNAPSHOT_MAGIC then Err SnapshotInvalidMagic
      else let version = u16_from_be [snapshot ! 4, snapshot ! 5] in
      if version \<noteq> SNAPSHOT_VERSION then Err SnapshotInvalidVersion
      else let counter = u64_from_be (slice snapshot 6 14);
               count = unat (u16_from_be [snapshot ! 14, snapshot ! 15]) in
      if MAX_SNAPSHOT_SKIPPED < count then Err TooManySkipped
      else let expected = SNAPSHOT_HEADER_LEN + 32 + count * SNAPSHOT_ENTRY_LEN in
      if length snapshot \<noteq> expected then Err SnapshotInvalidLength
      else let chain = arr (slice snapshot 16 48) in
      and_then (read_skipped snapshot count 48 bt_empty) (\<lambda>skipped.
      and_then (map_err (\<lambda>_. SnapshotInvalidLength) (RatchetState_from_snapshot_parts chain counter))
        (\<lambda>state. Ok \<lparr>rr_state = state, rr_skipped = skipped\<rparr>)))"

section \<open>The entries\<close>

definition entry_wire :: "u64 \<times> 32 arr \<Rightarrow> u8 list" where
  "entry_wire e = u64_to_be (fst e) @ bytes (snd e)"

lemma length_entry_wire [simp, wire_simps]: "length (entry_wire e) = 40"
  by (simp add: entry_wire_def)

lemma length_entries_wire [simp, wire_simps]: "length (concat (map entry_wire es)) = 40 * length es"
  by (induction es) simp_all

lemma entries_of_bytes: "length bs = 40 * n \<Longrightarrow> \<exists>es. length es = n \<and> bs = concat (map entry_wire es)"
proof (induction n arbitrary: bs)
  case 0
  then show ?case by simp
next
  case (Suc n)
  then have "length (drop 40 bs) = 40 * n"
    by simp
  from Suc.IH [OF this] obtain es where es: "length es = n" "drop 40 bs = concat (map entry_wire es)"
    by blast
  let ?e = "(u64_from_be (take 8 bs), arr (slice bs 8 40) :: 32 arr)"
  have "take 40 bs = take 8 bs @ slice bs 8 40"
    using append_take_drop_id [of 8 "take 40 bs"] by (simp add: slice_def drop_take)
  also have "\<dots> = entry_wire ?e"
    using Suc.prems by (simp add: entry_wire_def u64_to_from_be bytes_arr)
  finally have "bs = concat (map entry_wire (?e # es))"
    using append_take_drop_id [of 40 bs] es(2) by simp
  with es(1) show ?case
    by (metis length_Cons)
qed

definition insert_all :: "('k::linorder \<times> 'v) list \<Rightarrow> ('k, 'v) btree \<Rightarrow> ('k, 'v) btree" where
  "insert_all es m = fold (\<lambda>(k, v). bt_insert k v) es m"

lemma bt_get_insert_all:
  "distinct (map fst es) \<Longrightarrow>
     bt_get (insert_all es m) k = (case map_of es k of None \<Rightarrow> bt_get m k | Some v \<Rightarrow> Some v)"
proof (induction es arbitrary: m)
  case Nil
  then show ?case by (simp add: insert_all_def)
next
  case (Cons e es)
  then have "bt_get (insert_all es (bt_insert (fst e) (snd e) m)) k =
      (case map_of es k of None \<Rightarrow> bt_get (bt_insert (fst e) (snd e) m) k | Some v \<Rightarrow> Some v)"
    by simp
  moreover have "map_of es (fst e) = None"
    using Cons.prems by (simp add: map_of_eq_None_iff)
  ultimately show ?case
    by (auto simp: insert_all_def case_prod_beta split: option.splits)
qed

lemma insert_all_entries: "insert_all (entries m) bt_empty = m"
  by (rule btree_eqI)
    (simp add: bt_get_insert_all [OF distinct_entries] bt_get_def [symmetric] split: option.splits)

lemma bt_len_insert_all:
  assumes "distinct (map fst es)"
  shows "bt_len (insert_all es bt_empty) = length es"
proof -
  have "dom (bt_get (insert_all es bt_empty)) = fst ` set es"
    using assms by (auto simp: bt_get_insert_all dom_def map_of_eq_None_iff split: option.splits
        dest: map_of_SomeD)
  then show ?thesis
    using assms by (metis bt_len_card distinct_card length_map list.set_map)
qed

text \<open>The loop accepts a list of entries exactly when no counter occurs twice.\<close>

lemma read_skipped_entries:
  "drop offset bs = concat (map entry_wire es) \<Longrightarrow>
     read_skipped bs (length es) offset m =
       (if distinct (map fst es) \<and> fst ` set es \<inter> dom (bt_get m) = {} then Ok (insert_all es m)
        else Err DuplicateCounter)"
proof (induction es arbitrary: offset m)
  case Nil
  then show ?case by (simp add: insert_all_def)
next
  case (Cons e es)
  then have "slice bs offset (offset + 40) = entry_wire e"
    using slice_drop [of offset bs "entry_wire e" "concat (map entry_wire es)"] by simp
  moreover have "drop (offset + 40) bs = concat (map entry_wire es)"
    using arg_cong [OF Cons.prems, of "drop 40"] by (simp add: add.commute)
  note Cons.IH [OF this]
  moreover have "slice (entry_wire e) 8 40 = bytes (snd e)" "take 8 (entry_wire e) = u64_to_be (fst e)"
    by (simp_all add: entry_wire_def slice_def)
  ultimately show ?case
    by (auto simp: SNAPSHOT_ENTRY_LEN_def Let_def bt_contains_iff dom_bt_insert insert_all_def
        case_prod_beta simp del: bt_get_insert)
qed

section \<open>The whole snapshot\<close>

definition snapshot_wire :: "u64 \<Rightarrow> 32 arr \<Rightarrow> (u64 \<times> 32 arr) list \<Rightarrow> u8 list" where
  "snapshot_wire counter chain es =
     SNAPSHOT_MAGIC @ u16_to_be SNAPSHOT_VERSION @ u64_to_be counter @
     u16_to_be (word_of_nat (length es)) @ bytes chain @ concat (map entry_wire es)"

lemma length_SNAPSHOT_MAGIC [simp]: "length SNAPSHOT_MAGIC = 4"
  by (simp add: SNAPSHOT_MAGIC_def)

lemma snapshot_eq:
  "ReceiveRatchet_snapshot r =
     (if 256 < skipped_count r then Err TooManySkipped
      else Ok (snapshot_wire (expected_counter r) (rs_chain_key (rr_state r)) (entries (rr_skipped r))))"
  by (simp add: ReceiveRatchet_snapshot_def MAX_SNAPSHOT_SKIPPED_def skipped_count_def snapshot_wire_def
      expected_counter_def snapshot_chain_key_def bt_len_def entry_wire_def [abs_def]
      case_prod_beta')

lemma slice_skip: "slice (xs @ ys) i j = slice ys (i - length xs) (j - length xs)"
  if "length xs \<le> i" "i \<le> j"
  using that by (simp add: slice_def)

lemma slice_here: "slice (xs @ ys) 0 (length xs) = xs"
  by (simp add: slice_def)

lemma snapshot_wire_fields:
  "take 4 (snapshot_wire c ch es) = SNAPSHOT_MAGIC"
  "slice (snapshot_wire c ch es) 4 6 = u16_to_be SNAPSHOT_VERSION"
  "slice (snapshot_wire c ch es) 6 14 = u64_to_be c"
  "slice (snapshot_wire c ch es) 14 16 = u16_to_be (word_of_nat (length es))"
  "slice (snapshot_wire c ch es) 16 48 = bytes ch"
  "drop 48 (snapshot_wire c ch es) = concat (map entry_wire es)"
  "length (snapshot_wire c ch es) = 48 + 40 * length es"
  by (simp_all add: snapshot_wire_def slice_def)

lemma two_bytes: "Suc i < length bs \<Longrightarrow> [bs ! i, bs ! Suc i] = slice bs i (i + 2)"
  by (rule nth_equalityI) (auto simp: slice_def less_Suc_eq)

lemma restore_wire:
  assumes "length es \<le> 256"
  shows "ReceiveRatchet_from_snapshot (snapshot_wire c ch es) =
    (if \<not> distinct (map fst es) then Err DuplicateCounter
     else if c = u64_MAX then Err SnapshotInvalidLength
     else Ok \<lparr>rr_state = \<lparr>rs_chain_key = ch, rs_next_counter = c\<rparr>,
              rr_skipped = insert_all es bt_empty\<rparr>)"
proof -
  let ?bs = "snapshot_wire c ch es"
  have "unat (word_of_nat (length es) :: u16) = length es"
    using assms by (simp add: unat_of_nat)
  moreover have "[?bs ! 4, ?bs ! 5] = u16_to_be SNAPSHOT_VERSION"
    "[?bs ! 14, ?bs ! 15] = u16_to_be (word_of_nat (length es))"
    using two_bytes [of 4 ?bs] two_bytes [of 14 ?bs] by (simp_all add: snapshot_wire_fields)
  moreover have "read_skipped ?bs (length es) 48 bt_empty =
      (if distinct (map fst es) then Ok (insert_all es bt_empty) else Err DuplicateCounter)"
    by (subst read_skipped_entries) (simp_all add: snapshot_wire_fields dom_def)
  ultimately show ?thesis
    using assms
    by (simp add: ReceiveRatchet_from_snapshot_def snapshot_wire_fields SNAPSHOT_HEADER_LEN_def
        SNAPSHOT_ENTRY_LEN_def MAX_SNAPSHOT_SKIPPED_def RatchetState_from_snapshot_parts_def)
qed

text \<open>Every snapshot that is long enough and has the right frame is of this form.\<close>

lemma restored_frame:
  assumes "ReceiveRatchet_from_snapshot bs = Ok r"
  shows "\<exists>c ch es. length es \<le> 256 \<and> bs = snapshot_wire c ch es"
proof -
  let ?n = "unat (u16_from_be (slice bs 14 16))"
  have len: "48 \<le> length bs"
    using assms by (auto simp: ReceiveRatchet_from_snapshot_def SNAPSHOT_HEADER_LEN_def split: if_splits)
  have two: "[bs ! 4, bs ! 5] = slice bs 4 6" "[bs ! 14, bs ! 15] = slice bs 14 16"
    using two_bytes [of 4 bs] two_bytes [of 14 bs] len by simp_all
  have frame: "take 4 bs = SNAPSHOT_MAGIC" "u16_from_be (slice bs 4 6) = SNAPSHOT_VERSION"
    "?n \<le> 256" "length bs = 48 + 40 * ?n"
    using assms by (auto simp: ReceiveRatchet_from_snapshot_def Let_def two SNAPSHOT_HEADER_LEN_def
        SNAPSHOT_ENTRY_LEN_def MAX_SNAPSHOT_SKIPPED_def split: if_splits)
  obtain es where es: "length es = ?n" "drop 48 bs = concat (map entry_wire es)"
    using entries_of_bytes [of "drop 48 bs" ?n] frame(4) by auto
  have "bs = take 4 bs @ slice bs 4 6 @ slice bs 6 14 @ slice bs 14 16 @ slice bs 16 48 @ drop 48 bs"
    using drop_slice [of 4 6 bs] drop_slice [of 6 14 bs] drop_slice [of 14 16 bs]
      drop_slice [of 16 48 bs] append_take_drop_id [of 4 bs] by simp
  also have "\<dots> = snapshot_wire (u64_from_be (slice bs 6 14)) (arr (slice bs 16 48)) es"
    using len frame(2) u16_to_from_be [of "slice bs 4 6"] u16_to_from_be [of "slice bs 14 16"]
    by (simp add: snapshot_wire_def frame(1) es u64_to_from_be bytes_arr)
  finally show ?thesis
    using es(1) frame(3) by metis
qed

text \<open>A snapshot and its restore.\<close>

lemma snapshot_facts:
  "case ReceiveRatchet_snapshot r of
     Ok bs \<Rightarrow> skipped_count r \<le> 256 \<and> length bs = 48 + 40 * skipped_count r \<and>
       ReceiveRatchet_from_snapshot bs =
         (if expected_counter r = u64_MAX then Err SnapshotInvalidLength else Ok r)
   | Err e \<Rightarrow> e = TooManySkipped \<and> 256 < skipped_count r"
proof (cases "256 < skipped_count r")
  case True
  then show ?thesis by (simp add: snapshot_eq)
next
  case False
  then have "length (entries (rr_skipped r)) \<le> 256"
    by (simp add: skipped_count_def bt_len_def)
  then show ?thesis
    using False
    by (simp add: snapshot_eq snapshot_wire_fields restore_wire distinct_entries insert_all_entries
        skipped_count_def bt_len_def expected_counter_def RatchetState_counter_def)
qed

section \<open>Properties\<close>

text \<open>
  C40. A snapshot restores the receiver it was taken of: with at most 256 skipped keys it is taken
  and has 48 bytes and 40 more per key, and restoring it gives back the very same state - unless
  the counter is exhausted, when the restore answers \<open>InvalidLength\<close>.
\<close>

theorem snapshot_round_trip:
  "case ReceiveRatchet_snapshot r of
     Ok bs \<Rightarrow> skipped_count r \<le> 256 \<and> length bs = 48 + 40 * skipped_count r \<and>
       ReceiveRatchet_from_snapshot bs =
         (if expected_counter r = u64_MAX then Err SnapshotInvalidLength else Ok r)
   | Err e \<Rightarrow> e = TooManySkipped \<and> 256 < skipped_count r"
  by (rule snapshot_facts)

text \<open>
  What a restore accepts: exactly the snapshots of format 1 with at most 256 entries, no
  counter twice and a counter that is not exhausted, the entries in any order; and the receiver it
  returns holds exactly what the bytes say. Nothing is accepted with bytes missing or left over.
\<close>

theorem restore_accepts_exactly:
  "ReceiveRatchet_from_snapshot bs = Ok r \<longleftrightarrow>
     (\<exists>es. length es \<le> 256 \<and> distinct (map fst es) \<and> expected_counter r \<noteq> u64_MAX \<and>
           bs = snapshot_wire (expected_counter r) (rs_chain_key (rr_state r)) es \<and>
           rr_skipped r = insert_all es bt_empty)"
proof
  assume ok: "ReceiveRatchet_from_snapshot bs = Ok r"
  then obtain c ch es where es: "length es \<le> 256" "bs = snapshot_wire c ch es"
    using restored_frame by blast
  with ok have "distinct (map fst es) \<and> c \<noteq> u64_MAX \<and>
      r = \<lparr>rr_state = \<lparr>rs_chain_key = ch, rs_next_counter = c\<rparr>, rr_skipped = insert_all es bt_empty\<rparr>"
    by (auto simp: restore_wire split: if_splits)
  with es show "\<exists>es. length es \<le> 256 \<and> distinct (map fst es) \<and> expected_counter r \<noteq> u64_MAX \<and>
      bs = snapshot_wire (expected_counter r) (rs_chain_key (rr_state r)) es \<and>
      rr_skipped r = insert_all es bt_empty"
    by (auto simp: expected_counter_def RatchetState_counter_def)
next
  assume "\<exists>es. length es \<le> 256 \<and> distinct (map fst es) \<and> expected_counter r \<noteq> u64_MAX \<and>
      bs = snapshot_wire (expected_counter r) (rs_chain_key (rr_state r)) es \<and>
      rr_skipped r = insert_all es bt_empty"
  then show "ReceiveRatchet_from_snapshot bs = Ok r"
    by (auto simp: restore_wire expected_counter_def RatchetState_counter_def)
qed

text \<open>
  C37. The bound on skipped keys is per message, not per receiver, so the receiver can leave the
  states that have a snapshot: after accepting number 256 and then number 513 as its first two
  messages it holds 512 skipped keys, and \<open>snapshot\<close> answers \<open>TooManySkipped\<close>.
\<close>

theorem two_gaps_prevent_snapshot:
  assumes "ReceiveRatchet_from_root hkdf root = Ok r"
    and "ReceiveRatchet_decrypt hkdf aead_dec 256 packet aad r = (Ok first, r')"
    and "ReceiveRatchet_decrypt hkdf aead_dec 513 packet' aad' r' = (Ok second, r'')"
  shows "skipped_count r'' = 512 \<and> ReceiveRatchet_snapshot r'' = Err TooManySkipped"
proof -
  have r: "expected_counter r = 0" "rr_skipped r = bt_empty"
    using tracks_from_root [OF assms(1)] by auto
  obtain key where "key_for hkdf 256 r = (Ok key, r')"
    using decrypt_Ok [OF assms(2)] by blast
  then have "key_for_loop hkdf 256 r None = (Ok key, r')"
    by (simp add: key_for_def r MAX_SKIP_def)
  with key_for_loop_effect [of r 256 hkdf None] have r': "unat (expected_counter r') = 257"
    "dom (bt_get (rr_skipped r')) = {0 ..< 256}"
    by (auto simp: r dom_def)
  then have e: "expected_counter r' = 257"
    by (simp add: word_unat_eq_iff)
  obtain key' where "key_for hkdf 513 r' = (Ok key', r'')"
    using decrypt_Ok [OF assms(3)] by blast
  then have "key_for_loop hkdf 513 r' None = (Ok key', r'')"
    by (simp add: key_for_def e MAX_SKIP_def)
  with key_for_loop_effect [of r' 513 hkdf None] have "dom (bt_get (rr_skipped r'')) =
      {0 ..< 256} \<union> {257 ..< 513 :: u64}"
    by (simp add: e r'(2))
  moreover have "card ({0 ..< 256} \<union> {257 ..< 513 :: u64}) = 512"
    by (subst card_Un_disjoint) (auto simp: card_word_range)
  ultimately have "skipped_count r'' = 512"
    by (simp add: skipped_count_def bt_len_card)
  then show ?thesis
    by (simp add: snapshot_eq)
qed

theorem two_gaps_prevent_snapshot_witness:
  "\<exists>r' r''. ReceiveRatchet_decrypt sample_hkdf sample_aead 256 (replicate 12 0) []
       \<lparr>rr_state = \<lparr>rs_chain_key = fill 7, rs_next_counter = 0\<rparr>, rr_skipped = bt_empty\<rparr> = (Ok [], r') \<and>
     ReceiveRatchet_decrypt sample_hkdf sample_aead 513 (replicate 12 0) [] r' = (Ok [], r'') \<and>
     skipped_count r'' = 512 \<and> ReceiveRatchet_snapshot r'' = Err TooManySkipped"
proof -
  let ?r = "\<lparr>rr_state = \<lparr>rs_chain_key = fill 7, rs_next_counter = 0\<rparr>, rr_skipped = bt_empty\<rparr>"
  let ?dec = "\<lambda>n r. ReceiveRatchet_decrypt sample_hkdf sample_aead n (replicate 12 0) [] r"
  have root: "ReceiveRatchet_from_root sample_hkdf (fill 1) = Ok ?r"
    by simp
  obtain c0 where c0: "tracks sample_hkdf c0 ?r" "window_of ?r = \<lparr>rw_next = 0, rw_missing = {}\<rparr>"
    using tracks_from_root [OF root] by (auto simp: window_of_def fun_eq_iff)
  have opens: "session_opens sample_hkdf sample_aead c0 n (replicate 12 0) [] = Some []" for n
    by (simp add: session_opens_def decrypt_once_def sample_aead_def)
  note first = decrypt_window [OF sample_laws(1) c0(1), of sample_aead 256 "replicate 12 0" "[]"]
  have 1: "?dec 256 ?r = (Ok [], snd (?dec 256 ?r))"
    and w: "window_of (snd (?dec 256 ?r)) = \<lparr>rw_next = 257, rw_missing = {0 ..< 256}\<rparr>"
    using first by (simp_all add: window_deliver_def c0(2) window_refusal_def opens prod_eq_iff
        window_take_def)
  note second = decrypt_window [OF sample_laws(1), of c0 "snd (?dec 256 ?r)" sample_aead 513
      "replicate 12 0" "[]"]
  have 2: "?dec 513 (snd (?dec 256 ?r)) = (Ok [], snd (?dec 513 (snd (?dec 256 ?r))))"
    using first second
    by (simp add: window_deliver_def w window_refusal_def opens prod_eq_iff)
  show ?thesis
    using 1 2 two_gaps_prevent_snapshot [OF root 1 2] by blast
qed

end
