(* ===== verification/Storage.thy ===== *)
theory Storage
  imports Ratchet Decimal "HOL-Library.Char_ord" "HOL-Library.List_Lexorder" "HOL-Library.Sublist"
begin

text \<open>
  Local encrypted storage: \<open>core/crypto/src/lib.rs\<close> (\<open>seal\<close>, \<open>open\<close>) and the record format and
  journal of \<open>core/storage/src/lib.rs\<close>. The directory of a journal is an ordered map from file
  names to contents. What the operating system does is an argument of the operations: which file
  operation fails, what is in the temporary file when one does, and whether the process lives to see
  the answer of a save - one that ends before the rename leaves the same directory as a save whose
  next operation failed, one that ends after it leaves the renamed record. A rename, once made, is
  taken to last: the code asks for that with \<open>sync_directory\<close> and ignores whether it worked.
\<close>

section \<open>Sealed records\<close>

definition API_VERSION :: u32 where
  "API_VERSION = 1"

definition KEY_LEN :: usize where
  "KEY_LEN = 32"

definition NONCE_LEN :: usize where
  "NONCE_LEN = 12"

record Ciphertext =
  ct_nonce :: "12 arr"
  ct_body :: "u8 list"

datatype CryptoError = EncryptionFailed | DecryptionFailed

text \<open>The key and the nonce are what \<open>OsRng\<close> filled in.\<close>

definition generate_key :: "32 arr \<Rightarrow> 32 arr" where
  "generate_key random = random"

definition seal :: "aead \<Rightarrow> 12 arr \<Rightarrow> 32 arr \<Rightarrow> u8 list \<Rightarrow> CryptoError + Ciphertext" where
  "seal aead_enc nonce key plaintext =
     and_then (ok_or (aead_enc key nonce plaintext []) EncryptionFailed) (\<lambda>body.
     Ok \<lparr>ct_nonce = nonce, ct_body = body\<rparr>)"

definition crypto_open :: "aead \<Rightarrow> 32 arr \<Rightarrow> Ciphertext \<Rightarrow> CryptoError + u8 list" where
  "crypto_open aead_dec key ciphertext =
     ok_or (aead_dec key (ct_nonce ciphertext) (ct_body ciphertext) []) DecryptionFailed"

definition STORAGE_FORMAT_VERSION :: u16 where
  "STORAGE_FORMAT_VERSION = 1"

definition RECORD_HEADER_LEN :: usize where
  "RECORD_HEADER_LEN = 2"

definition AEAD_TAG_LEN :: usize where
  "AEAD_TAG_LEN = 16"

datatype StorageError =
  StorageInvalidVersion | StorageTruncated | InvalidCiphertext | InvalidJournalRecord
| NoValidRecord | StorageGenerationOverflow | Io | Crypto CryptoError

definition seal_record :: "aead \<Rightarrow> 12 arr \<Rightarrow> 32 arr \<Rightarrow> u8 list \<Rightarrow> StorageError + u8 list" where
  "seal_record aead_enc nonce key plaintext =
     and_then (map_err Crypto (seal aead_enc nonce key plaintext)) (\<lambda>encrypted.
     Ok (u16_to_be STORAGE_FORMAT_VERSION @ bytes (ct_nonce encrypted) @ ct_body encrypted))"

definition open_record :: "aead \<Rightarrow> 32 arr \<Rightarrow> u8 list \<Rightarrow> StorageError + u8 list" where
  "open_record aead_dec key record =
     (let minimum = RECORD_HEADER_LEN + NONCE_LEN + AEAD_TAG_LEN in
      if length record < minimum then Err StorageTruncated
      else let version = u16_from_be [record ! 0, record ! 1] in
      if version \<noteq> STORAGE_FORMAT_VERSION then Err StorageInvalidVersion
      else let nonce = arr (slice record RECORD_HEADER_LEN (RECORD_HEADER_LEN + NONCE_LEN));
               body = drop (RECORD_HEADER_LEN + NONCE_LEN) record
        in map_err Crypto (crypto_open aead_dec key \<lparr>ct_nonce = nonce, ct_body = body\<rparr>))"

section \<open>Journal files\<close>

definition JOURNAL_MAGIC :: "u8 list" where
  "JOURNAL_MAGIC = byte_string ''MJR1''"

definition JOURNAL_HEADER_LEN :: usize where
  "JOURNAL_HEADER_LEN = 4 + 8"

type_synonym directory = "(string, u8 list) btree"

record EncryptedJournal =
  ej_prefix :: string

definition EncryptedJournal_new :: "bool \<Rightarrow> string \<Rightarrow> StorageError + EncryptedJournal" where
  "EncryptedJournal_new create_dir_ok pre =
     (if pre = [] \<or> CHR ''/'' \<in> set pre \<or> CHR 0x5C \<in> set pre \<or> sublist ''..'' pre
      then Err InvalidJournalRecord
      else if \<not> create_dir_ok then Err Io
      else Ok \<lparr>ej_prefix = pre\<rparr>)"

definition strip_prefix :: "string \<Rightarrow> string \<Rightarrow> string option" where
  "strip_prefix p s = (if prefix p s then Some (drop (length p) s) else None)"

definition strip_suffix :: "string \<Rightarrow> string \<Rightarrow> string option" where
  "strip_suffix p s = (if suffix p s then Some (take (length s - length p) s) else None)"

definition final_path :: "EncryptedJournal \<Rightarrow> u64 \<Rightarrow> string" where
  "final_path j generation = ej_prefix j @ ''-'' @ decimal (unat generation) @ ''.bin''"

definition temp_path :: "EncryptedJournal \<Rightarrow> u64 \<Rightarrow> string" where
  "temp_path j generation = ej_prefix j @ ''-'' @ decimal (unat generation) @ ''.tmp''"

definition parse_generation :: "EncryptedJournal \<Rightarrow> string \<Rightarrow> u64 option" where
  "parse_generation j name =
     Option.bind (strip_prefix (ej_prefix j @ ''-'') name) (\<lambda>rest.
     Option.bind (strip_suffix ''.bin'' rest) (\<lambda>stem.
     parse_u64 stem))"

text \<open>The directory listing may fail; its order does not matter, since the code sorts.\<close>

definition generations :: "bool \<Rightarrow> EncryptedJournal \<Rightarrow> directory \<Rightarrow> StorageError + u64 list" where
  "generations read_dir_ok j dir =
     (if \<not> read_dir_ok then Err Io
      else Ok (sort (List.map_filter (parse_generation j) (map fst (entries dir)))))"

definition encode_journal :: "u64 \<Rightarrow> u8 list \<Rightarrow> u8 list" where
  "encode_journal generation plaintext = JOURNAL_MAGIC @ u64_to_be generation @ plaintext"

definition decode_journal :: "u8 list \<Rightarrow> u64 \<Rightarrow> StorageError + u8 list" where
  "decode_journal record expected_generation =
     (if length record < JOURNAL_HEADER_LEN then Err StorageTruncated
      else if take 4 record \<noteq> JOURNAL_MAGIC then Err InvalidJournalRecord
      else let generation = u64_from_be (slice record 4 12) in
        if generation \<noteq> expected_generation then Err InvalidJournalRecord
        else Ok (drop JOURNAL_HEADER_LEN record))"

section \<open>Saving and loading\<close>

text \<open>
  What happens during one save: whether the listing and the exclusive creation work, what the
  temporary file holds when writing or flushing it failed or was interrupted (\<open>None\<close>: both worked),
  whether the rename works, and whether the process lives until the save has returned - it may end
  at any moment, also after the rename.
\<close>

record save_io =
  io_list :: bool
  io_create :: bool
  io_torn :: "u8 list option"
  io_rename :: bool
  io_returns :: bool

text \<open>
  \<open>create_new\<close> fails when the file exists. The rename replaces the final file and removes the
  temporary one. \<open>sync_directory\<close> ignores its own failures and changes nothing.
\<close>

definition EncryptedJournal_save ::
  "aead \<Rightarrow> 12 arr \<Rightarrow> save_io \<Rightarrow> EncryptedJournal \<Rightarrow> 32 arr \<Rightarrow> u8 list \<Rightarrow> directory \<Rightarrow>
     (StorageError + u64) \<times> directory" where
  "EncryptedJournal_save aead_enc nonce io j key plaintext dir =
     (case generations (io_list io) j dir of
        Err e \<Rightarrow> (Err e, dir)
      | Ok gens \<Rightarrow>
        (case (if gens = [] then Ok 0
               else ok_or (u64_checked_add (Max (set gens)) 1) StorageGenerationOverflow) of
           Err e \<Rightarrow> (Err e, dir)
         | Ok generation \<Rightarrow>
           (case seal_record aead_enc nonce key (encode_journal generation plaintext) of
              Err e \<Rightarrow> (Err e, dir)
            | Ok encrypted \<Rightarrow>
              let temp = temp_path j generation; final = final_path j generation in
              if \<not> io_create io \<or> bt_contains dir temp then (Err Io, dir)
              else (case io_torn io of
                  Some partial \<Rightarrow> (Err Io, bt_insert temp partial dir)
                | None \<Rightarrow>
                    let dir' = bt_insert temp encrypted dir in
                    if \<not> io_rename io then (Err Io, dir')
                    else (Ok generation, bt_insert final encrypted (bt_remove temp dir'))))))"

text \<open>The loop of \<open>load\<close>, over the generations from the newest; \<open>unreadable\<close> files are skipped.\<close>

fun load_loop ::
  "aead \<Rightarrow> (string \<Rightarrow> bool) \<Rightarrow> EncryptedJournal \<Rightarrow> 32 arr \<Rightarrow> directory \<Rightarrow> u64 list \<Rightarrow>
     StorageError + u64 \<times> u8 list" where
  "load_loop aead_dec unreadable j key dir [] = Err NoValidRecord"
| "load_loop aead_dec unreadable j key dir (generation # gens) =
     (let path = final_path j generation in
      case (if unreadable path then None else bt_get dir path) of
        None \<Rightarrow> load_loop aead_dec unreadable j key dir gens
      | Some bs \<Rightarrow>
          (case open_record aead_dec key bs of
             Err e \<Rightarrow> load_loop aead_dec unreadable j key dir gens
           | Ok plaintext \<Rightarrow>
               (case decode_journal plaintext generation of
                  Ok state \<Rightarrow> Ok (generation, state)
                | Err e \<Rightarrow> load_loop aead_dec unreadable j key dir gens)))"

definition EncryptedJournal_load ::
  "aead \<Rightarrow> bool \<Rightarrow> (string \<Rightarrow> bool) \<Rightarrow> EncryptedJournal \<Rightarrow> 32 arr \<Rightarrow> directory \<Rightarrow>
     StorageError + u64 \<times> u8 list" where
  "EncryptedJournal_load aead_dec read_dir_ok unreadable j key dir =
     and_then (generations read_dir_ok j dir) (\<lambda>gens.
     load_loop aead_dec unreadable j key dir (rev gens))"

section \<open>File names\<close>

lemma parse_final_path [simp]: "parse_generation j (final_path j g) = Some g"
  by (simp add: parse_generation_def final_path_def strip_prefix_def strip_suffix_def suffix_def)

lemma final_path_inject [simp]: "final_path j g = final_path j g' \<longleftrightarrow> g = g'"
  by (auto simp: final_path_def word_unat_eq_iff)

lemma parse_temp_path [simp]: "parse_generation j (temp_path j' g) = None"
proof (rule ccontr)
  assume "parse_generation j (temp_path j' g) \<noteq> None"
  then obtain rest where "strip_prefix (ej_prefix j @ ''-'') (temp_path j' g) = Some rest"
    "strip_suffix ''.bin'' rest \<noteq> None"
    by (auto simp: parse_generation_def bind_eq_None_conv)
  then have "suffix ''.bin'' (temp_path j' g)"
    by (auto simp: strip_prefix_def strip_suffix_def suffix_def split: if_splits)
      (metis append_assoc append_take_drop_id)
  then have "drop (length (temp_path j' g) - 4) (temp_path j' g) = ''.bin''"
    by (auto simp: suffix_def)
  then show False
    by (simp add: temp_path_def)
qed

lemma last_dash:
  assumes "p @ ''-'' @ xs = q @ ''-'' @ ys" and "CHR ''-'' \<notin> set xs" and "CHR ''-'' \<notin> set ys"
  shows "p = q \<and> xs = ys"
proof -
  have split: "takeWhile (\<lambda>c. c \<noteq> CHR ''-'') (rev (p @ ''-'' @ xs)) = rev xs"
    if "CHR ''-'' \<notin> set xs" for p xs
    using that by (simp, subst takeWhile_append2) auto
  from assms have "rev xs = rev ys"
    using split [OF assms(2), of p] split [OF assms(3), of q] by metis
  with assms(1) show ?thesis by simp
qed

lemma parse_other_final_path:
  assumes "ej_prefix j \<noteq> ej_prefix j'"
  shows "parse_generation j (final_path j' g) = None"
proof (rule ccontr)
  assume "parse_generation j (final_path j' g) \<noteq> None"
  then obtain rest stem g' where *: "strip_prefix (ej_prefix j @ ''-'') (final_path j' g) = Some rest"
    "strip_suffix ''.bin'' rest = Some stem" "parse_u64 stem = Some g'"
    by (auto simp: parse_generation_def bind_eq_Some_conv)
  have "final_path j' g = (ej_prefix j @ ''-'') @ rest" "rest = stem @ ''.bin''"
    using *(1,2) by (auto simp: strip_prefix_def strip_suffix_def suffix_def prefix_def split: if_splits)
  then have "ej_prefix j' @ ''-'' @ (decimal (unat g) @ ''.bin'') = ej_prefix j @ ''-'' @ (stem @ ''.bin'')"
    by (simp add: final_path_def)
  then have "ej_prefix j' = ej_prefix j"
    using last_dash parse_u64_no_dash [OF *(3)] by (metis (no_types, lifting) append_assoc
        dash_not_decimal same_append_eq append_same_eq)
  with assms show False by simp
qed

lemma temp_not_final [simp]: "temp_path j g \<noteq> final_path j' g'" "final_path j' g' \<noteq> temp_path j g"
  by (metis parse_final_path parse_temp_path option.distinct(1))+

section \<open>What a directory holds\<close>

lemma set_map_filter: "y \<in> set (List.map_filter f xs) \<longleftrightarrow> (\<exists>x \<in> set xs. f x = Some y)"
  by (induction xs) (auto simp: List.map_filter_simps split: option.splits)

lemma generations_Ok:
  "generations True j dir = Ok gens \<Longrightarrow>
     sorted gens \<and> set gens = {g. \<exists>name \<in> dom (bt_get dir). parse_generation j name = Some g}"
  by (auto simp: generations_def set_map_filter dom_bt_get) (metis fst_conv)

text \<open>The state that file \<open>g\<close> of the journal holds, if its record authenticates.\<close>

definition journal_at ::
  "aead \<Rightarrow> (string \<Rightarrow> bool) \<Rightarrow> EncryptedJournal \<Rightarrow> 32 arr \<Rightarrow> directory \<Rightarrow> u64 \<Rightarrow> u8 list option" where
  "journal_at aead_dec unreadable j key dir g =
     (if unreadable (final_path j g) then None
      else Option.bind (bt_get dir (final_path j g)) (\<lambda>bs.
        case open_record aead_dec key bs of
          Err e \<Rightarrow> None
        | Ok plaintext \<Rightarrow>
            (case decode_journal plaintext g of Err e \<Rightarrow> None | Ok state \<Rightarrow> Some state)))"

lemma load_loop_Cons:
  "load_loop aead_dec unreadable j key dir (g # gens) =
     (case journal_at aead_dec unreadable j key dir g of
        Some state \<Rightarrow> Ok (g, state)
      | None \<Rightarrow> load_loop aead_dec unreadable j key dir gens)"
  by (simp add: journal_at_def Let_def split: option.splits sum.splits)

lemma load_loop_spec:
  "sorted (rev gens) \<Longrightarrow>
   (case load_loop aead_dec unreadable j key dir gens of
      Ok (g, state) \<Rightarrow> journal_at aead_dec unreadable j key dir g = Some state \<and>
        (\<forall>g' \<in> set gens. journal_at aead_dec unreadable j key dir g' \<noteq> None \<longrightarrow> g' \<le> g)
    | Err e \<Rightarrow> e = NoValidRecord \<and>
        (\<forall>g' \<in> set gens. journal_at aead_dec unreadable j key dir g' = None))"
proof (induction gens)
  case Nil
  then show ?case by simp
next
  case (Cons g gens)
  then have "sorted (rev gens)" "\<forall>g' \<in> set gens. g' \<le> g"
    by (simp_all add: sorted_append)
  with Cons.IH show ?case
    by (auto simp: load_loop_Cons simp del: load_loop.simps(2) split: option.splits sum.splits)
qed

lemma journal_at_listed:
  "generations True j dir = Ok gens \<Longrightarrow> journal_at aead_dec unreadable j key dir g \<noteq> None \<Longrightarrow>
     g \<in> set gens"
  by (auto simp: generations_Ok journal_at_def bind_eq_Some_conv split: if_splits
      intro!: bexI [of _ "final_path j g"])

lemma generations_total: "\<exists>gens. generations True j dir = Ok gens"
  by (simp add: generations_def)

lemma load_unlisted: "EncryptedJournal_load aead_dec False unreadable j key dir = Err Io"
  by (simp add: EncryptedJournal_load_def generations_def)

lemma load_cases:
  obtains (loaded) g state where
      "EncryptedJournal_load aead_dec True unreadable j key dir = Ok (g, state)"
      "journal_at aead_dec unreadable j key dir g = Some state"
      "\<And>g'. journal_at aead_dec unreadable j key dir g' \<noteq> None \<Longrightarrow> g' \<le> g"
  | (nothing) "EncryptedJournal_load aead_dec True unreadable j key dir = Err NoValidRecord"
      "\<And>g'. journal_at aead_dec unreadable j key dir g' = None"
proof -
  obtain gens where g: "generations True j dir = Ok gens"
    using generations_total by blast
  then have sorted: "sorted (rev (rev gens))"
    using generations_Ok by simp
  have load: "EncryptedJournal_load aead_dec True unreadable j key dir =
      load_loop aead_dec unreadable j key dir (rev gens)"
    by (simp add: EncryptedJournal_load_def g)
  note listed = journal_at_listed [OF g, of aead_dec unreadable key]
  show thesis
  proof (cases "load_loop aead_dec unreadable j key dir (rev gens)")
    case (Inl e)
    then have "e = NoValidRecord" "\<forall>g' \<in> set gens. journal_at aead_dec unreadable j key dir g' = None"
      using load_loop_spec [OF sorted, of aead_dec unreadable j key dir] by simp_all
    then have "journal_at aead_dec unreadable j key dir g' = None" for g'
      using listed [of g'] by blast
    with load Inl \<open>e = NoValidRecord\<close> show thesis
      by - (rule nothing, simp_all)
  next
    case (Inr v)
    then obtain h state where "v = (h, state)"
      by (cases v)
    with Inr have "journal_at aead_dec unreadable j key dir h = Some state"
      "\<forall>g' \<in> set gens. journal_at aead_dec unreadable j key dir g' \<noteq> None \<longrightarrow> g' \<le> h"
      using load_loop_spec [OF sorted, of aead_dec unreadable j key dir] by simp_all
    moreover from this(2) have "g' \<le> h" if "journal_at aead_dec unreadable j key dir g' \<noteq> None" for g'
      using listed that by blast
    ultimately show thesis
      using load Inr \<open>v = (h, state)\<close> by - (rule loaded [of h state], simp_all)
  qed
qed

lemma load_newest:
  assumes "journal_at aead_dec unreadable j key dir g = Some state"
    and "\<And>g'. journal_at aead_dec unreadable j key dir g' \<noteq> None \<Longrightarrow> g' \<le> g"
  shows "EncryptedJournal_load aead_dec True unreadable j key dir = Ok (g, state)"
proof (cases rule: load_cases [of aead_dec unreadable j key dir])
  case (loaded h state')
  then have "g = h"
    using assms by (metis antisym option.distinct(1))
  with loaded assms(1) show ?thesis by simp
next
  case nothing
  with assms(1) show ?thesis by simp
qed

lemma load_eq:
  assumes "journal_at aead_dec unreadable j key dir = journal_at aead_dec unreadable j key dir'"
  shows "EncryptedJournal_load aead_dec True unreadable j key dir =
    EncryptedJournal_load aead_dec True unreadable j key dir'"
proof (cases rule: load_cases [of aead_dec unreadable j key dir])
  case (loaded g state)
  then show ?thesis
    using load_newest [of aead_dec unreadable j key dir' g state] assms by simp
next
  case nothing
  then show ?thesis
    using assms by (cases rule: load_cases [of aead_dec unreadable j key dir']) simp_all
qed

section \<open>What a save does\<close>

text \<open>The tag of the cipher: a sealed body is at least 16 bytes longer than nothing.\<close>

definition aead_tagged :: "aead \<Rightarrow> bool" where
  "aead_tagged aead_enc \<longleftrightarrow>
     (\<forall>key nonce msg aad ct. aead_enc key nonce msg aad = Some ct \<longrightarrow> 16 \<le> length ct)"

lemma open_seal_record:
  assumes "aead_inverts aead_enc aead_dec" and "aead_tagged aead_enc"
    and "seal_record aead_enc nonce key plaintext = Ok bs"
  shows "open_record aead_dec key bs = Ok plaintext"
proof -
  obtain ct where ct: "aead_enc key nonce plaintext [] = Some ct"
    and bs: "bs = u16_to_be STORAGE_FORMAT_VERSION @ bytes nonce @ ct"
    using assms(3) by (auto simp: seal_record_def seal_def result_simps)
  have "[bs ! 0, bs ! 1] = u16_to_be STORAGE_FORMAT_VERSION"
    by (rule nth_equalityI) (auto simp: bs nth_append less_Suc_eq)
  moreover have "16 \<le> length ct"
    using assms(2) ct by (auto simp: aead_tagged_def)
  ultimately show ?thesis
    using assms(1) ct
    by (simp add: open_record_def bs crypto_open_def aead_inverts_def slice_def Let_def
        RECORD_HEADER_LEN_def NONCE_LEN_def AEAD_TAG_LEN_def)
qed

lemma decode_encode_journal: "decode_journal (encode_journal g plaintext) g = Ok plaintext"
  by (simp add: decode_journal_def encode_journal_def JOURNAL_HEADER_LEN_def JOURNAL_MAGIC_def slice_def)

lemma journal_at_temp [simp]:
  "journal_at aead_dec unreadable j key (bt_insert (temp_path j' g) bs dir) =
     journal_at aead_dec unreadable j key dir"
  by (simp add: journal_at_def fun_eq_iff)

lemma journal_at_final:
  "journal_at aead_dec unreadable j key (bt_insert (final_path j g) bs (bt_remove (temp_path j g) dir)) =
     (journal_at aead_dec unreadable j key dir)
       (g := (if unreadable (final_path j g) then None
              else case open_record aead_dec key bs of
                Err e \<Rightarrow> None
              | Ok plaintext \<Rightarrow>
                  (case decode_journal plaintext g of Err e \<Rightarrow> None | Ok state \<Rightarrow> Some state)))"
  by (auto simp: journal_at_def fun_eq_iff)

text \<open>
  The generation a save takes is one that no file of the journal has, and above all of them.
\<close>

lemma save_generation:
  assumes "generations (io_list io) j dir = Ok gens"
    and "(if gens = [] then Ok 0
          else ok_or (u64_checked_add (Max (set gens)) 1) StorageGenerationOverflow) = Ok g"
    and "g' \<in> set gens"
  shows "g' < g"
proof -
  have "gens \<noteq> []" and g: "g = Max (set gens) + 1" "Max (set gens) \<noteq> u64_MAX"
    using assms(2,3) by (auto simp: u64_checked_add_1 split: if_splits)
  then have "unat g = Suc (unat (Max (set gens)))"
    by (simp add: u64_plus_1_unat)
  moreover have "g' \<le> Max (set gens)"
    using assms(3) by simp
  ultimately show ?thesis
    by (simp add: word_less_nat_alt word_le_nat_alt)
qed

lemma journal_at_None: "bt_get dir (final_path j g) = None \<Longrightarrow> journal_at aead_dec unreadable j key dir g = None"
  by (simp add: journal_at_def)

lemma save_effect:
  assumes "aead_inverts aead_enc aead_dec" and "aead_tagged aead_enc"
  shows "case EncryptedJournal_save aead_enc nonce io j key plaintext dir of
      (Err e, dir') \<Rightarrow>
        journal_at aead_dec unreadable j key dir' = journal_at aead_dec unreadable j key dir \<and>
        (\<forall>g. bt_get dir' (final_path j g) = bt_get dir (final_path j g))
    | (Ok g, dir') \<Rightarrow>
        journal_at aead_dec unreadable j key dir' =
          (journal_at aead_dec unreadable j key dir)
            (g := if unreadable (final_path j g) then None else Some plaintext) \<and>
        (\<forall>g'. bt_get dir (final_path j g') \<noteq> None \<longrightarrow> g' < g) \<and>
        (\<forall>g'. bt_get dir' (final_path j g') \<noteq> None \<longleftrightarrow> bt_get dir (final_path j g') \<noteq> None \<or> g' = g)"
proof (cases "EncryptedJournal_save aead_enc nonce io j key plaintext dir")
  case (Pair result dir')
  show ?thesis
  proof (cases result)
    case (Inl e)
    with Pair show ?thesis
      by (auto simp: EncryptedJournal_save_def Let_def split: sum.splits if_splits option.splits)
  next
    case (Inr g)
    with Pair obtain gens encrypted where
      gens: "generations (io_list io) j dir = Ok gens"
      and g: "(if gens = [] then Ok 0
          else ok_or (u64_checked_add (Max (set gens)) 1) StorageGenerationOverflow) = Ok g"
      and enc: "seal_record aead_enc nonce key (encode_journal g plaintext) = Ok encrypted"
      and dir': "dir' = bt_insert (final_path j g) encrypted (bt_remove (temp_path j g)
          (bt_insert (temp_path j g) encrypted dir))"
      by (auto simp: EncryptedJournal_save_def Let_def split: sum.splits if_splits option.splits)
    from gens have "generations True j dir = Ok gens"
      by (auto simp: generations_def split: if_splits)
    then have set: "set gens = {g. \<exists>name \<in> dom (bt_get dir). parse_generation j name = Some g}"
      using generations_Ok by blast
    have "g' < g" if "bt_get dir (final_path j g') \<noteq> None" for g'
    proof (rule save_generation [OF gens g])
      show "g' \<in> set gens"
        unfolding set using that by (auto intro!: bexI [of _ "final_path j g'"])
    qed
    then show ?thesis
      by (auto simp: Pair Inr dir' journal_at_final open_seal_record [OF assms enc] decode_encode_journal)
  qed
qed

section \<open>Runs of saves\<close>

text \<open>
  A request to save: the nonce drawn, what happens during the save, the state to save. The process
  may end before the save has returned; nobody learns its result then.
\<close>

type_synonym save_request = "12 arr \<times> save_io \<times> u8 list"

datatype save_failure = Failed StorageError | Interrupted

definition save_step ::
  "aead \<Rightarrow> EncryptedJournal \<Rightarrow> 32 arr \<Rightarrow> save_request \<Rightarrow> directory \<Rightarrow>
     (save_failure + u64) \<times> directory" where
  "save_step aead_enc j key q dir =
     (case q of (nonce, io, plaintext) \<Rightarrow>
      case EncryptedJournal_save aead_enc nonce io j key plaintext dir of (result, dir') \<Rightarrow>
        (if io_returns io then map_err Failed result else Err Interrupted, dir'))"

text \<open>The saves that reported success, and those that renamed their record, reported or not.\<close>

fun committed :: "save_request \<Rightarrow> save_failure + u64 \<Rightarrow> (u64 \<times> u8 list) option" where
  "committed (nonce, io, plaintext) (Ok g) = Some (g, plaintext)"
| "committed q (Err e) = None"

fun renamed_saves ::
  "aead \<Rightarrow> EncryptedJournal \<Rightarrow> 32 arr \<Rightarrow> save_request list \<Rightarrow> directory \<Rightarrow> (u64 \<times> u8 list) list" where
  "renamed_saves aead_enc j key [] dir = []"
| "renamed_saves aead_enc j key ((nonce, io, plaintext) # qs) dir =
     (case EncryptedJournal_save aead_enc nonce io j key plaintext dir of (result, dir') \<Rightarrow>
        (case result of Ok g \<Rightarrow> [(g, plaintext)] | Err e \<Rightarrow> []) @ renamed_saves aead_enc j key qs dir')"

lemma save_step_dir [simp]:
  "snd (save_step aead_enc j key (nonce, io, plaintext) dir) =
     snd (EncryptedJournal_save aead_enc nonce io j key plaintext dir)"
  by (simp add: save_step_def case_prod_beta)

text \<open>Every reported save was renamed; a renamed one was reported unless it was interrupted.\<close>

lemma reported_renamed:
  "subseq (granted committed qs (fst (run (save_step aead_enc j key) qs dir))) (renamed_saves aead_enc j key qs dir)"
proof (induction qs arbitrary: dir)
  case (Cons q qs)
  obtain nonce io plaintext where q: "q = (nonce, io, plaintext)"
    by (cases q)
  obtain result dir' where save: "EncryptedJournal_save aead_enc nonce io j key plaintext dir = (result, dir')"
    by fastforce
  show ?case
    using Cons.IH [of dir']
    by (cases result; cases "io_returns io") (auto simp: q save_step_def save)
qed simp

lemma renamed_reported:
  "list_all (\<lambda>(nonce, io, plaintext). io_returns io) qs \<Longrightarrow>
   renamed_saves aead_enc j key qs dir = granted committed qs (fst (run (save_step aead_enc j key) qs dir))"
proof (induction qs arbitrary: dir)
  case (Cons q qs)
  obtain nonce io plaintext where q: "q = (nonce, io, plaintext)"
    by (cases q)
  obtain result dir' where save: "EncryptedJournal_save aead_enc nonce io j key plaintext dir = (result, dir')"
    by fastforce
  show ?case
    using Cons.IH [of dir'] Cons.prems
    by (cases result) (auto simp: q save_step_def save)
qed simp

text \<open>The generations of the renamed saves go up, from above all files of the journal.\<close>

lemma renamed_above:
  assumes "aead_inverts aead_enc aead_dec" and "aead_tagged aead_enc"
  shows "sorted_wrt (<) (map fst (renamed_saves aead_enc j key qs dir)) \<and>
    (\<forall>(g, plaintext) \<in> set (renamed_saves aead_enc j key qs dir).
       \<forall>g'. bt_get dir (final_path j g') \<noteq> None \<longrightarrow> g' < g)"
proof (induction qs arbitrary: dir)
  case (Cons q qs)
  obtain nonce io plaintext where q: "q = (nonce, io, plaintext)"
    by (cases q)
  obtain result dir' where save: "EncryptedJournal_save aead_enc nonce io j key plaintext dir = (result, dir')"
    by fastforce
  note effect = save_effect [OF assms, where nonce = nonce and io = io and j = j and key = key
      and plaintext = plaintext and dir = dir]
  show ?case
    using Cons.IH [of dir'] effect by (cases result) (auto simp: q save)
qed simp

lemma committed_run:
  assumes "aead_inverts aead_enc aead_dec" and "aead_tagged aead_enc"
  shows "EncryptedJournal_load aead_dec True unreadable j key (snd (run (save_step aead_enc j key) qs dir)) =
    (case filter (\<lambda>(g, plaintext). \<not> unreadable (final_path j g)) (renamed_saves aead_enc j key qs dir) of
       [] \<Rightarrow> EncryptedJournal_load aead_dec True unreadable j key dir
     | saves \<Rightarrow> Ok (last saves))"
proof (induction qs arbitrary: dir)
  case Nil
  then show ?case by simp
next
  case (Cons q qs)
  obtain nonce io plaintext where q: "q = (nonce, io, plaintext)"
    by (cases q)
  obtain result dir' where save: "EncryptedJournal_save aead_enc nonce io j key plaintext dir = (result, dir')"
    by fastforce
  let ?load = "EncryptedJournal_load aead_dec True unreadable j key"
  note effect = save_effect [OF assms, where nonce = nonce and io = io and j = j and key = key
      and plaintext = plaintext and dir = dir and unreadable = unreadable]
  have same: "?load dir' = ?load dir" if "journal_at aead_dec unreadable j key dir' = journal_at aead_dec unreadable j key dir"
    using that by (rule load_eq)
  show ?case
  proof (cases result)
    case (Inl e)
    then show ?thesis
      using effect same Cons.IH [of dir'] by (simp add: q save split: list.splits)
  next
    case (Inr g)
    then have at: "journal_at aead_dec unreadable j key dir' =
        (journal_at aead_dec unreadable j key dir)(g := if unreadable (final_path j g) then None else Some plaintext)"
      and above: "\<forall>g'. bt_get dir (final_path j g') \<noteq> None \<longrightarrow> g' < g"
      using effect by (simp_all add: save)
    show ?thesis
    proof (cases "unreadable (final_path j g)")
      case True
      then have "journal_at aead_dec unreadable j key dir' = journal_at aead_dec unreadable j key dir"
        unfolding at by (simp add: fun_eq_iff journal_at_def)
      then show ?thesis
        using True same Inr Cons.IH [of dir'] by (simp add: q save split: list.splits)
    next
      case False
      have below: "g' < g" if "journal_at aead_dec unreadable j key dir g' \<noteq> None" for g'
        using above that by (cases "bt_get dir (final_path j g')") (simp_all add: journal_at_None)
      have "?load dir' = Ok (g, plaintext)"
        by (rule load_newest) (use below False in \<open>auto simp: at order_less_imp_le split: if_splits\<close>)
      then show ?thesis
        using False Inr Cons.IH [of dir'] by (simp add: q save split: list.splits)
    qed
  qed
qed

section \<open>Properties\<close>

text \<open>
  C13. Crash safety of the journal: after any sequence of saves from any directory - each of them
  possibly failing at any file operation, with arbitrary bytes left in the temporary file, or
  interrupted at any moment, also after its rename - loading returns the newest record that was
  renamed and can be read, and what loading would have returned before if there is none; it fails
  with \<open>Io\<close> only when the directory can not be listed. Every save that reported success is among
  the renamed ones; the others among them were interrupted before they could report; and their
  generations go up. So a load without read faults returns the last state whose save reported
  success, or one that a later, interrupted save had already renamed.
\<close>

theorem journal_recovers_last_commit:
  assumes "aead_inverts aead_enc aead_dec" and "aead_tagged aead_enc"
  shows "let renamed = renamed_saves aead_enc j key qs dir;
             reported = granted committed qs (fst (run (save_step aead_enc j key) qs dir))
    in EncryptedJournal_load aead_dec read_dir_ok unreadable j key (snd (run (save_step aead_enc j key) qs dir)) =
         (if \<not> read_dir_ok then Err Io
          else case filter (\<lambda>(g, plaintext). \<not> unreadable (final_path j g)) renamed of
            [] \<Rightarrow> EncryptedJournal_load aead_dec True unreadable j key dir
          | saves \<Rightarrow> Ok (last saves)) \<and>
       subseq reported renamed \<and> sorted_wrt (<) (map fst renamed) \<and>
       (if list_all (\<lambda>(nonce, io, plaintext). io_returns io) qs then reported = renamed else True)"
  using load_unlisted committed_run [OF assms, of unreadable j key qs dir] reported_renamed [of qs aead_enc j key dir]
    renamed_above [OF assms, of j key qs dir] renamed_reported [of qs aead_enc j key dir]
  by (simp add: Let_def)

text \<open>
  Loading returns the newest record that authenticates: corrupt, missing and unreadable files
  above it are passed over, whatever else lies in the directory, and only when no file of the
  journal holds a valid record the answer is \<open>NoValidRecord\<close>.
\<close>

theorem load_returns_newest_valid:
  "case EncryptedJournal_load aead_dec True unreadable j key dir of
     Ok (g, state) \<Rightarrow> journal_at aead_dec unreadable j key dir g = Some state \<and>
       dom (journal_at aead_dec unreadable j key dir) \<subseteq> {..g}
   | Err e \<Rightarrow> e = NoValidRecord \<and> dom (journal_at aead_dec unreadable j key dir) = {}"
  by (cases rule: load_cases [of aead_dec unreadable j key dir]) auto

text \<open>
  Journals that share a directory do not interfere: saves of one journal, interrupted or not,
  never change what another journal with a different prefix loads - even when one prefix is the
  beginning of the other.
\<close>

theorem journals_do_not_interfere:
  assumes "ej_prefix j \<noteq> ej_prefix j'"
  shows "EncryptedJournal_load aead_dec True unreadable j' key'
      (snd (run (save_step aead_enc j key) qs dir)) =
    EncryptedJournal_load aead_dec True unreadable j' key' dir"
proof -
  have other: "final_path j' g \<noteq> final_path j g'" for g g'
    using parse_other_final_path [of j' j g'] assms by (metis option.distinct(1) parse_final_path)
  have step: "journal_at aead_dec unreadable j' key' (snd (save_step aead_enc j key q dir)) =
      journal_at aead_dec unreadable j' key' dir" for q dir
    by (cases q) (auto simp: save_step_def EncryptedJournal_save_def Let_def journal_at_def other
        fun_eq_iff split: sum.splits option.splits if_splits)
  have "journal_at aead_dec unreadable j' key' (snd (run (save_step aead_enc j key) qs dir)) =
      journal_at aead_dec unreadable j' key' dir"
    by (induction qs arbitrary: dir) (simp_all add: step)
  then show ?thesis
    by (rule load_eq)
qed

lemma save_blocked:
  assumes "generations True j dir = Ok gens"
    and "(if gens = [] then Ok 0
          else ok_or (u64_checked_add (Max (set gens)) 1) StorageGenerationOverflow) = Ok g"
    and "bt_contains dir (temp_path j g)"
  shows "snd (save_step aead_enc j key q dir) = dir \<and> \<not> is_ok (fst (save_step aead_enc j key q dir))"
proof -
  obtain nonce io plaintext where q: "q = (nonce, io, plaintext)"
    by (cases q)
  show ?thesis
  proof (cases "io_list io")
    case False
    then show ?thesis
      by (simp add: q save_step_def EncryptedJournal_save_def generations_def)
  next
    case True
    then show ?thesis
      using assms by (simp add: q save_step_def EncryptedJournal_save_def split: sum.split)
  qed
qed

text \<open>
  C36. An interrupted save blocks the journal: when a save fails after it created its temporary
  file, every later save of this journal fails as well and changes nothing, however the file
  system behaves, because the next generation and with it the temporary name stay the same and
  \<open>create_new\<close> refuses the file left behind.
\<close>

theorem interrupted_save_blocks_journal:
  assumes "EncryptedJournal_save aead_enc nonce io j key plaintext dir = (Err e, dir')"
    and "dir' \<noteq> dir"
  shows "snd (run (save_step aead_enc j key) qs dir') = dir' \<and>
    list_all (\<lambda>r. \<not> is_ok r) (fst (run (save_step aead_enc j key) qs dir'))"
proof -
  obtain gens g encrypted bs where gens: "generations (io_list io) j dir = Ok gens"
    and g: "(if gens = [] then Ok 0
          else ok_or (u64_checked_add (Max (set gens)) 1) StorageGenerationOverflow) = Ok g"
    and dir': "dir' = bt_insert (temp_path j g) bs dir"
    using assms by (auto simp: EncryptedJournal_save_def Let_def split: sum.splits if_splits option.splits)
  from gens have gens_True: "generations True j dir = Ok gens"
    by (auto simp: generations_def split: if_splits)
  obtain gens' where gens': "generations True j dir' = Ok gens'"
    using generations_total by blast
  have "set gens' = set gens"
    using generations_Ok [OF gens_True] generations_Ok [OF gens']
    by (auto simp: dir' dom_bt_insert simp del: bt_get_insert)
  then have g': "(if gens' = [] then Ok 0
          else ok_or (u64_checked_add (Max (set gens')) 1) StorageGenerationOverflow) = Ok g"
    using g by (cases gens; cases gens') auto
  have "snd (save_step aead_enc j key q dir') = dir' \<and> \<not> is_ok (fst (save_step aead_enc j key q dir'))" for q
    by (rule save_blocked [OF gens' g']) (simp add: dir' bt_contains_def)
  then show ?thesis
    by (induction qs) simp_all
qed

text \<open>Samples: a cipher with a constant tag, a journal, and file systems that work or fail.\<close>

definition tagged_enc :: aead where
  "tagged_enc key nonce msg aad = Some (replicate 16 0 @ msg)"

definition tagged_dec :: aead where
  "tagged_dec key nonce ct aad = Some (drop 16 ct)"

lemma tagged_laws [simp]: "aead_inverts tagged_enc tagged_dec" "aead_tagged tagged_enc"
  by (simp_all add: aead_inverts_def aead_tagged_def tagged_enc_def tagged_dec_def)

definition io_works :: save_io where
  "io_works = \<lparr>io_list = True, io_create = True, io_torn = None, io_rename = True, io_returns = True\<rparr>"

definition io_crash :: save_io where
  "io_crash = io_works\<lparr>io_torn := Some [0]\<rparr>"

lemma generations_empty [simp]: "generations True j bt_empty = Ok []"
  by (simp add: generations_def bt_empty.rep_eq List.map_filter_simps)

lemma sample_saves:
  "EncryptedJournal_save tagged_enc nonce io_crash j key plaintext bt_empty =
     (Err Io, bt_insert (temp_path j 0) [0] bt_empty)"
  "fst (EncryptedJournal_save tagged_enc nonce io_works j key plaintext bt_empty) = Ok 0"
  by (simp_all add: EncryptedJournal_save_def seal_record_def seal_def tagged_enc_def io_crash_def
      io_works_def bt_contains_def Let_def)

text \<open>Two saves: one that reports its success, and one interrupted after its rename.\<close>

definition io_cut :: save_io where
  "io_cut = io_works\<lparr>io_returns := False\<rparr>"

lemma sample_renamed:
  "io \<in> {io_works, io_cut} \<Longrightarrow> renamed_saves tagged_enc j key [(nonce, io, plaintext)] bt_empty = [(0, plaintext)]"
  by (auto simp: EncryptedJournal_save_def seal_record_def seal_def tagged_enc_def io_cut_def
      io_works_def bt_contains_def Let_def)

lemma sample_reported:
  "fst (run (save_step tagged_enc j key) [(nonce, io_cut, plaintext)] bt_empty) = [Err Interrupted]"
  by (simp add: save_step_def io_cut_def case_prod_beta)

theorem journal_recovers_last_commit_witness:
  "EncryptedJournal_load tagged_dec True (\<lambda>_. False) \<lparr>ej_prefix = ''session''\<rparr> (fill 3)
     (snd (run (save_step tagged_enc \<lparr>ej_prefix = ''session''\<rparr> (fill 3)) [(fill 1, io_works, [42])] bt_empty)) =
     Ok (0, [42]) \<and>
   fst (run (save_step tagged_enc \<lparr>ej_prefix = ''session''\<rparr> (fill 3)) [(fill 1, io_works, [42])] bt_empty) = [Ok 0] \<and>
   EncryptedJournal_load tagged_dec True (\<lambda>_. False) \<lparr>ej_prefix = ''session''\<rparr> (fill 3)
     (snd (run (save_step tagged_enc \<lparr>ej_prefix = ''session''\<rparr> (fill 3)) [(fill 1, io_cut, [42])] bt_empty)) =
     Ok (0, [42]) \<and>
   fst (run (save_step tagged_enc \<lparr>ej_prefix = ''session''\<rparr> (fill 3)) [(fill 1, io_cut, [42])] bt_empty) = [Err Interrupted]"
proof -
  let ?j = "\<lparr>ej_prefix = ''session''\<rparr>"
  have "EncryptedJournal_load tagged_dec True (\<lambda>_. False) ?j (fill 3)
      (snd (run (save_step tagged_enc ?j (fill 3)) [(fill 1, io, [42])] bt_empty)) = Ok (0, [42])"
    if "io \<in> {io_works, io_cut}" for io
    using journal_recovers_last_commit [OF tagged_laws, of ?j "fill 3" "[(fill 1, io, [42])]" bt_empty True "\<lambda>_. False"]
    unfolding sample_renamed [OF that] by (simp add: Let_def del: run.simps)
  moreover have "fst (run (save_step tagged_enc ?j (fill 3)) [(fill 1, io_works, [42])] bt_empty) = [Ok 0]"
    using sample_saves(2) [of "fill 1" ?j "fill 3" "[42]"] by (simp add: save_step_def case_prod_beta io_works_def)
  ultimately show ?thesis
    using sample_reported [of ?j "fill 3" "fill 1" "[42]"] by (simp del: run.simps)
qed

theorem journals_do_not_interfere_witness:
  "EncryptedJournal_load tagged_dec True (\<lambda>_. False) \<lparr>ej_prefix = ''a''\<rparr> (fill 4)
     (snd (run (save_step tagged_enc \<lparr>ej_prefix = ''a-1''\<rparr> (fill 3))
             [(fill 1, io_works, [42]), (fill 2, io_crash, [43])] bt_empty)) =
   EncryptedJournal_load tagged_dec True (\<lambda>_. False) \<lparr>ej_prefix = ''a''\<rparr> (fill 4) bt_empty"
  by (rule journals_do_not_interfere) simp

theorem interrupted_save_blocks_journal_witness:
  "list_all (\<lambda>r. \<not> is_ok r)
     (fst (run (save_step tagged_enc \<lparr>ej_prefix = ''session''\<rparr> (fill 3))
        [(fill 1, io_works, [42]), (fill 2, io_works, [43])]
        (bt_insert (temp_path \<lparr>ej_prefix = ''session''\<rparr> 0) [0] bt_empty)))"
proof -
  have "bt_insert (temp_path \<lparr>ej_prefix = ''session''\<rparr> 0) [0] bt_empty \<noteq> bt_empty"
    by (metis bt_get_empty bt_get_insert option.distinct(1))
  from interrupted_save_blocks_journal [OF sample_saves(1) this] show ?thesis
    by blast
qed

end
