(* ===== verification/Restart.thy ===== *)
theory Restart
  imports Snapshot Storage
begin

text \<open>
  A device that restarts: its receiving ratchet is written to the encrypted journal as a snapshot, read
  back and restored, as the tests of \<open>core/storage/src/lib.rs\<close> do it. Everything that can happen to the
  save and to the load is an argument. Shown: restarts are invisible, whatever the network delivers
  between them, as long as no record is unreadable; and an unreadable newest record, which the
  journal passes over, takes the ratchet back to a state that accepts a packet again.
\<close>

section \<open>Restarts\<close>

datatype restart_error =
  NoSnapshot ReceiveSnapshotError | NotSaved save_failure | NotLoaded StorageError
| NotRestored ReceiveSnapshotError

text \<open>
  Snapshot, save, load, restore; the receiver that comes back is the only one that goes on. The load
  may fail to list the directory, and any of the files may be unreadable.
\<close>

definition restart ::
  "aead \<Rightarrow> aead \<Rightarrow> EncryptedJournal \<Rightarrow> 32 arr \<Rightarrow> 12 arr \<Rightarrow> save_io \<Rightarrow> bool \<Rightarrow> (string \<Rightarrow> bool) \<Rightarrow>
     ReceiveRatchet \<times> directory \<Rightarrow> restart_error + ReceiveRatchet \<times> directory" where
  "restart aead_enc aead_dec j key nonce io read_dir_ok unreadable device =
     (case device of (receiver, dir) \<Rightarrow>
        and_then (map_err NoSnapshot (ReceiveRatchet_snapshot receiver)) (\<lambda>snapshot.
        case save_step aead_enc j key (nonce, io, snapshot) dir of (saved, dir') \<Rightarrow>
        and_then (map_err NotSaved saved) (\<lambda>generation.
        and_then (map_err NotLoaded (EncryptedJournal_load aead_dec read_dir_ok unreadable j key dir'))
          (\<lambda>(generation', restored_snapshot).
        and_then (map_err NotRestored (ReceiveRatchet_from_snapshot restored_snapshot)) (\<lambda>restored.
        Ok (restored, dir'))))))"

text \<open>The life of a device: deliveries and a restart, again and again, until a restart fails.\<close>

type_synonym epoch = "delivery list \<times> 12 arr \<times> save_io \<times> bool \<times> (string \<Rightarrow> bool)"

fun lifetime ::
  "hkdf32 \<Rightarrow> aead \<Rightarrow> aead \<Rightarrow> aead \<Rightarrow> EncryptedJournal \<Rightarrow> 32 arr \<Rightarrow> epoch list \<Rightarrow>
     ReceiveRatchet \<times> directory \<Rightarrow> (ReceiveError + u8 list) list \<times> (restart_error + ReceiveRatchet \<times> directory)" where
  "lifetime hkdf aead_open aead_enc aead_dec j key [] device = ([], Ok device)"
| "lifetime hkdf aead_open aead_enc aead_dec j key ((ds, nonce, io, read_dir_ok, unreadable) # epochs)
       (receiver, dir) =
     (case run (receive_step hkdf aead_open) ds receiver of (outs, receiver') \<Rightarrow>
        case restart aead_enc aead_dec j key nonce io read_dir_ok unreadable (receiver', dir) of
          Err e \<Rightarrow> (outs, Err e)
        | Ok device \<Rightarrow> (case lifetime hkdf aead_open aead_enc aead_dec j key epochs device of
              (outs', result) \<Rightarrow> (outs @ outs', result)))"

text \<open>A restart whose directory can not be listed, and one at which all records of the journal are readable.\<close>

definition unlisted :: "epoch \<Rightarrow> bool" where
  "unlisted epoch \<longleftrightarrow> (case epoch of (ds, nonce, io, read_dir_ok, unreadable) \<Rightarrow> \<not> read_dir_ok)"

definition readable_records :: "EncryptedJournal \<Rightarrow> epoch \<Rightarrow> bool" where
  "readable_records j epoch \<longleftrightarrow>
     (case epoch of (ds, nonce, io, read_dir_ok, unreadable) \<Rightarrow> \<forall>g. \<not> unreadable (final_path j g))"

lemma saved_renamed:
  assumes "save_step aead_enc j key (nonce, io, plaintext) dir = (Ok g, dir')"
  shows "renamed_saves aead_enc j key [(nonce, io, plaintext)] dir = [(g, plaintext)]"
  using assms by (auto simp: save_step_def map_err_def split: prod.splits if_splits sum.splits)

lemma saved_loads:
  assumes "aead_inverts aead_enc aead_dec" and "aead_tagged aead_enc"
    and "save_step aead_enc j key (nonce, io, plaintext) dir = (Ok g, dir')" and "\<not> unreadable (final_path j g)"
  shows "EncryptedJournal_load aead_dec True unreadable j key dir' = Ok (g, plaintext)"
  using committed_run [OF assms(1,2), of unreadable j key "[(nonce, io, plaintext)]" dir] assms(3,4)
  unfolding saved_renamed [OF assms(3)] by simp

text \<open>A restart that succeeds gives back the receiver, and it fails in four cases only.\<close>

lemma restart_cases:
  assumes "aead_inverts aead_enc aead_dec" and "aead_tagged aead_enc" and "\<And>g. \<not> unreadable (final_path j g)"
  shows "case restart aead_enc aead_dec j key nonce io read_dir_ok unreadable (receiver, dir) of
      Ok (restored, dir') \<Rightarrow> restored = receiver
    | Err (NoSnapshot e) \<Rightarrow> e = TooManySkipped \<and> 256 < skipped_count receiver
    | Err (NotSaved e) \<Rightarrow> \<exists>snapshot. ReceiveRatchet_snapshot receiver = Ok snapshot \<and>
        fst (save_step aead_enc j key (nonce, io, snapshot) dir) = Err e
    | Err (NotLoaded e) \<Rightarrow> e = Io \<and> \<not> read_dir_ok
    | Err (NotRestored e) \<Rightarrow> expected_counter receiver = u64_MAX"
proof (cases "ReceiveRatchet_snapshot receiver")
  case (Inl e)
  with snapshot_facts [of receiver] show ?thesis
    by (simp add: restart_def)
next
  case (Inr snapshot)
  obtain saved dir' where save: "save_step aead_enc j key (nonce, io, snapshot) dir = (saved, dir')"
    by fastforce
  show ?thesis
  proof (cases saved)
    case (Inl e)
    with Inr save show ?thesis
      by (simp add: restart_def)
  next
    case saved: (Inr g)
    show ?thesis
    proof (cases read_dir_ok)
      case True
      have "EncryptedJournal_load aead_dec True unreadable j key dir' = Ok (g, snapshot)"
        using saved_loads [where unreadable = unreadable, OF assms(1,2) _ assms(3)] save saved by blast
      with True Inr save saved snapshot_facts [of receiver] show ?thesis
        by (simp add: restart_def)
    next
      case False
      with Inr save saved show ?thesis
        by (simp add: restart_def load_unlisted)
    qed
  qed
qed

text \<open>What a restart that succeeds has done, and what is loaded when its record is unreadable.\<close>

lemma restart_Ok:
  assumes "aead_inverts aead_enc aead_dec" and "aead_tagged aead_enc"
    and "restart aead_enc aead_dec j key nonce io True (\<lambda>_. False) (receiver, dir) = Ok (restored, dir')"
  obtains snapshot g where "ReceiveRatchet_snapshot receiver = Ok snapshot"
    and "save_step aead_enc j key (nonce, io, snapshot) dir = (Ok g, dir')"
    and "ReceiveRatchet_from_snapshot snapshot = Ok restored"
proof -
  obtain snapshot where s: "ReceiveRatchet_snapshot receiver = Ok snapshot"
    using assms(3) by (cases "ReceiveRatchet_snapshot receiver") (simp_all add: restart_def)
  obtain saved dir1 where "save_step aead_enc j key (nonce, io, snapshot) dir = (saved, dir1)"
    by fastforce
  moreover from this s obtain g where "saved = Ok g"
    using assms(3) by (cases saved) (simp_all add: restart_def)
  ultimately have *: "ReceiveRatchet_snapshot receiver = Ok snapshot"
    "save_step aead_enc j key (nonce, io, snapshot) dir = (Ok g, dir1)"
    using s by simp_all
  then have "EncryptedJournal_load aead_dec True (\<lambda>_. False) j key dir1 = Ok (g, snapshot)"
    using saved_loads [OF assms(1,2) *(2), of "\<lambda>_. False"] by simp
  with * assms(3) have "ReceiveRatchet_from_snapshot snapshot = Ok restored" "dir1 = dir'"
    by (auto simp: restart_def result_simps)
  with * that show thesis by blast
qed

lemma rolled_back:
  assumes "aead_inverts aead_enc aead_dec" and "aead_tagged aead_enc"
    and first: "save_step aead_enc j key (nonce, io, plaintext) dir = (Ok g, dir')"
    and second: "save_step aead_enc j key (nonce1, io1, plaintext1) dir' = (Ok g1, dir'')"
  shows "EncryptedJournal_load aead_dec True (\<lambda>name. name = final_path j g1) j key dir'' = Ok (g, plaintext)"
proof -
  let ?qs = "[(nonce, io, plaintext), (nonce1, io1, plaintext1)]"
  have "renamed_saves aead_enc j key ?qs dir = [(g, plaintext), (g1, plaintext1)]"
    using saved_renamed [OF first] saved_renamed [OF second] arg_cong [OF first, of snd]
    by (auto split: prod.splits sum.splits)
  moreover from this have "g < g1"
    using renamed_above [OF assms(1,2), of j key ?qs dir] by (simp del: renamed_saves.simps)
  moreover have "snd (run (save_step aead_enc j key) ?qs dir) = dir''"
    using first second by simp
  ultimately show ?thesis
    using committed_run [OF assms(1,2), of "\<lambda>name. name = final_path j g1" j key ?qs dir]
    by (simp del: renamed_saves.simps add: order_less_imp_not_eq)
qed

text \<open>The life of a device is a run of its ratchet, as far as it goes.\<close>

lemma lifetime_run:
  assumes "aead_inverts aead_enc aead_dec" and "aead_tagged aead_enc"
    and "list_all (readable_records j) epochs"
    and "lifetime hkdf aead_open aead_enc aead_dec j key epochs (receiver, dir) = (outs, result)"
  shows "\<exists>n \<le> length epochs.
    case run (receive_step hkdf aead_open) (concat (map fst (take n epochs))) receiver of (outs', final) \<Rightarrow>
      outs = outs' \<and>
      (case result of
         Ok (receiver', dir') \<Rightarrow> n = length epochs \<and> receiver' = final
       | Err (NoSnapshot e) \<Rightarrow> 256 < skipped_count final
       | Err (NotSaved e) \<Rightarrow> True
       | Err (NotLoaded e) \<Rightarrow> e = Io \<and> list_ex unlisted epochs
       | Err (NotRestored e) \<Rightarrow> expected_counter final = u64_MAX)"
  using assms(3,4)
proof (induction epochs arbitrary: receiver dir outs)
  case Nil
  then have "outs = []" "result = Ok (receiver, dir)"
    by simp_all
  then show ?case
    by simp
next
  case (Cons epoch epochs)
  let ?run = "run (receive_step hkdf aead_open)"
  obtain ds nonce io read_dir_ok unreadable where epoch: "epoch = (ds, nonce, io, read_dir_ok, unreadable)"
    by (cases epoch)
  then have readable: "\<not> unreadable (final_path j g)" "list_all (readable_records j) epochs" for g
    using Cons.prems(1) by (simp_all add: epoch readable_records_def [of j "(ds, nonce, io, read_dir_ok, unreadable)"])
  obtain outs1 receiver1 where first: "?run ds receiver = (outs1, receiver1)"
    by fastforce
  note restarted = restart_cases [where unreadable = unreadable and j = j, OF assms(1,2) readable(1),
      where key = key and nonce = nonce and io = io and read_dir_ok = read_dir_ok and receiver = receiver1 and dir = dir]
  show ?case
  proof (cases "restart aead_enc aead_dec j key nonce io read_dir_ok unreadable (receiver1, dir)")
    case (Inl e)
    with Cons.prems epoch first have "outs = outs1" "result = Err e"
      by simp_all
    then show ?thesis
      using restarted first Inl
      by (intro exI [of _ 1]) (cases e; simp add: epoch unlisted_def)
  next
    case (Inr device)
    obtain dir1 where device: "device = (receiver1, dir1)"
      using restarted Inr by (cases device) simp
    obtain outs2 where rest: "lifetime hkdf aead_open aead_enc aead_dec j key epochs (receiver1, dir1) = (outs2, result)"
      and outs: "outs = outs1 @ outs2"
      using Cons.prems epoch first Inr device by (auto split: prod.splits)
    obtain n where n: "n \<le> length epochs"
        "case ?run (concat (map fst (take n epochs))) receiver1 of (outs', final) \<Rightarrow>
          outs2 = outs' \<and>
          (case result of
             Ok (receiver', dir') \<Rightarrow> n = length epochs \<and> receiver' = final
           | Err (NoSnapshot e) \<Rightarrow> 256 < skipped_count final
           | Err (NotSaved e) \<Rightarrow> True
           | Err (NotLoaded e) \<Rightarrow> e = Io \<and> list_ex unlisted epochs
           | Err (NotRestored e) \<Rightarrow> expected_counter final = u64_MAX)"
      using Cons.IH [OF readable(2) rest] by (elim exE conjE) (rule that)
    have whole: "?run (concat (map fst (take (Suc n) (epoch # epochs)))) receiver =
        (outs1 @ fst (?run (concat (map fst (take n epochs))) receiver1),
         snd (?run (concat (map fst (take n epochs))) receiver1))"
      by (simp add: epoch prod_eq_iff run_append_outputs run_append_state first)
    show ?thesis
    proof (rule exI [of _ "Suc n"], rule conjI)
      show "case ?run (concat (map fst (take (Suc n) (epoch # epochs)))) receiver of (outs', final) \<Rightarrow>
          outs = outs' \<and>
          (case result of
             Ok (receiver', dir') \<Rightarrow> Suc n = length (epoch # epochs) \<and> receiver' = final
           | Err (NoSnapshot e) \<Rightarrow> 256 < skipped_count final
           | Err (NotSaved e) \<Rightarrow> True
           | Err (NotLoaded e) \<Rightarrow> e = Io \<and> list_ex unlisted (epoch # epochs)
           | Err (NotRestored e) \<Rightarrow> expected_counter final = u64_MAX)"
        using n(2) unfolding whole outs prod.case length_Cons nat.inject
        by (auto simp: case_prod_beta split: sum.splits restart_error.splits)
    qed (use n(1) in simp)
  qed
qed

section \<open>Properties\<close>

text \<open>
  C14. Restarts are invisible. A device decrypts what the network delivers and restarts after each of
  any number of stretches, its ratchet going through an encrypted snapshot in a journal that may hold
  anything. As long as the records of this journal are readable, its answers - plaintexts and
  refusals - are those of one ratchet that never restarted, as far as they go, and so is the state it
  ends in: a replay is refused after a restart as it was before. They end early only at a restart
  with too many keys for a snapshot, whose save fails or is interrupted, whose directory can not be
  listed, or with an exhausted counter.
\<close>

theorem restarts_are_invisible:
  assumes "aead_inverts aead_enc aead_dec" and "aead_tagged aead_enc"
    and "list_all (readable_records j) epochs"
    and "lifetime hkdf aead_open aead_enc aead_dec j key epochs (receiver, dir) = (outs, result)"
  shows "\<exists>n \<le> length epochs.
    case run (receive_step hkdf aead_open) (concat (map fst (take n epochs))) receiver of (outs', final) \<Rightarrow>
      outs = outs' \<and>
      (case result of
         Ok (receiver', dir') \<Rightarrow> n = length epochs \<and> receiver' = final
       | Err (NoSnapshot e) \<Rightarrow> 256 < skipped_count final
       | Err (NotSaved e) \<Rightarrow> True
       | Err (NotLoaded e) \<Rightarrow> e = Io \<and> list_ex unlisted epochs
       | Err (NotRestored e) \<Rightarrow> expected_counter final = u64_MAX)"
  using assms by (rule lifetime_run)

text \<open>
  C38. An unreadable record rolls the ratchet back. A device restarts, decrypts one packet, restarts
  again - both saves report success - and the file that was just written can not be read when the
  journal is loaded. The journal passes over it without an error: the restart succeeds and gives back
  the ratchet as it was before the packet, which the device accepts once more. The packet's plaintext
  is delivered twice.
\<close>

theorem unreadable_record_rolls_back:
  assumes "aead_inverts aead_enc aead_dec" and "aead_tagged aead_enc"
    and first: "restart aead_enc aead_dec j key nonce io True (\<lambda>_. False) (receiver, dir) = Ok (receiver', dir')"
    and packet: "receive_step hkdf aead_open d receiver = (Ok plaintext, receiver1)"
    and second: "restart aead_enc aead_dec j key nonce1 io1 True (\<lambda>_. False) (receiver1, dir') = Ok (receiver2, dir'')"
  shows "\<exists>g. restart aead_enc aead_dec j key nonce1 io1 True (\<lambda>name. name = final_path j g) (receiver1, dir') =
      Ok (receiver, dir'') \<and>
    fst (lifetime hkdf aead_open aead_enc aead_dec j key
      [([], nonce, io, True, \<lambda>_. False), ([d], nonce1, io1, True, \<lambda>name. name = final_path j g),
       ([d], nonce2, io2, read_dir_ok, unreadable)] (receiver, dir)) = [Ok plaintext, Ok plaintext]"
proof -
  obtain snapshot g0 where s0: "ReceiveRatchet_snapshot receiver = Ok snapshot"
    "save_step aead_enc j key (nonce, io, snapshot) dir = (Ok g0, dir')"
    "ReceiveRatchet_from_snapshot snapshot = Ok receiver'"
    using restart_Ok [OF assms(1,2) first] .
  obtain snapshot1 g where s1: "ReceiveRatchet_snapshot receiver1 = Ok snapshot1"
    "save_step aead_enc j key (nonce1, io1, snapshot1) dir' = (Ok g, dir'')"
    using restart_Ok [OF assms(1,2) second] .
  have receiver': "receiver' = receiver"
    using restart_cases [where unreadable = "\<lambda>_. False" and j = j, OF assms(1,2),
        where key = key and nonce = nonce and io = io and read_dir_ok = True and receiver = receiver and dir = dir] first
    by simp
  have load: "EncryptedJournal_load aead_dec True (\<lambda>name. name = final_path j g) j key dir'' = Ok (g0, snapshot)"
    by (rule rolled_back [OF assms(1,2) s0(2) s1(2)])
  have again: "restart aead_enc aead_dec j key nonce1 io1 True (\<lambda>name. name = final_path j g) (receiver1, dir') =
      Ok (receiver, dir'')"
    using s1 s0(3) by (simp add: restart_def load receiver')
  moreover have run: "run (receive_step hkdf aead_open) [d] receiver = ([Ok plaintext], receiver1)"
    using packet by (simp add: prod_eq_iff)
  moreover have "fst (lifetime hkdf aead_open aead_enc aead_dec j key
      [([], nonce, io, True, \<lambda>_. False), ([d], nonce1, io1, True, \<lambda>name. name = final_path j g),
       ([d], nonce2, io2, read_dir_ok, unreadable)] (receiver, dir)) = [Ok plaintext, Ok plaintext]"
    using first again run by (simp add: receiver' case_prod_beta split: sum.split)
  ultimately show ?thesis
    by blast
qed

text \<open>
  So no number is accepted twice in the life of a device, restarts included.
\<close>

theorem no_number_accepted_twice_after_restarts:
  assumes "aead_inverts aead_enc aead_dec" and "aead_tagged aead_enc"
    and "list_all (readable_records j) epochs" and "ReceiveRatchet_from_root hkdf root = Ok receiver"
  shows "case lifetime hkdf aead_open aead_enc aead_dec j key epochs (receiver, dir) of (outs, result) \<Rightarrow>
    distinct (granted accepted_number (concat (map fst epochs)) outs)"
proof -
  obtain outs result where life: "lifetime hkdf aead_open aead_enc aead_dec j key epochs (receiver, dir) = (outs, result)"
    by fastforce
  obtain n where n: "outs = fst (run (receive_step hkdf aead_open) (concat (map fst (take n epochs))) receiver)"
    using lifetime_run [OF assms(1-3) life] by (auto simp: case_prod_beta)
  have "granted accepted_number (concat (map fst epochs)) outs =
      granted accepted_number (concat (map fst (take n epochs))) outs"
  proof -
    have "concat (map fst epochs) = concat (map fst (take n epochs)) @ concat (map fst (drop n epochs))"
      by (metis append_take_drop_id concat_append map_append)
    then show ?thesis
      by (simp add: granted_def n zip_append1)
  qed
  then show ?thesis
    using accepted.granted_once [OF skipped_below_from_root [OF assms(4)]] by (simp add: life n)
qed

text \<open>A sample life: one packet, and a restart on a disk that works.\<close>

lemma restart_works:
  assumes "aead_inverts aead_enc aead_dec" and "aead_tagged aead_enc"
    and "skipped_count receiver \<le> 256" and "expected_counter receiver \<noteq> u64_MAX"
    and "\<And>snapshot. is_ok (fst (save_step aead_enc j key (nonce, io, snapshot) dir))"
  shows "\<exists>dir'. restart aead_enc aead_dec j key nonce io True (\<lambda>_. False) (receiver, dir) = Ok (receiver, dir')"
proof -
  note cases = restart_cases [where unreadable = "\<lambda>_. False" and j = j, OF assms(1,2),
      where key = key and nonce = nonce and io = io and read_dir_ok = True and receiver = receiver and dir = dir]
  show ?thesis
  proof (cases "restart aead_enc aead_dec j key nonce io True (\<lambda>_. False) (receiver, dir)")
    case (Inl e)
    with cases assms(3-) show ?thesis
      by (cases e) (auto dest: arg_cong [of _ _ is_ok])
  next
    case (Inr device)
    with cases show ?thesis
      by (cases device) simp
  qed
qed

lemma sample_step_ok: "is_ok (fst (save_step tagged_enc j key (nonce, io_works, plaintext) bt_empty))"
  using sample_saves(2) [of nonce j key plaintext] by (simp add: save_step_def case_prod_beta io_works_def)

definition sample_first :: delivery where
  "sample_first = (bytes (RatchetHeader_encode (RatchetHeader_new 0)), bytes (fill 1 :: 12 arr) @ replicate 16 0 @ [10], [])"

lemma sample_first_received:
  "receive_step sample_hkdf tagged_dec sample_first
     \<lparr>rr_state = \<lparr>rs_chain_key = fill 7, rs_next_counter = 0\<rparr>, rr_skipped = bt_empty\<rparr> =
   (Ok [10], \<lparr>rr_state = \<lparr>rs_chain_key = fill 7, rs_next_counter = 1\<rparr>, rr_skipped = bt_empty\<rparr>)"
proof -
  let ?r = "\<lparr>rr_state = \<lparr>rs_chain_key = fill 7, rs_next_counter = 0\<rparr>, rr_skipped = bt_empty\<rparr>"
  have "key_for_loop sample_hkdf 0 ?r None =
      (Ok (fill 7), ?r\<lparr>rr_state := \<lparr>rs_chain_key = fill 7, rs_next_counter = 1\<rparr>\<rparr>)"
    by (rule key_for_loop_last)
      (simp_all add: next_message_key_def sample_hkdf_def u64_checked_add_1 expected_counter_def RatchetState_counter_def u64_MAX_def)
  moreover have "RatchetHeader_decode (bytes (RatchetHeader_encode (RatchetHeader_new 0))) = Ok (RatchetHeader_new 0)"
    by (simp add: RatchetHeader_decode_Ok RatchetHeader_new_def)
  ultimately show ?thesis
    by (simp add: sample_first_def receive_step_cases ReceiveRatchet_decrypt_def key_for_def
        expected_counter_def RatchetState_counter_def RatchetHeader_new_def decrypt_once_def tagged_dec_def Let_def)
qed

theorem restarts_are_invisible_witness:
  "\<exists>outs receiver' dir'.
     lifetime sample_hkdf tagged_dec tagged_enc tagged_dec \<lparr>ej_prefix = ''receive''\<rparr> (fill 3)
       [([sample_first], fill 4, io_works, True, \<lambda>_. False)]
       (\<lparr>rr_state = \<lparr>rs_chain_key = fill 7, rs_next_counter = 0\<rparr>, rr_skipped = bt_empty\<rparr>, bt_empty) =
       (outs, Ok (receiver', dir')) \<and>
     (outs, receiver') = run (receive_step sample_hkdf tagged_dec) [sample_first]
       \<lparr>rr_state = \<lparr>rs_chain_key = fill 7, rs_next_counter = 0\<rparr>, rr_skipped = bt_empty\<rparr>"
proof -
  let ?r = "\<lparr>rr_state = \<lparr>rs_chain_key = fill 7, rs_next_counter = 0\<rparr>, rr_skipped = bt_empty\<rparr>"
  let ?r1 = "\<lparr>rr_state = \<lparr>rs_chain_key = fill 7, rs_next_counter = 1\<rparr>, rr_skipped = bt_empty\<rparr>"
  let ?j = "\<lparr>ej_prefix = ''receive''\<rparr>"
  obtain dir' where "restart tagged_enc tagged_dec ?j (fill 3) (fill 4) io_works True (\<lambda>_. False) (?r1, bt_empty) = Ok (?r1, dir')"
    using restart_works [OF tagged_laws, of ?r1 ?j "fill 3" "fill 4" io_works bt_empty]
    by (auto simp: sample_step_ok skipped_count_def expected_counter_def RatchetState_counter_def u64_MAX_def)
  moreover have "run (receive_step sample_hkdf tagged_dec) [sample_first] ?r = ([Ok [10]], ?r1)"
    by (simp add: prod_eq_iff sample_first_received)
  ultimately have life: "lifetime sample_hkdf tagged_dec tagged_enc tagged_dec ?j (fill 3) [([sample_first], fill 4, io_works, True, \<lambda>_. False)]
      (?r, bt_empty) = ([Ok [10]], Ok (?r1, dir'))"
    by simp
  have "list_all (readable_records ?j) [([sample_first], fill 4, io_works, True, \<lambda>_. False)]"
    by (simp add: readable_records_def)
  from restarts_are_invisible [OF tagged_laws this life] show ?thesis
    using life by (intro exI [of _ "[Ok [10]]"] exI [of _ ?r1] exI [of _ dir']) (auto simp: prod_eq_iff)
qed

text \<open>A second save in the sample journal, and the sample life in which its record can not be read.\<close>

lemma second_save:
  "fst (EncryptedJournal_save tagged_enc nonce io_works j key plaintext
     (snd (EncryptedJournal_save tagged_enc nonce0 io_works j key plaintext0 bt_empty))) = Ok 1"
proof -
  obtain encrypted where dir: "snd (EncryptedJournal_save tagged_enc nonce0 io_works j key plaintext0 bt_empty) =
      bt_insert (final_path j 0) encrypted (bt_remove (temp_path j 0) (bt_insert (temp_path j 0) encrypted bt_empty))"
    by (simp add: EncryptedJournal_save_def seal_record_def seal_def tagged_enc_def io_works_def bt_contains_def Let_def)
  let ?dir = "bt_insert (final_path j 0) encrypted (bt_remove (temp_path j 0) (bt_insert (temp_path j 0) encrypted bt_empty))"
  obtain gens where gens: "generations True j ?dir = Ok gens"
    using generations_total by blast
  have "dom (bt_get ?dir) = {final_path j 0}"
    by (auto split: if_splits)
  then have "set gens = {0}"
    using generations_Ok [OF gens] by auto
  then have "gens \<noteq> []" "Max (set gens) = 0"
    by auto
  moreover have "temp_path j 1 \<noteq> temp_path j 0"
    by (simp add: temp_path_def)
  then have "\<not> bt_contains ?dir (temp_path j 1)"
    by (simp add: bt_contains_def)
  ultimately show ?thesis
    unfolding dir
    by (simp add: EncryptedJournal_save_def seal_record_def seal_def tagged_enc_def io_works_def gens
        u64_checked_add_1 u64_MAX_def Let_def)
qed

theorem unreadable_record_rolls_back_witness:
  "\<exists>g. fst (lifetime sample_hkdf tagged_dec tagged_enc tagged_dec \<lparr>ej_prefix = ''receive''\<rparr> (fill 3)
     [([], fill 4, io_works, True, \<lambda>_. False),
      ([sample_first], fill 5, io_works, True, \<lambda>name. name = final_path \<lparr>ej_prefix = ''receive''\<rparr> g),
      ([sample_first], fill 6, io_works, True, \<lambda>_. False)]
     (\<lparr>rr_state = \<lparr>rs_chain_key = fill 7, rs_next_counter = 0\<rparr>, rr_skipped = bt_empty\<rparr>, bt_empty)) = [Ok [10], Ok [10]]"
proof -
  let ?r = "\<lparr>rr_state = \<lparr>rs_chain_key = fill 7, rs_next_counter = 0\<rparr>, rr_skipped = bt_empty\<rparr>"
  let ?r1 = "\<lparr>rr_state = \<lparr>rs_chain_key = fill 7, rs_next_counter = 1\<rparr>, rr_skipped = bt_empty\<rparr>"
  let ?j = "\<lparr>ej_prefix = ''receive''\<rparr>"
  obtain dir' where first: "restart tagged_enc tagged_dec ?j (fill 3) (fill 4) io_works True (\<lambda>_. False) (?r, bt_empty) = Ok (?r, dir')"
    using restart_works [OF tagged_laws, of ?r ?j "fill 3" "fill 4" io_works bt_empty]
    by (auto simp: sample_step_ok skipped_count_def expected_counter_def RatchetState_counter_def u64_MAX_def)
  then obtain snapshot g where "save_step tagged_enc ?j (fill 3) (fill 4, io_works, snapshot) bt_empty = (Ok g, dir')"
    by (rule restart_Ok [OF tagged_laws])
  then have dir': "dir' = snd (EncryptedJournal_save tagged_enc (fill 4) io_works ?j (fill 3) snapshot bt_empty)"
    using save_step_dir [of tagged_enc ?j "fill 3" "fill 4" io_works snapshot bt_empty] by simp
  have "is_ok (fst (save_step tagged_enc ?j (fill 3) (fill 5, io_works, plaintext) dir'))" for plaintext
    using second_save [of "fill 5" ?j "fill 3" plaintext "fill 4" snapshot]
    by (simp add: dir' save_step_def case_prod_beta io_works_def)
  then obtain dir'' where "restart tagged_enc tagged_dec ?j (fill 3) (fill 5) io_works True (\<lambda>_. False) (?r1, dir') = Ok (?r1, dir'')"
    using restart_works [OF tagged_laws, of ?r1 ?j "fill 3" "fill 5" io_works dir']
    by (auto simp: skipped_count_def expected_counter_def RatchetState_counter_def u64_MAX_def)
  from unreadable_record_rolls_back [OF tagged_laws first sample_first_received this] show ?thesis
    by blast
qed

end
