(* ===== verification/AuthReference.thy ===== *)
theory AuthReference
  imports Auth
begin

text \<open>
  A reference for the request guard of \<open>backend/src/auth.rs\<close>: it remembers every acceptance for
  ever and counts in its memory, with no expiry of nonces, no eviction and no counters. The guard
  of the code, which forgets, answers exactly like it.
\<close>

section \<open>The reference\<close>

record reference_guard =
  rf_accepted :: "16 arr \<Rightarrow> history"
  rf_window :: "16 arr \<Rightarrow> nat option"

definition reference_start :: reference_guard where
  "reference_start = \<lparr>rf_accepted = (\<lambda>_. []), rf_window = Map.empty\<rparr>"

definition window_start :: "nat \<Rightarrow> nat option \<Rightarrow> nat" where
  "window_start now window =
     (case window of None \<Rightarrow> now | Some w \<Rightarrow> if w + RATE_WINDOW \<le> now then now else w)"

definition reference_admit ::
  "16 arr \<Rightarrow> 16 arr \<Rightarrow> nat \<Rightarrow> reference_guard \<Rightarrow> (AuthError + 16 arr) \<times> reference_guard" where
  "reference_admit d nonce now G =
     (if list_ex (\<lambda>(seen, t). seen = nonce \<and> now < t + NONCE_TTL) (rf_accepted G d) then (Err AuthReplay, G)
      else
        let start = window_start now (rf_window G d);
            G = G\<lparr>rf_window := (rf_window G)(d \<mapsto> start)\<rparr>
        in
        if 120 \<le> since start (rf_accepted G d) then (Err RateLimited, G)
        else (Ok d, G\<lparr>rf_accepted := (rf_accepted G)(d := rf_accepted G d @ [(nonce, now)])\<rparr>))"

definition reference_authenticate ::
  "primitives \<Rightarrow> sha256 \<Rightarrow> auth_request \<Rightarrow> reference_guard \<Rightarrow> (AuthError + 16 arr) \<times> reference_guard" where
  "reference_authenticate P sha256 q G =
     (case verify_request P sha256 q of
        Err e \<Rightarrow> (Err e, G)
      | Ok (d, nonce) \<Rightarrow> reference_admit d nonce (aq_instant q) G)"

section \<open>The code's guard answers alike\<close>

text \<open>The counter of the code's rate window is the number of acceptances since its beginning.\<close>

fun counts :: "(nat \<times> u32) option \<Rightarrow> nat option \<Rightarrow> history \<Rightarrow> bool" where
  "counts None window h \<longleftrightarrow> window = None"
| "counts (Some (w, c)) window h \<longleftrightarrow> window = Some w \<and> unat c = since w h"

definition guard_rel :: "nat \<Rightarrow> AuthInner \<Rightarrow> reference_guard \<Rightarrow> bool" where
  "guard_rel T g G \<longleftrightarrow>
     auth_rel T g (rf_accepted G) \<and> (\<forall>d. counts (ai_rates g d) (rf_window G d) (rf_accepted G d))"

lemma guard_rel_start: "guard_rel 0 AuthState_default reference_start"
  using auth_rel_default by (simp add: guard_rel_def reference_start_def AuthState_default_def)

lemma current_rate_counts:
  assumes "rate_ok T rate h" and "counts rate window h" and "T \<le> now"
  shows "fst (current_rate now rate) = window_start now window \<and>
    unat (snd (current_rate now rate)) = since (window_start now window) h"
proof (cases rate)
  case None
  with assms show ?thesis
    by (simp add: current_rate_def window_start_def RATE_WINDOW_def since_def)
next
  case (Some wc)
  obtain w c where wc: "wc = (w, c)" by (cases wc)
  have "w \<le> now" and recent: "\<forall>(_, t) \<in> set h. t < w + RATE_WINDOW"
    using assms(1,3) Some wc by auto
  moreover have "since now h = 0" if "w + RATE_WINDOW \<le> now"
    using recent that by (fastforce simp: since_def filter_empty_conv)
  ultimately show ?thesis
    using assms(2) Some wc by (auto simp: current_rate_def window_start_def)
qed

lemma live_replay:
  "list_ex (\<lambda>(seen, _). seen = n) (live_nonces now (with_expiry h)) \<longleftrightarrow>
     list_ex (\<lambda>(seen, t). seen = n \<and> now < t + NONCE_TTL) h"
  by (induction h) (auto simp: live_nonces_def with_expiry_def)

lemma since_snoc: "since w (h @ [(n, t)]) = since w h + (if w \<le> t then 1 else 0)"
  by (simp add: since_def)

lemma admit_related:
  assumes rel: "guard_rel T g G" and "T \<le> now"
  shows "fst (admit d n now g) = fst (reference_admit d n now G) \<and>
    guard_rel now (snd (admit d n now g)) (snd (reference_admit d n now G))"
proof -
  let ?h = "rf_accepted G d" and ?rate = "current_rate now (ai_rates g d)"
  let ?start = "window_start now (rf_window G d)"
  have auth: "auth_rel T g (rf_accepted G)" and counts: "counts (ai_rates g d') (rf_window G d') (rf_accepted G d')" for d'
    using rel by (simp_all add: guard_rel_def)
  have s: "summarises T (ai_rates g d) (nonce_queue g d) ?h"
    using auth by (simp add: auth_rel_def)
  note eq = admit_eq [OF s \<open>T \<le> now\<close>, of n]
  have replay: "list_ex (\<lambda>(seen, _). seen = n) (live_nonces now (nonce_queue g d)) \<longleftrightarrow>
      list_ex (\<lambda>(seen, t). seen = n \<and> now < t + NONCE_TTL) ?h"
    using summarises_mono [OF s \<open>T \<le> now\<close>] live_replay [of n now ?h] by (simp add: summarises_def)
  have rate: "fst ?rate = ?start" "unat (snd ?rate) = since ?start ?h"
    using current_rate_counts [OF _ counts \<open>T \<le> now\<close>, of d] s by (simp_all add: summarises_def)
  have "rate_ok now (Some ?rate) ?h"
    using current_rate_ok [of T "ai_rates g d" ?h now] s \<open>T \<le> now\<close> by (simp add: summarises_def)
  then have start: "?start \<le> now"
    using rate(1) by (cases ?rate) simp
  have full: "120 \<le> snd ?rate \<longleftrightarrow> 120 \<le> since ?start ?h"
    using rate(2) by (simp add: word_le_nat_alt)
  note step = admit_rel [OF auth \<open>T \<le> now\<close>, of d n]
  consider (replayed) "list_ex (\<lambda>(seen, t). seen = n \<and> now < t + NONCE_TTL) ?h"
    | (limited) "\<not> list_ex (\<lambda>(seen, t). seen = n \<and> now < t + NONCE_TTL) ?h" "120 \<le> since ?start ?h"
    | (admitted) "\<not> list_ex (\<lambda>(seen, t). seen = n \<and> now < t + NONCE_TTL) ?h" "\<not> 120 \<le> since ?start ?h"
    by blast
  then show ?thesis
  proof cases
    case replayed
    then show ?thesis
      using step counts unfolding eq replay by (simp add: reference_admit_def guard_rel_def)
  next
    case limited
    have "counts (Some ?rate) (Some ?start) ?h"
      using rate by (cases ?rate) simp
    with limited show ?thesis
      using step counts unfolding eq replay full by (simp add: reference_admit_def guard_rel_def Let_def)
  next
    case admitted
    have "unat (snd ?rate + 1) = Suc (unat (snd ?rate))"
      using admitted(2) rate(2) by (simp add: unat_word_ariths)
    then have "counts (Some (fst ?rate, snd ?rate + 1)) (Some ?start) (?h @ [(n, now)])"
      using rate start by (simp add: since_snoc)
    with admitted show ?thesis
      using step counts unfolding eq replay full by (simp add: reference_admit_def guard_rel_def Let_def)
  qed
qed

interpretation reference: timed_equivalence "authenticate P sha256" "reference_authenticate P sha256"
  aq_instant guard_rel for P sha256
proof
  fix T g G and q :: auth_request
  assume rel: "guard_rel T g G" and "T \<le> aq_instant q"
  have "guard_rel (aq_instant q) g G"
    using rel summarises_mono [OF _ \<open>T \<le> aq_instant q\<close>] by (auto simp: guard_rel_def auth_rel_def)
  then show "fst (authenticate P sha256 q g) = fst (reference_authenticate P sha256 q G)"
    and "guard_rel (aq_instant q) (snd (authenticate P sha256 q g)) (snd (reference_authenticate P sha256 q G))"
    using admit_related [OF rel \<open>T \<le> aq_instant q\<close>]
    by (auto simp: authenticate_def reference_authenticate_def split: sum.split prod.split)
qed

section \<open>Property\<close>

text \<open>
  C17. Forgetting is harmless. As long as the monotonic clock does not run backwards, the guard of the
  code - which expires nonces, keeps at most 1024 of them per device and counts acceptances in a
  32-bit counter - answers every sequence of requests, refusals and their reasons included, exactly
  like a reference that never forgets an acceptance and counts in the full history.
\<close>

theorem authentication_equals_reference:
  assumes "sorted (map aq_instant qs)"
  shows "fst (run (authenticate P sha256) qs AuthState_default) =
    fst (run (reference_authenticate P sha256) qs reference_start)"
  by (rule reference.same_answers [OF guard_rel_start]) (use assms in simp)

theorem authentication_equals_reference_witness:
  "fst (run (authenticate sample_primitives (\<lambda>_. fill 1)) [sample_request, sample_request] AuthState_default) =
     fst (run (reference_authenticate sample_primitives (\<lambda>_. fill 1)) [sample_request, sample_request]
       reference_start)"
  by (rule authentication_equals_reference) simp

end
