(* ===== verification/Clients.thy ===== *)
theory Clients
  imports AuthReference
begin

text \<open>
  The other side of request authentication: how a client signs a request, as the tests of
  \<open>backend/src/auth.rs\<close> do it. Shown: the gateway accepts every request signed this way, unless its
  nonce was used within five minutes or the device sends too much.
\<close>

section \<open>Signing a request\<close>

text \<open>\<open>format!("{b:02x}")\<close> for every byte.\<close>

definition hex_digit :: "nat \<Rightarrow> char" where
  "hex_digit n = (if n < 10 then char_of (48 + n) else char_of (87 + n))"

definition hex_text :: "u8 list \<Rightarrow> string" where
  "hex_text bs = concat (map (\<lambda>b. [hex_digit (unat b div 16), hex_digit (unat b mod 16)]) bs)"

text \<open>The map starts empty, and its \<open>insert\<close> replaces.\<close>

definition signed_headers ::
  "primitives \<Rightarrow> sha256 \<Rightarrow> 32 arr \<Rightarrow> string \<Rightarrow> string \<Rightarrow> u8 list \<Rightarrow> u64 \<Rightarrow> 16 arr \<Rightarrow> header_map" where
  "signed_headers P sha256 key verb url body timestamp nonce =
     (let public = ed_public P key;
          device = device_id_from_public_key sha256 public;
          hash = bytes (sha256 body);
          signature = ed_sign P key (auth_signing_bytes verb url device public timestamp nonce hash)
      in Map.empty(H_DEVICE_ID \<mapsto> Text (hex_text (bytes device)),
                   H_PUBLIC_KEY \<mapsto> Text (hex_text (bytes public)),
                   H_TIMESTAMP \<mapsto> Text (decimal (unat timestamp)),
                   H_NONCE \<mapsto> Text (hex_text (bytes nonce)),
                   H_SIGNATURE \<mapsto> Text (hex_text (bytes signature))))"

section \<open>The gateway reads what the client wrote\<close>

lemma of_char_hex_digit:
  assumes "n < 16"
  shows "(of_char (hex_digit n) :: u8) = word_of_nat (if n < 10 then 48 + n else 87 + n)"
proof -
  have "(of_char (hex_digit n) :: nat) = (if n < 10 then 48 + n else 87 + n)"
    using assms by (simp add: hex_digit_def)
  then show ?thesis
    by (metis of_nat_of_char)
qed

lemma hex_nibble_digit: "n < 16 \<Longrightarrow> hex_nibble (of_char (hex_digit n)) = Some (word_of_nat n)"
  using of_char_hex_digit [of n]
  by (cases "n < 10") (simp_all add: hex_nibble_def word_le_nat_alt unat_of_nat unat_word_ariths)

lemma nibbles: "Bit_Operations.or (push_bit 4 (word_of_nat (unat b div 16))) (word_of_nat (unat b mod 16)) = (b :: u8)"
proof -
  have "unat b div 16 < 256"
    using unat_bound [of b] by simp
  then have "word_of_nat (unat b div 16) = drop_bit 4 b" "word_of_nat (unat b mod 16) = take_bit 4 b"
    by (simp_all add: drop_bit_eq_div take_bit_eq_mod word_unat_eq_iff unat_div unat_mod unat_of_nat)
  then show ?thesis
    by (auto intro!: bit_word_eqI simp: bit_simps)
qed

lemma hex_pairs_text [simp]: "hex_pairs (byte_string (hex_text bs)) = Some bs"
proof (induction bs)
  case (Cons b bs)
  have "unat b div 16 < 16" "unat b mod 16 < 16"
    using unat_bound [of b] by simp_all
  with Cons show ?case
    by (simp add: hex_text_def byte_string_def hex_nibble_digit nibbles)
qed (simp add: hex_text_def byte_string_def)

lemma length_hex_text [simp]: "length (hex_text bs) = 2 * length bs"
  by (induction bs) (simp_all add: hex_text_def)

lemma header_names [simp]:
  "distinct [H_DEVICE_ID, H_PUBLIC_KEY, H_TIMESTAMP, H_NONCE, H_SIGNATURE]"
  by (simp add: H_DEVICE_ID_def H_PUBLIC_KEY_def H_TIMESTAMP_def H_NONCE_def H_SIGNATURE_def)

lemma signed_header:
  "signed_headers P sha256 key verb url body timestamp nonce H_DEVICE_ID =
     Some (Text (hex_text (bytes (device_id_from_public_key sha256 (ed_public P key)))))"
  "signed_headers P sha256 key verb url body timestamp nonce H_PUBLIC_KEY =
     Some (Text (hex_text (bytes (ed_public P key))))"
  "signed_headers P sha256 key verb url body timestamp nonce H_TIMESTAMP = Some (Text (decimal (unat timestamp)))"
  "signed_headers P sha256 key verb url body timestamp nonce H_NONCE = Some (Text (hex_text (bytes nonce)))"
  "signed_headers P sha256 key verb url body timestamp nonce H_SIGNATURE =
     Some (Text (hex_text (bytes (ed_sign P key (auth_signing_bytes verb url
       (device_id_from_public_key sha256 (ed_public P key)) (ed_public P key) timestamp nonce (bytes (sha256 body)))))))"
  using header_names by (simp_all add: signed_headers_def Let_def)

lemma parse_hex_text:
  "headers name = Some (Text (hex_text (bytes (a :: 'n::len arr)))) \<Longrightarrow> parse_hex headers name = Ok a"
  by (simp add: parse_hex_def header_def length_bytes)

text \<open>What verification makes of a signed request, whatever the gateway knows.\<close>

lemma signed_request_verifies:
  assumes "primitives_lawful P" and "aq_headers q = signed_headers P sha256 key (aq_method q) (aq_path q) (aq_body q) timestamp nonce"
    and "timestamp \<le> u64_saturating_add (aq_now_ms q) AUTH_MAX_CLOCK_SKEW_MS"
    and "u64_saturating_sub (aq_now_ms q) timestamp \<le> AUTH_MAX_CLOCK_SKEW_MS"
  shows "verify_request P sha256 q = Ok (device_id_from_public_key sha256 (ed_public P key), nonce)"
proof -
  note headers = signed_header [of P sha256 key "aq_method q" "aq_path q" "aq_body q" timestamp nonce, folded assms(2)]
  show ?thesis
    using assms(1,3,4)
    by (simp add: verify_request_def parse_hex_text [where headers = "aq_headers q", OF headers(1)] parse_hex_text [where headers = "aq_headers q", OF headers(2)]
        parse_hex_text [where headers = "aq_headers q", OF headers(4)] parse_hex_text [where headers = "aq_headers q", OF headers(5)] header_def headers(3) Let_def
        primitives_lawful_def not_less)
qed

section \<open>What the reference remembers\<close>

lemma reference_remembers:
  "rf_accepted (snd (run (reference_authenticate P sha256) qs G)) d =
     rf_accepted G d @ history_of (granted (accepted_at P sha256) qs (fst (run (reference_authenticate P sha256) qs G))) d"
proof (induction qs arbitrary: G)
  case (Cons q qs)
  have "rf_accepted (snd (reference_authenticate P sha256 q G)) d =
      rf_accepted G d @ history_of (granted (accepted_at P sha256) [q] [fst (reference_authenticate P sha256 q G)]) d"
    by (auto simp: reference_authenticate_def reference_admit_def accepted_at_def Let_def history_of_def
        split: sum.split prod.split)
  then show ?case
    using Cons.IH by (simp add: granted_Cons [of _ q qs] history_of_def del: granted_simps)
qed simp

lemma few_recent:
  assumes "length (filter (\<lambda>(d', n, t). d' = d \<and> now < t + RATE_WINDOW) L) < 120"
  shows "since (window_start now window) (history_of L d) < 120"
proof -
  have "now < t + RATE_WINDOW" if "window_start now window \<le> t" for t
    using that by (auto simp: window_start_def RATE_WINDOW_def split: option.splits if_splits)
  then have "since (window_start now window) h \<le> length (filter (\<lambda>(_, t). now < t + RATE_WINDOW) h)" for h
    unfolding since_def by (induction h) auto
  from this [of "history_of L d"]
  have "since (window_start now window) (history_of L d) \<le>
      length (filter (\<lambda>(_, t). now < t + RATE_WINDOW) (history_of L d))" .
  moreover have "length (filter (\<lambda>(_, t). now < t + RATE_WINDOW) (history_of L d)) =
      length (filter (\<lambda>(d', n, t). d' = d \<and> now < t + RATE_WINDOW) L)"
    by (induction L) (auto simp: history_of_def)
  ultimately show ?thesis
    using assms by simp
qed

section \<open>Property\<close>

text \<open>
  C15. Signed requests are accepted. A request signed as the clients of the tests sign theirs - over its
  method, path, body, a timestamp within five minutes of the gateway's clock and a nonce - is
  accepted as coming from the device of the key, after any sequence of other requests, valid or not:
  unless this device used the nonce in an accepted request within the last five minutes, which is
  answered as a replay, or had 120 requests accepted within the last minute.
\<close>

theorem signed_requests_are_accepted:
  assumes "primitives_lawful P" and "sorted (map aq_instant (qs @ [q]))"
    and "aq_headers q = signed_headers P sha256 key (aq_method q) (aq_path q) (aq_body q) timestamp nonce"
    and "timestamp \<le> u64_saturating_add (aq_now_ms q) AUTH_MAX_CLOCK_SKEW_MS"
    and "u64_saturating_sub (aq_now_ms q) timestamp \<le> AUTH_MAX_CLOCK_SKEW_MS"
    and "device_id_from_public_key sha256 (ed_public P key) = d"
    and "granted (accepted_at P sha256) qs (fst (run (authenticate P sha256) qs AuthState_default)) = accepted"
  shows "let answer = fst (authenticate P sha256 q (snd (run (authenticate P sha256) qs AuthState_default)));
      replayed = list_ex (\<lambda>(d', n, t). d' = d \<and> n = nonce \<and> aq_instant q < t + NONCE_TTL) accepted;
      recent = length (filter (\<lambda>(d', n, t). d' = d \<and> aq_instant q < t + RATE_WINDOW) accepted)
    in if replayed then answer = Err AuthReplay
       else if recent < 120 then answer = Ok d
       else answer = Ok d \<or> answer = Err RateLimited"
proof -
  let ?ref = "reference_authenticate P sha256"
  let ?G = "snd (run ?ref qs reference_start)"
  have "sorted (map aq_instant qs)" "sorted (0 # map aq_instant (qs @ [q]))"
    using assms(2) by (simp_all add: sorted_append)
  then have same: "fst (run (authenticate P sha256) qs AuthState_default) = fst (run ?ref qs reference_start)"
      "fst (run (authenticate P sha256) (qs @ [q]) AuthState_default) = fst (run ?ref (qs @ [q]) reference_start)"
    by (intro reference.same_answers [OF guard_rel_start]; simp)+
  then have answer: "fst (authenticate P sha256 q (snd (run (authenticate P sha256) qs AuthState_default))) = fst (?ref q ?G)"
    by (simp add: run_append_outputs)
  have verified: "verify_request P sha256 q = Ok (d, nonce)"
    using signed_request_verifies [OF assms(1,3-5)] assms(6) by simp
  have history: "rf_accepted ?G d = history_of accepted d"
    using reference_remembers [of P sha256 qs reference_start d] assms(7) same(1)
    by (simp add: reference_start_def)
  have replayed: "list_ex (\<lambda>(seen, t). seen = nonce \<and> aq_instant q < t + NONCE_TTL) (history_of accepted d) \<longleftrightarrow>
      list_ex (\<lambda>(d', n, t). d' = d \<and> n = nonce \<and> aq_instant q < t + NONCE_TTL) accepted"
    by (auto simp: history_of_def list_ex_iff)
  show ?thesis
    unfolding Let_def answer
    using few_recent [where d = d and L = accepted and now = "aq_instant q" and window = "rf_window ?G d"]
    by (auto simp: reference_authenticate_def verified reference_admit_def history replayed Let_def)
qed

lemma sample_signed_request:
  "device_id_from_public_key (\<lambda>_. fill 1) (ed_public sample_primitives (fill 2)) = fill 1"
proof -
  have "take 16 (bytes (fill 1 :: 32 arr)) = bytes (fill 1 :: 16 arr)"
    by (simp add: min_def)
  then show ?thesis
    unfolding device_id_from_public_key_def Let_def by (simp only: arr_bytes)
qed

theorem signed_requests_are_accepted_witness:
  "let q = \<lparr>aq_now_ms = 1000, aq_instant = 7,
      aq_headers = signed_headers sample_primitives (\<lambda>_. fill 1) (fill 2) ''POST'' ''/v1/relay'' [5] 900 (fill 3),
      aq_method = ''POST'', aq_path = ''/v1/relay'', aq_body = [5]\<rparr>
   in fst (authenticate sample_primitives (\<lambda>_. fill 1) q
        (snd (run (authenticate sample_primitives (\<lambda>_. fill 1)) [sample_request] AuthState_default))) = Ok (fill 1)"
proof -
  let ?q = "\<lparr>aq_now_ms = 1000, aq_instant = 7,
      aq_headers = signed_headers sample_primitives (\<lambda>_. fill 1) (fill 2) ''POST'' ''/v1/relay'' [5] 900 (fill 3),
      aq_method = ''POST'', aq_path = ''/v1/relay'', aq_body = [5]\<rparr>"
  have "granted (accepted_at sample_primitives (\<lambda>_. fill 1)) [sample_request]
      (fst (run (authenticate sample_primitives (\<lambda>_. fill 1)) [sample_request] AuthState_default)) = [(fill 1, fill 1, 7)]"
    using sample_authenticate sample_verify [of sample_request]
    by (simp add: accepted_at_def sample_request_def)
  moreover have "(fill 1 :: 16 arr) \<noteq> fill 3"
    by simp
  ultimately show ?thesis
    using signed_requests_are_accepted [where qs = "[sample_request]" and q = ?q and timestamp = 900 and nonce = "fill 3"
        and key = "fill 2" and P = sample_primitives and ?sha256.0 = "\<lambda>_. fill 1" and d = "fill 1"]
      sample_signed_request
    by (simp add: Let_def sample_request_def u64_saturating_add_def u64_saturating_sub_def AUTH_MAX_CLOCK_SKEW_MS_def)
qed

end
