(* ===== verification/PrekeyStores.thy ===== *)
theory PrekeyStores
  imports Identity "HOL-Library.Multiset"
begin

text \<open>
  The two prekey stores of \<open>core/identity/src/prekeys.rs\<close>. Each holds its state behind a mutex, so
  every operation is one step; a concurrent use of a store is an interleaving of these steps, and
  the theorems about runs hold for every interleaving.
\<close>

section \<open>The signed prekey store\<close>

definition DEFAULT_SIGNED_PREKEY_ROTATION_MS :: u64 where
  "DEFAULT_SIGNED_PREKEY_ROTATION_MS = 7 * 24 * 60 * 60 * 1000"

definition DEFAULT_SIGNED_PREKEY_GRACE_MS :: u64 where
  "DEFAULT_SIGNED_PREKEY_GRACE_MS = 24 * 60 * 60 * 1000"

definition MAX_RETIRED_SIGNED_PREKEYS :: usize where
  "MAX_RETIRED_SIGNED_PREKEYS = 2"

datatype SignedPrekeyStoreError =
  SpkDuplicateKeyId | SpkNotFound | InvalidTime | GenerationOverflow | RetiredCapacity | SpkPoisoned

record SignedPrekeyEntry =
  se_key_id :: u32
  se_created_at_ms :: u64
  se_expires_at_ms :: "u64 option"
  se_key :: SignedPrekey
  se_record :: SignedPrekeyRecord

record SignedPrekeyState =
  ss_current :: SignedPrekeyEntry
  ss_retired :: "(u32, SignedPrekeyEntry) btree"

type_synonym SignedPrekeyStore = "SignedPrekeyState mutex"

definition SignedPrekeyStore_new ::
  "primitives \<Rightarrow> 32 arr \<Rightarrow> IdentityKey \<Rightarrow> u32 \<Rightarrow> u64 \<Rightarrow> SignedPrekeyStore" where
  "SignedPrekeyStore_new P secret identity key_id now_ms =
     (let key = SignedPrekey_generate P secret;
          record = publishable_signed_prekey P identity key_id key
      in mutex_new
           \<lparr>ss_current = \<lparr>se_key_id = key_id, se_created_at_ms = now_ms, se_expires_at_ms = None,
                          se_key = key, se_record = record\<rparr>,
            ss_retired = bt_empty\<rparr>)"

definition current_record :: "SignedPrekeyStore \<Rightarrow> SignedPrekeyStoreError + SignedPrekeyRecord" where
  "current_record m =
     fst (with_lock SpkPoisoned (\<lambda>st. (Ok (se_record (ss_current st)), st)) m)"

definition current_key_id :: "SignedPrekeyStore \<Rightarrow> SignedPrekeyStoreError + u32" where
  "current_key_id m = fst (with_lock SpkPoisoned (\<lambda>st. (Ok (se_key_id (ss_current st)), st)) m)"

definition with_key ::
  "u32 \<Rightarrow> u64 \<Rightarrow> (SignedPrekey \<Rightarrow> 'r) \<Rightarrow> SignedPrekeyStore \<Rightarrow> SignedPrekeyStoreError + 'r" where
  "with_key key_id now_ms operation m =
     fst (with_lock SpkPoisoned
       (\<lambda>st. (if se_key_id (ss_current st) = key_id then Ok (operation (se_key (ss_current st)))
              else and_then (ok_or (bt_get (ss_retired st) key_id) SpkNotFound) (\<lambda>entry.
                if (case se_expires_at_ms entry of None \<Rightarrow> False | Some expires \<Rightarrow> expires \<le> now_ms)
                then Err SpkNotFound
                else Ok (operation (se_key entry))), st)) m)"

text \<open>The \<open>retain\<close> of \<open>rotate\<close> and \<open>prune\<close>.\<close>

definition unexpired :: "u64 \<Rightarrow> SignedPrekeyEntry \<Rightarrow> bool" where
  "unexpired now_ms entry =
     (case se_expires_at_ms entry of None \<Rightarrow> True | Some expires \<Rightarrow> now_ms < expires)"

definition drop_expired :: "u64 \<Rightarrow> SignedPrekeyState \<Rightarrow> SignedPrekeyState" where
  "drop_expired now_ms st =
     st\<lparr>ss_retired := bt_retain (\<lambda>_. unexpired now_ms) (ss_retired st)\<rparr>"

text \<open>The expired keys are dropped before any check, so a rotation that fails has dropped them too.\<close>

definition SignedPrekeyStore_rotate ::
  "primitives \<Rightarrow> 32 arr \<Rightarrow> IdentityKey \<Rightarrow> u32 \<Rightarrow> u64 \<Rightarrow> u64 \<Rightarrow> SignedPrekeyStore \<Rightarrow>
     (SignedPrekeyStoreError + SignedPrekeyRecord) \<times> SignedPrekeyStore" where
  "SignedPrekeyStore_rotate P secret identity new_key_id now_ms grace_ms =
     with_lock SpkPoisoned (\<lambda>st0.
       let st = drop_expired now_ms st0; current = ss_current st in
       if new_key_id = se_key_id current \<or> bt_contains (ss_retired st) new_key_id
       then (Err SpkDuplicateKeyId, st)
       else if now_ms < se_created_at_ms current then (Err InvalidTime, st)
       else if MAX_RETIRED_SIGNED_PREKEYS \<le> bt_len (ss_retired st) then (Err RetiredCapacity, st)
       else (case u64_checked_add now_ms grace_ms of
          None \<Rightarrow> (Err GenerationOverflow, st)
        | Some expires_at_ms \<Rightarrow>
            let key = SignedPrekey_generate P secret;
                record = publishable_signed_prekey P identity new_key_id key;
                new = \<lparr>se_key_id = new_key_id, se_created_at_ms = now_ms, se_expires_at_ms = None,
                       se_key = key, se_record = record\<rparr>;
                old = current\<lparr>se_expires_at_ms := Some expires_at_ms\<rparr>
            in (Ok record, \<lparr>ss_current = new,
                            ss_retired = bt_insert (se_key_id current) old (ss_retired st)\<rparr>)))"

definition SignedPrekeyStore_prune ::
  "u64 \<Rightarrow> SignedPrekeyStore \<Rightarrow> (SignedPrekeyStoreError + usize) \<times> SignedPrekeyStore" where
  "SignedPrekeyStore_prune now_ms =
     with_lock SpkPoisoned (\<lambda>st.
       let before = bt_len (ss_retired st); st' = drop_expired now_ms st
       in (Ok (before - bt_len (ss_retired st')), st'))"

definition retired_len :: "SignedPrekeyStore \<Rightarrow> SignedPrekeyStoreError + usize" where
  "retired_len m = fst (with_lock SpkPoisoned (\<lambda>st. (Ok (bt_len (ss_retired st)), st)) m)"

section \<open>The one-time prekey store\<close>

datatype PreKeyStoreError = OpkDuplicateKeyId | OpkNotFound | PublicKeyMismatch | OpkPoisoned

type_synonym OneTimePrekeyStore = "(u32, OneTimePrekey) btree mutex"

definition OneTimePrekeyStore_new :: OneTimePrekeyStore where
  "OneTimePrekeyStore_new = mutex_new bt_empty"

definition OneTimePrekeyStore_insert ::
  "OneTimePrekey \<Rightarrow> OneTimePrekeyStore \<Rightarrow> (PreKeyStoreError + unit) \<times> OneTimePrekeyStore" where
  "OneTimePrekeyStore_insert key =
     with_lock OpkPoisoned (\<lambda>keys.
       if bt_contains keys (ot_key_id key) then (Err OpkDuplicateKeyId, keys)
       else (Ok (), bt_insert (ot_key_id key) key keys))"

definition OneTimePrekeyStore_take ::
  "u32 \<Rightarrow> OneTimePrekeyStore \<Rightarrow> (PreKeyStoreError + OneTimePrekey) \<times> OneTimePrekeyStore" where
  "OneTimePrekeyStore_take key_id =
     with_lock OpkPoisoned (\<lambda>keys.
       (ok_or (bt_get keys key_id) OpkNotFound, bt_remove key_id keys))"

definition take_matching ::
  "u32 \<Rightarrow> 32 arr \<Rightarrow> OneTimePrekeyStore \<Rightarrow> (PreKeyStoreError + OneTimePrekey) \<times> OneTimePrekeyStore" where
  "take_matching key_id expected_public =
     with_lock OpkPoisoned (\<lambda>keys.
       case bt_get keys key_id of
         None \<Rightarrow> (Err OpkNotFound, keys)
       | Some key \<Rightarrow>
           if OneTimePrekey_public_key key \<noteq> expected_public then (Err PublicKeyMismatch, keys)
           else (ok_or (bt_get keys key_id) OpkNotFound, bt_remove key_id keys))"

text \<open>
  \<open>with_matching\<close> is generic in the error of the operation; \<open>from\<close> is its conversion from the
  store's error.
\<close>

definition with_matching ::
  "(PreKeyStoreError \<Rightarrow> 'e) \<Rightarrow> u32 \<Rightarrow> 32 arr \<Rightarrow> (OneTimePrekey \<Rightarrow> 'e + 'r) \<Rightarrow> OneTimePrekeyStore \<Rightarrow>
     ('e + 'r) \<times> OneTimePrekeyStore" where
  "with_matching from key_id expected_public operation =
     with_lock (from OpkPoisoned) (\<lambda>keys.
       case bt_get keys key_id of
         None \<Rightarrow> (Err (from OpkNotFound), keys)
       | Some key \<Rightarrow>
           if OneTimePrekey_public_key key \<noteq> expected_public then (Err (from PublicKeyMismatch), keys)
           else (case operation key of
               Err e \<Rightarrow> (Err e, keys)
             | Ok result \<Rightarrow>
                 (case bt_get keys key_id of
                    None \<Rightarrow> (Err (from OpkNotFound), keys)
                  | Some removed \<Rightarrow> (Ok result, bt_remove key_id keys))))"

definition OneTimePrekeyStore_len :: "OneTimePrekeyStore \<Rightarrow> PreKeyStoreError + usize" where
  "OneTimePrekeyStore_len m = fst (with_lock OpkPoisoned (\<lambda>keys. (Ok (bt_len keys), keys)) m)"

definition OneTimePrekeyStore_is_empty :: "OneTimePrekeyStore \<Rightarrow> PreKeyStoreError + bool" where
  "OneTimePrekeyStore_is_empty m = and_then (OneTimePrekeyStore_len m) (\<lambda>n. Ok (n = 0))"

section \<open>The signed prekey store in use\<close>

datatype spk_op = SpkRotate "32 arr" u32 u64 u64 | SpkPrune u64

datatype spk_answer =
  SpkRotated "SignedPrekeyStoreError + SignedPrekeyRecord" | SpkPruned "SignedPrekeyStoreError + usize"

fun spk_step ::
  "primitives \<Rightarrow> IdentityKey \<Rightarrow> spk_op \<Rightarrow> SignedPrekeyStore \<Rightarrow> spk_answer \<times> SignedPrekeyStore" where
  "spk_step P identity (SpkRotate secret new_key_id now_ms grace_ms) m =
     apfst SpkRotated (SignedPrekeyStore_rotate P secret identity new_key_id now_ms grace_ms m)"
| "spk_step P identity (SpkPrune now_ms) m = apfst SpkPruned (SignedPrekeyStore_prune now_ms m)"

fun op_time :: "spk_op \<Rightarrow> u64" where
  "op_time (SpkRotate secret new_key_id now_ms grace_ms) = now_ms"
| "op_time (SpkPrune now_ms) = now_ms"

definition entry_ok :: "primitives \<Rightarrow> IdentityKey \<Rightarrow> SignedPrekeyEntry \<Rightarrow> bool" where
  "entry_ok P identity e \<longleftrightarrow>
     prekey_ok P (se_key e) \<and> se_record e = publishable_signed_prekey P identity (se_key_id e) (se_key e)"

definition spk_inv :: "primitives \<Rightarrow> IdentityKey \<Rightarrow> SignedPrekeyState \<Rightarrow> bool" where
  "spk_inv P identity st \<longleftrightarrow>
     bt_len (ss_retired st) \<le> 2 \<and> bt_get (ss_retired st) (se_key_id (ss_current st)) = None \<and>
     se_expires_at_ms (ss_current st) = None \<and> entry_ok P identity (ss_current st) \<and>
     (\<forall>k e. bt_get (ss_retired st) k = Some e \<longrightarrow>
        se_key_id e = k \<and> se_expires_at_ms e \<noteq> None \<and> entry_ok P identity e)"

lemma drop_expired_simps [simp]:
  "ss_current (drop_expired now st) = ss_current st"
  "bt_get (ss_retired (drop_expired now st)) k =
     (case bt_get (ss_retired st) k of None \<Rightarrow> None
      | Some e \<Rightarrow> if unexpired now e then Some e else None)"
  by (simp_all add: drop_expired_def)

lemma drop_expired_inv: "spk_inv P identity st \<Longrightarrow> spk_inv P identity (drop_expired now st)"
  using bt_len_retain_le [of "\<lambda>_. unexpired now" "ss_retired st"]
  by (auto simp: spk_inv_def drop_expired_def split: option.splits if_splits)

text \<open>The body of a rotation: every failure leaves the state with the expired keys dropped.\<close>

lemma rotate_cases:
  assumes "SignedPrekeyStore_rotate P secret identity i now grace m = (res, m')"
  obtains (failed) e where "res = Err e"
      "m' = m \<or> m' = m\<lparr>mx_value := drop_expired now (mx_value m)\<rparr>"
  | (rotated) x where "res = Ok (publishable_signed_prekey P identity i (SignedPrekey_generate P secret))"
      "\<not> mx_poisoned m" "x = now + grace"
      "i \<noteq> se_key_id (ss_current (mx_value m))"
      "bt_get (ss_retired (drop_expired now (mx_value m))) i = None"
      "bt_len (ss_retired (drop_expired now (mx_value m))) < 2"
      "mx_value m' =
        \<lparr>ss_current = \<lparr>se_key_id = i, se_created_at_ms = now, se_expires_at_ms = None,
           se_key = SignedPrekey_generate P secret,
           se_record = publishable_signed_prekey P identity i (SignedPrekey_generate P secret)\<rparr>,
         ss_retired = bt_insert (se_key_id (ss_current (mx_value m)))
           ((ss_current (mx_value m))\<lparr>se_expires_at_ms := Some x\<rparr>)
           (ss_retired (drop_expired now (mx_value m)))\<rparr>"
      "\<not> mx_poisoned m'"
  using assms
  by (auto simp: SignedPrekeyStore_rotate_def with_lock_def Let_def bt_contains_def not_le
      MAX_RETIRED_SIGNED_PREKEYS_def u64_checked_add_def split: if_splits option.splits)

lemma rotate_inv:
  assumes "SignedPrekeyStore_rotate P secret identity i now grace m = (res, m')"
    and "spk_inv P identity (mx_value m)"
  shows "spk_inv P identity (mx_value m')"
  using assms(1)
proof (cases rule: rotate_cases)
  case (failed e)
  then show ?thesis
    using assms(2) drop_expired_inv by auto
next
  case (rotated x)
  have "spk_inv P identity (drop_expired now (mx_value m))"
    using assms(2) by (rule drop_expired_inv)
  with rotated show ?thesis
    by (auto simp: spk_inv_def entry_ok_def bt_len_insert split: if_splits simp del: drop_expired_simps(2))
qed

interpretation spk: machine "spk_step P identity" "\<lambda>m. spk_inv P identity (mx_value m)" for P identity
proof (unfold_locales, goal_cases)
  case (1 m op)
  then show ?case
  proof (cases op)
    case (SpkRotate secret i now grace)
    then show ?thesis
      using 1 rotate_inv [of P secret identity i now grace m] by (auto simp: prod_eq_iff)
  next
    case (SpkPrune now)
    then show ?thesis
      using 1 drop_expired_inv
      by (simp add: SignedPrekeyStore_prune_def with_lock_value Let_def)
  qed
qed

lemma spk_inv_new: "spk_inv P identity (mx_value (SignedPrekeyStore_new P secret identity key_id now_ms))"
  by (simp add: SignedPrekeyStore_new_def spk_inv_def entry_ok_def Let_def)

lemma spk_step_poison [simp]: "mx_poisoned (snd (spk_step P identity op m)) = mx_poisoned m"
  by (cases op) (simp_all add: SignedPrekeyStore_rotate_def SignedPrekeyStore_prune_def)

lemma spk_run_poison [simp]: "mx_poisoned (snd (run (spk_step P identity) ops m)) = mx_poisoned m"
  by (induction ops arbitrary: m) simp_all

text \<open>A retired key is kept by every operation before its expiry.\<close>

lemma retired_kept:
  assumes "spk_inv P identity (mx_value m)"
    and "bt_get (ss_retired (mx_value m)) k = Some e" and "se_expires_at_ms e = Some x"
    and "op_time op < x"
  shows "bt_get (ss_retired (mx_value (snd (spk_step P identity op m)))) k = Some e"
proof (cases op)
  case (SpkPrune now)
  with assms show ?thesis
    by (simp add: SignedPrekeyStore_prune_def with_lock_value Let_def unexpired_def)
next
  case (SpkRotate secret i now grace)
  obtain res m' where m': "SignedPrekeyStore_rotate P secret identity i now grace m = (res, m')"
    by fastforce
  then show ?thesis
  proof (cases rule: rotate_cases)
    case (failed e')
    with assms SpkRotate m' show ?thesis
      by (auto simp: unexpired_def)
  next
    case (rotated x')
    moreover have "k \<noteq> se_key_id (ss_current (mx_value m))"
      using assms(1,2) by (auto simp: spk_inv_def)
    ultimately show ?thesis
      using assms SpkRotate m' by (simp add: unexpired_def)
  qed
qed

lemma retired_kept_run:
  assumes "spk_inv P identity (mx_value m)"
    and "bt_get (ss_retired (mx_value m)) k = Some e" and "se_expires_at_ms e = Some x"
    and "\<forall>op \<in> set ops. op_time op < x"
  shows "bt_get (ss_retired (mx_value (snd (run (spk_step P identity) ops m)))) k = Some e"
  using assms
proof (induction ops arbitrary: m)
  case (Cons op ops)
  then show ?case
    using retired_kept [of P identity m k e x op] spk.step_inv [of P identity m op] by simp
qed simp

section \<open>The one-time prekey store in use\<close>

datatype opk_op =
  OpkInsert OneTimePrekey | OpkTake u32 | OpkTakeMatching u32 "32 arr"
| OpkWith u32 "32 arr" "OneTimePrekey \<Rightarrow> PreKeyStoreError + unit"

datatype opk_answer = OpkInserted "PreKeyStoreError + unit" | OpkTaken "PreKeyStoreError + OneTimePrekey"

fun opk_step :: "opk_op \<Rightarrow> OneTimePrekeyStore \<Rightarrow> opk_answer \<times> OneTimePrekeyStore" where
  "opk_step (OpkInsert key) m = apfst OpkInserted (OneTimePrekeyStore_insert key m)"
| "opk_step (OpkTake key_id) m = apfst OpkTaken (OneTimePrekeyStore_take key_id m)"
| "opk_step (OpkTakeMatching key_id public) m = apfst OpkTaken (take_matching key_id public m)"
| "opk_step (OpkWith key_id public f) m =
     apfst OpkTaken (with_matching id key_id public (\<lambda>key. and_then (f key) (\<lambda>_. Ok key)) m)"

fun inserted_key :: "opk_op \<Rightarrow> opk_answer \<Rightarrow> OneTimePrekey option" where
  "inserted_key (OpkInsert key) (OpkInserted (Ok ())) = Some key"
| "inserted_key op answer = None"

fun handed_key :: "opk_op \<Rightarrow> opk_answer \<Rightarrow> OneTimePrekey option" where
  "handed_key op (OpkTaken (Ok key)) = Some key"
| "handed_key op answer = None"

definition bt_values :: "('k::linorder, 'v) btree \<Rightarrow> 'v multiset" where
  "bt_values m = image_mset snd (mset (entries m))"

lemma set_entries: "set (entries m) = {(k, v). bt_get m k = Some v}"
  using map_of_eq_Some_iff [OF distinct_entries [of m]] by (auto simp: bt_get_def)

lemma mset_entries_insert:
  fixes m :: "('k::linorder, 'v) btree"
  assumes new: "bt_get m k = None"
  shows "mset (entries (bt_insert k v m)) = add_mset (k, v) (mset (entries m))"
proof -
  have "distinct (entries m')" for m' :: "('k, 'v) btree"
    using distinct_entries [of m'] by (simp add: distinct_map)
  moreover have "(k, v) \<notin> set (entries m)"
    using new by (simp add: set_entries)
  moreover have "set (entries (bt_insert k v m)) = set ((k, v) # entries m)"
    using new by (auto simp: set_entries split: if_splits)
  ultimately have "mset (entries (bt_insert k v m)) = mset ((k, v) # entries m)"
    by (subst set_eq_iff_mset_eq_distinct [symmetric]) simp_all
  then show ?thesis by simp
qed

lemma bt_values_insert: "bt_get m k = None \<Longrightarrow> bt_values (bt_insert k v m) = add_mset v (bt_values m)"
  by (simp add: bt_values_def mset_entries_insert)

lemma bt_values_remove:
  assumes "bt_get m k = Some v"
  shows "bt_values m = add_mset v (bt_values (bt_remove k m))"
proof -
  have "m = bt_insert k v (bt_remove k m)"
    using assms by (intro btree_eqI) simp
  then show ?thesis
    by (metis bt_get_remove bt_values_insert)
qed

lemma bt_remove_absent: "bt_get m k = None \<Longrightarrow> bt_remove k m = m"
  by (rule btree_eqI) simp

text \<open>One step moves keys between the store and its user, and loses none.\<close>

lemma opk_step_conserves:
  "bt_values (mx_value m) + mset (granted inserted_key [op] [fst (opk_step op m)]) =
   bt_values (mx_value (snd (opk_step op m))) + mset (granted handed_key [op] [fst (opk_step op m)])"
proof (cases op)
  case (OpkInsert key)
  then show ?thesis
    by (auto simp: OneTimePrekeyStore_insert_def with_lock_def bt_contains_def bt_values_insert)
next
  case (OpkTake key_id)
  then show ?thesis
    by (cases "bt_get (mx_value m) key_id")
      (auto simp: OneTimePrekeyStore_take_def with_lock_def bt_remove_absent bt_values_remove)
next
  case (OpkTakeMatching key_id public)
  then show ?thesis
    by (cases "bt_get (mx_value m) key_id")
      (auto simp: take_matching_def with_lock_def bt_values_remove)
next
  case (OpkWith key_id public f)
  show ?thesis
  proof (cases "bt_get (mx_value m) key_id")
    case None
    then show ?thesis
      by (simp add: OpkWith with_matching_def with_lock_def)
  next
    case (Some key)
    then show ?thesis
      by (cases "f key") (auto simp: OpkWith with_matching_def with_lock_def bt_values_remove)
  qed
qed

section \<open>Properties\<close>

text \<open>
  The signed prekey store always has a key to publish that its owner can use: after any
  sequence of rotations and prunings, failed ones included, at most two keys are retired, the
  current record verifies under the identity, and the secret held under its key id is the one the
  record publishes.
\<close>

theorem signed_prekey_store_sound:
  assumes "primitives_lawful P"
  shows "case run (spk_step P identity) ops (SignedPrekeyStore_new P secret identity key_id t0) of
    (_, m) \<Rightarrow> \<exists>r n. current_record m = Ok r \<and>
      SignedPrekeyRecord_verify P (IdentityKey_public_key P identity) r \<and>
      current_key_id m = Ok (sr_key_id r) \<and>
      with_key (sr_key_id r) t (\<lambda>key. (SignedPrekey_public_key key, prekey_ok P key)) m =
        Ok (sr_public_key r, True) \<and>
      retired_len m = Ok n \<and> n \<le> MAX_RETIRED_SIGNED_PREKEYS"
proof -
  let ?m0 = "SignedPrekeyStore_new P secret identity key_id t0"
  let ?m = "snd (run (spk_step P identity) ops ?m0)"
  have "\<not> mx_poisoned ?m"
    by (simp add: SignedPrekeyStore_new_def Let_def)
  moreover have "spk_inv P identity (mx_value ?m)"
    using spk_inv_new by (rule spk.run_inv)
  ultimately show ?thesis
    using publishable_verifies [OF assms]
    by (auto simp: case_prod_beta current_record_def current_key_id_def with_key_def retired_len_def
        with_lock_healthy spk_inv_def entry_ok_def MAX_RETIRED_SIGNED_PREKEYS_def
        SignedPrekey_public_key_def)
qed

theorem signed_prekey_store_sound_witness:
  "\<exists>r. current_record (SignedPrekeyStore_new sample_primitives (fill 4)
          (IdentityKey_generate sample_primitives (fill 2) (fill 3)) 1 0) = Ok r \<and>
       SignedPrekeyRecord_verify sample_primitives
         (IdentityKey_public_key sample_primitives
            (IdentityKey_generate sample_primitives (fill 2) (fill 3))) r"
  using signed_prekey_store_sound [OF sample_primitives_lawful, where ops = "[]" and key_id = 1
      and identity = "IdentityKey_generate sample_primitives (fill 2) (fill 3)"
      and secret = "fill 4" and t0 = 0 and t = 0]
  by auto

text \<open>
  C39. The grace period is honoured exactly: when a rotation at time \<open>now\<close> replaces the current
  key, then after any further rotations and prunings at times before \<open>now + grace\<close> the replaced
  key still answers under its id, unchanged, until \<open>now + grace\<close>, and is \<open>NotFound\<close> from then
  on. Neither the bound on retired keys nor a reuse of key ids takes it away earlier.
\<close>

theorem signed_prekey_grace:
  assumes "m = snd (run (spk_step P identity) before (SignedPrekeyStore_new P secret identity i0 t0))"
    and "current_key_id m = Ok k" and "with_key k now (\<lambda>key. key) m = Ok old"
    and "SignedPrekeyStore_rotate P secret' identity i now grace m = (Ok r, m')"
    and "\<forall>op \<in> set after. op_time op < now + grace"
  shows "with_key k t f (snd (run (spk_step P identity) after m')) =
    (if t < now + grace then Ok (f old) else Err SpkNotFound)"
proof -
  have healthy: "\<not> mx_poisoned m"
    by (simp add: assms(1) SignedPrekeyStore_new_def Let_def)
  have inv: "spk_inv P identity (mx_value m)"
    unfolding assms(1) using spk_inv_new by (rule spk.run_inv)
  have k: "k = se_key_id (ss_current (mx_value m))" and old: "old = se_key (ss_current (mx_value m))"
    using assms(2,3) healthy by (auto simp: current_key_id_def with_key_def with_lock_healthy)
  let ?e = "(ss_current (mx_value m))\<lparr>se_expires_at_ms := Some (now + grace)\<rparr>"
  have m': "bt_get (ss_retired (mx_value m')) k = Some ?e \<and> \<not> mx_poisoned m'"
    using assms(4)
  proof (cases rule: rotate_cases)
    case (rotated x)
    then show ?thesis
      by (simp add: k)
  qed simp
  let ?m = "snd (run (spk_step P identity) after m')"
  have inv': "spk_inv P identity (mx_value m')"
    using rotate_inv [OF assms(4) inv] .
  then have e: "bt_get (ss_retired (mx_value ?m)) k = Some ?e"
    using retired_kept_run [OF inv' conjunct1 [OF m']] assms(5) by simp
  moreover have "spk_inv P identity (mx_value ?m)"
    using inv' by (rule spk.run_inv)
  then have "se_key_id (ss_current (mx_value ?m)) \<noteq> k"
    using e by (auto simp: spk_inv_def)
  ultimately show ?thesis
    using m' by (simp add: with_key_def with_lock_healthy old not_less)
qed

theorem signed_prekey_grace_witness:
  "with_key 1 2499 (\<lambda>_. ()) (snd (SignedPrekeyStore_rotate sample_primitives (fill 5)
       (IdentityKey_generate sample_primitives (fill 2) (fill 3)) 2 2000 500
       (SignedPrekeyStore_new sample_primitives (fill 4)
          (IdentityKey_generate sample_primitives (fill 2) (fill 3)) 1 1000))) = Ok ()"
proof -
  let ?i = "IdentityKey_generate sample_primitives (fill 2) (fill 3)"
  let ?m = "SignedPrekeyStore_new sample_primitives (fill 4) ?i 1 1000"
  let ?r = "SignedPrekeyStore_rotate sample_primitives (fill 5) ?i 2 2000 500 ?m"
  have m: "\<not> mx_poisoned ?m" "ss_retired (mx_value ?m) = bt_empty"
    "se_key_id (ss_current (mx_value ?m)) = 1" "se_created_at_ms (ss_current (mx_value ?m)) = 1000"
    by (simp_all add: SignedPrekeyStore_new_def Let_def)
  have "drop_expired 2000 (mx_value ?m) = mx_value ?m"
    by (simp add: drop_expired_def m) (simp add: SignedPrekeyStore_new_def Let_def btree_eqI)
  then have "\<exists>r. fst ?r = Ok r"
    by (simp add: SignedPrekeyStore_rotate_def with_lock_healthy m Let_def bt_contains_def
        MAX_RETIRED_SIGNED_PREKEYS_def u64_checked_add_def)
  then obtain r where r: "?r = (Ok r, snd ?r)"
    by (metis prod.collapse)
  have "current_key_id ?m = Ok 1" "with_key 1 2000 (\<lambda>key. key) ?m = Ok (se_key (ss_current (mx_value ?m)))"
    by (simp_all add: current_key_id_def with_key_def with_lock_healthy m)
  then show ?thesis
    using signed_prekey_grace [where before = "[]" and after = "[]" and t = 2499 and m = ?m
        and secret = "fill 4" and ?i0.0 = 1 and ?t0.0 = 1000 and f = "\<lambda>_. ()", OF _ _ _ r] by simp
qed

text \<open>
  C23. No one-time prekey is lost or duplicated: over any sequence of insertions, takes and
  transactional uses - in whatever order concurrent callers got the lock - the keys that went in
  are exactly the keys handed out together with the keys still held. So a key inserted once is
  handed out at most once, and a use whose operation fails gives it back.
\<close>

theorem one_time_prekeys_conserved:
  "case run opk_step ops OneTimePrekeyStore_new of
     (answers, m) \<Rightarrow> mset (granted inserted_key ops answers) =
       bt_values (mx_value m) + mset (granted handed_key ops answers)"
proof -
  have "bt_values (mx_value m) + mset (granted inserted_key ops (fst (run opk_step ops m))) =
      bt_values (mx_value (snd (run opk_step ops m))) +
      mset (granted handed_key ops (fst (run opk_step ops m)))" for m
  proof (induction ops arbitrary: m)
    case (Cons op ops)
    let ?m = "snd (opk_step op m)"
    let ?in = "\<lambda>ops. mset (granted inserted_key ops (fst (run opk_step ops ?m)))"
    let ?out = "\<lambda>ops. mset (granted handed_key ops (fst (run opk_step ops ?m)))"
    let ?i = "mset (granted inserted_key [op] [fst (opk_step op m)])"
    let ?o = "mset (granted handed_key [op] [fst (opk_step op m)])"
    have "bt_values (mx_value m) + (?i + ?in ops) = (bt_values (mx_value m) + ?i) + ?in ops"
      by (simp only: add.assoc)
    also have "\<dots> = (bt_values (mx_value ?m) + ?in ops) + ?o"
      by (simp only: opk_step_conserves ac_simps)
    also have "\<dots> = bt_values (mx_value (snd (run opk_step ops ?m))) + (?o + ?out ops)"
      by (simp only: Cons.IH ac_simps)
    finally show ?case
      by (simp only: run_Cons_outputs run_Cons_state granted_Cons [of _ op ops] mset_append)
  qed simp
  from this [of OneTimePrekeyStore_new] show ?thesis
    by (simp add: case_prod_beta OneTimePrekeyStore_new_def bt_values_def bt_empty.rep_eq)
qed

end
