(* ===== verification/Session.thy ===== *)
theory Session
  imports PrekeyStores Ratchet
begin

text \<open>
  Session establishment, \<open>core/session/src/lib.rs\<close>: the initiator's and the responder's side, the
  transactional use of a one-time prekey, the signed session header. Shown: both sides derive the
  same root, what an accepted initiation has checked, and when a one-time prekey is consumed.
\<close>

section \<open>Data\<close>

definition SESSION_DOMAIN :: "u8 list" where
  "SESSION_DOMAIN = byte_string ''M/SESSION/v1''"

definition INIT_DOMAIN :: "u8 list" where
  "INIT_DOMAIN = byte_string ''M/SESSION-INIT/v1''"

datatype SessionError =
  SessionProtocolVersion | InvalidBundle PreKeyBundleError | InvalidSignedPrekey
| InvalidPeerIdentity | InvalidOneTimePrekey | InvalidSharedSecret | KeyDerivation
| PreKeyStore PreKeyStoreError

record InitiatorEphemeral =
  ie_secret :: "32 arr"
  ie_public_key :: "32 arr"

definition InitiatorEphemeral_generate :: "primitives \<Rightarrow> 32 arr \<Rightarrow> InitiatorEphemeral" where
  "InitiatorEphemeral_generate P secret = \<lparr>ie_secret = secret, ie_public_key = x_pub P secret\<rparr>"

record SessionInit =
  si_identity_signing_key :: "32 arr"
  si_identity_agreement_key :: "32 arr"
  si_ephemeral_public_key :: "32 arr"
  si_signed_prekey_id :: u32
  si_one_time_prekey_id :: "u32 option"
  si_signature :: "64 arr"

definition SessionInit_signing_bytes :: "SessionInit \<Rightarrow> u8 list" where
  "SessionInit_signing_bytes i =
     INIT_DOMAIN @ bytes (si_identity_signing_key i) @ bytes (si_identity_agreement_key i) @
     bytes (si_ephemeral_public_key i) @ u32_to_be (si_signed_prekey_id i) @
     (case si_one_time_prekey_id i of Some opk_id \<Rightarrow> 1 # u32_to_be opk_id | None \<Rightarrow> [0])"

definition SessionInit_verify :: "primitives \<Rightarrow> SessionInit \<Rightarrow> bool" where
  "SessionInit_verify P i \<longleftrightarrow>
     ed_key_ok P (si_identity_signing_key i) \<and>
     ed_verify P (si_identity_signing_key i) (SessionInit_signing_bytes i) (si_signature i)"

record InitiatorSession =
  is_root :: "32 arr"
  is_peer_device_id :: "16 arr"
  is_used_one_time_prekey_id :: "u32 option"
  is_init :: SessionInit

record ResponderSession =
  rp_root :: "32 arr"
  rp_peer_device_id :: "16 arr"
  rp_used_one_time_prekey_id :: "u32 option"

section \<open>Key derivation\<close>

definition is_zero :: "32 arr \<Rightarrow> bool" where
  "is_zero value \<longleftrightarrow> list_all (\<lambda>b. b = 0) (bytes value)"

definition derive_root ::
  "hkdf32 \<Rightarrow> u8 list \<Rightarrow> 16 arr \<Rightarrow> 16 arr \<Rightarrow> 32 arr \<Rightarrow> 32 arr option" where
  "derive_root hkdf ikm initiator_device_id responder_device_id ephemeral_public =
     (if list_all (\<lambda>b. b = 0) ikm then None
      else let info = u16_to_be (version_number (ProtocolVersion PROTOCOL_VERSION)) @
                 bytes initiator_device_id @ bytes responder_device_id @ bytes ephemeral_public
        in hkdf SESSION_DOMAIN ikm info)"

section \<open>The initiator\<close>

definition initiate ::
  "primitives \<Rightarrow> hkdf32 \<Rightarrow> IdentityKey \<Rightarrow> 16 arr \<Rightarrow> InitiatorEphemeral \<Rightarrow> PreKeyBundle \<Rightarrow>
     SignedPrekeyRecord \<Rightarrow> (u32 \<times> 32 arr) option \<Rightarrow> SessionError + InitiatorSession" where
  "initiate P hkdf own_identity own_device_id own_ephemeral bundle record opk =
     (if version_number (pb_protocol_version bundle) \<noteq> PROTOCOL_VERSION
      then Err SessionProtocolVersion
      else and_then (map_err InvalidBundle (PreKeyBundle_validate bundle)) (\<lambda>_.
      and_then (if ed_key_ok P (pb_identity_signing_key bundle)
                then Ok (pb_identity_signing_key bundle) else Err InvalidPeerIdentity) (\<lambda>peer_identity.
      if pb_identity_agreement_key bundle \<noteq> sr_agreement_public_key record \<or>
         \<not> SignedPrekeyRecord_verify P peer_identity record \<or>
         sr_key_id record \<noteq> pb_signed_prekey_id bundle \<or>
         sr_public_key record \<noteq> pb_signed_prekey bundle
      then Err InvalidSignedPrekey
      else
        let secret = ie_secret own_ephemeral;
            dh1 = agreement_diffie_hellman P (pb_signed_prekey bundle) own_identity;
            dh2 = x_agree P secret (pb_identity_agreement_key bundle);
            dh3 = x_agree P secret (pb_signed_prekey bundle)
        in
        if is_zero dh1 \<or> is_zero dh2 \<or> is_zero dh3 then Err InvalidSharedSecret
        else let ikm = bytes dh1 @ bytes dh2 @ bytes dh3 in
        and_then
          (case opk of
             None \<Rightarrow> Ok (None, ikm)
           | Some (opk_id, public) \<Rightarrow>
               if \<not> list_ex (\<lambda>entry. opk_key_id entry = opk_id \<and> opk_public_key entry = public)
                       (pb_one_time_prekeys bundle)
               then Err InvalidOneTimePrekey
               else let dh4 = x_agree P secret public in
                 if is_zero dh4 then Err InvalidSharedSecret
                 else Ok (Some opk_id, ikm @ bytes dh4)) (\<lambda>(used_id, ikm).
        and_then (ok_or (derive_root hkdf ikm own_device_id (pb_device_id bundle)
                           (ie_public_key own_ephemeral)) KeyDerivation) (\<lambda>root.
        let init = \<lparr>si_identity_signing_key = IdentityKey_public_key P own_identity,
                    si_identity_agreement_key = agreement_public_key own_identity,
                    si_ephemeral_public_key = ie_public_key own_ephemeral,
                    si_signed_prekey_id = pb_signed_prekey_id bundle,
                    si_one_time_prekey_id = used_id, si_signature = fill 0\<rparr>;
            init' = init\<lparr>si_signature :=
                       IdentityKey_sign P (SessionInit_signing_bytes init) own_identity\<rparr>
        in Ok \<lparr>is_root = root, is_peer_device_id = pb_device_id bundle,
               is_used_one_time_prekey_id = used_id, is_init = init'\<rparr>)))))"

section \<open>The responder\<close>

definition respond_inner ::
  "primitives \<Rightarrow> hkdf32 \<Rightarrow> IdentityKey \<Rightarrow> SignedPrekey \<Rightarrow> (u32 \<times> OneTimePrekey) option \<Rightarrow>
     16 arr \<Rightarrow> 16 arr \<Rightarrow> 32 arr \<Rightarrow> 32 arr \<Rightarrow> SessionError + ResponderSession" where
  "respond_inner P hkdf own_identity own_signed_prekey own_opk own_device_id peer_device_id
       peer_identity_agreement_key peer_ephemeral_public =
     (let dh1 = SignedPrekey_diffie_hellman P peer_identity_agreement_key own_signed_prekey;
          dh2 = agreement_diffie_hellman P peer_ephemeral_public own_identity;
          dh3 = SignedPrekey_diffie_hellman P peer_ephemeral_public own_signed_prekey
      in
      if is_zero dh1 \<or> is_zero dh2 \<or> is_zero dh3 then Err InvalidSharedSecret
      else let ikm = bytes dh1 @ bytes dh2 @ bytes dh3 in
      and_then
        (case own_opk of
           None \<Rightarrow> Ok (None, ikm)
         | Some (opk_id, otp) \<Rightarrow>
             let dh4 = OneTimePrekey_diffie_hellman P peer_ephemeral_public otp in
             if is_zero dh4 then Err InvalidSharedSecret else Ok (Some opk_id, ikm @ bytes dh4))
        (\<lambda>(used_id, ikm).
      and_then (ok_or (derive_root hkdf ikm peer_device_id own_device_id peer_ephemeral_public)
                  KeyDerivation) (\<lambda>root.
      Ok \<lparr>rp_root = root, rp_peer_device_id = peer_device_id, rp_used_one_time_prekey_id = used_id\<rparr>)))"

definition respond ::
  "primitives \<Rightarrow> hkdf32 \<Rightarrow> IdentityKey \<Rightarrow> SignedPrekey \<Rightarrow> (u32 \<times> OneTimePrekey) option \<Rightarrow>
     16 arr \<Rightarrow> 16 arr \<Rightarrow> 32 arr \<Rightarrow> 32 arr \<Rightarrow> SessionError + ResponderSession" where
  "respond P hkdf own_identity own_signed_prekey own_opk own_device_id peer_device_id
       peer_identity_agreement_key peer_ephemeral_public =
     respond_inner P hkdf own_identity own_signed_prekey own_opk own_device_id peer_device_id
       peer_identity_agreement_key peer_ephemeral_public"

definition respond_with_one_time_prekey_store ::
  "primitives \<Rightarrow> hkdf32 \<Rightarrow> IdentityKey \<Rightarrow> SignedPrekey \<Rightarrow> (u32 \<times> 32 arr) option \<Rightarrow>
     16 arr \<Rightarrow> 16 arr \<Rightarrow> 32 arr \<Rightarrow> 32 arr \<Rightarrow> OneTimePrekeyStore \<Rightarrow>
     (SessionError + ResponderSession) \<times> OneTimePrekeyStore" where
  "respond_with_one_time_prekey_store P hkdf own_identity own_signed_prekey opk own_device_id
       peer_device_id peer_identity_agreement_key peer_ephemeral_public store =
     (case opk of
        Some (opk_id, public) \<Rightarrow>
          with_matching PreKeyStore opk_id public
            (\<lambda>otp. respond_inner P hkdf own_identity own_signed_prekey (Some (opk_id, otp)) own_device_id
                     peer_device_id peer_identity_agreement_key peer_ephemeral_public) store
      | None \<Rightarrow>
          (respond P hkdf own_identity own_signed_prekey None own_device_id peer_device_id
             peer_identity_agreement_key peer_ephemeral_public, store))"

section \<open>Both sides\<close>

lemma initiate_Ok:
  assumes "initiate P hkdf alice dev eph bundle record opk = Ok i"
  shows "PreKeyBundle_validate bundle = Ok ()" "ed_key_ok P (pb_identity_signing_key bundle)"
    "pb_identity_agreement_key bundle = sr_agreement_public_key record"
    "SignedPrekeyRecord_verify P (pb_identity_signing_key bundle) record"
    "sr_key_id record = pb_signed_prekey_id bundle"
    "sr_public_key record = pb_signed_prekey bundle"
    "is_used_one_time_prekey_id i = map_option fst opk"
    "is_peer_device_id i = pb_device_id bundle"
    "\<And>opk_id public. opk = Some (opk_id, public) \<Longrightarrow>
       (opk_id, public) \<in> (\<lambda>e. (opk_key_id e, opk_public_key e)) ` set (pb_one_time_prekeys bundle)"
    "is_init i =
       (let init = \<lparr>si_identity_signing_key = IdentityKey_public_key P alice,
                    si_identity_agreement_key = agreement_public_key alice,
                    si_ephemeral_public_key = ie_public_key eph,
                    si_signed_prekey_id = pb_signed_prekey_id bundle,
                    si_one_time_prekey_id = map_option fst opk, si_signature = fill 0\<rparr>
        in init\<lparr>si_signature := IdentityKey_sign P (SessionInit_signing_bytes init) alice\<rparr>)"
  using assms
  by (auto simp: initiate_def result_simps Let_def list_ex_iff split: if_splits option.splits
      prod.splits)

lemma signing_bytes_signature [simp]:
  "SessionInit_signing_bytes (i\<lparr>si_signature := s\<rparr>) = SessionInit_signing_bytes i"
  by (simp add: SessionInit_signing_bytes_def)

lemma initiate_respond:
  assumes "dh_agrees (x_pub P) (x_agree P)"
    and "identity_ok P alice" and "identity_ok P bob" and "prekey_ok P spk"
    and "pred_option (opk_ok P) okey"
    and "pb_identity_agreement_key bundle = agreement_public_key bob"
    and "pb_signed_prekey bundle = SignedPrekey_public_key spk"
    and "ie_public_key eph = x_pub P (ie_secret eph)"
    and "initiate P hkdf alice dev eph bundle record
           (map_option (\<lambda>k. (ot_key_id k, OneTimePrekey_public_key k)) okey) = Ok i"
  shows "respond_inner P hkdf bob spk (map_option (\<lambda>k. (ot_key_id k, k)) okey)
      (pb_device_id bundle) dev (agreement_public_key alice) (ie_public_key eph) =
    Ok \<lparr>rp_root = is_root i, rp_peer_device_id = dev,
        rp_used_one_time_prekey_id = is_used_one_time_prekey_id i\<rparr>"
proof -
  have dh: "x_agree P a (x_pub P b) = x_agree P b (x_pub P a)" for a b
    using assms(1) by (simp add: dh_agrees_def)
  have keys: "ik_agreement_public alice = x_pub P (ik_agreement_secret alice)"
    "ik_agreement_public bob = x_pub P (ik_agreement_secret bob)" "sp_public spk = x_pub P (sp_secret spk)"
    using assms(2-4) by (simp_all add: identity_ok_def prekey_ok_def)
  have same: "SignedPrekey_diffie_hellman P (agreement_public_key alice) spk =
      agreement_diffie_hellman P (pb_signed_prekey bundle) alice"
    "agreement_diffie_hellman P (ie_public_key eph) bob =
      x_agree P (ie_secret eph) (pb_identity_agreement_key bundle)"
    "SignedPrekey_diffie_hellman P (ie_public_key eph) spk =
      x_agree P (ie_secret eph) (pb_signed_prekey bundle)"
    "pred_option (\<lambda>k. OneTimePrekey_diffie_hellman P (ie_public_key eph) k =
        x_agree P (ie_secret eph) (OneTimePrekey_public_key k)) okey"
    using assms(5-8) dh keys
    by (auto simp: SignedPrekey_diffie_hellman_def agreement_diffie_hellman_def agreement_public_key_def
        SignedPrekey_public_key_def OneTimePrekey_diffie_hellman_def OneTimePrekey_public_key_def
        opk_ok_def option.pred_set)
  show ?thesis
    using assms(9) same
    by (auto simp: initiate_def respond_inner_def result_simps Let_def split: if_splits option.splits
        prod.splits)
qed

text \<open>The store after a response: the key used is gone, nothing else has changed.\<close>

lemma respond_store_None [simp]:
  "respond_with_one_time_prekey_store P hkdf bob spk None own peer ka ke store =
     (respond_inner P hkdf bob spk None own peer ka ke, store)"
  by (simp add: respond_with_one_time_prekey_store_def respond_def)

lemma respond_store_Some:
  assumes "\<not> mx_poisoned store"
  shows "respond_with_one_time_prekey_store P hkdf bob spk (Some (opk_id, public)) own peer ka ke store =
    (case bt_get (mx_value store) opk_id of
       None \<Rightarrow> (Err (PreKeyStore OpkNotFound), store)
     | Some k \<Rightarrow>
         if OneTimePrekey_public_key k \<noteq> public then (Err (PreKeyStore PublicKeyMismatch), store)
         else (case respond_inner P hkdf bob spk (Some (opk_id, k)) own peer ka ke of
             Err e \<Rightarrow> (Err e, store)
           | Ok s \<Rightarrow> (Ok s, store\<lparr>mx_value := bt_remove opk_id (mx_value store)\<rparr>)))"
  using assms
  by (auto simp: respond_with_one_time_prekey_store_def with_matching_def with_lock_def
      split: option.splits sum.splits)

interpretation response: transactional
  "\<lambda>(opk, own, peer, ka, ke). respond_with_one_time_prekey_store P hkdf bob spk opk own peer ka ke"
  for P hkdf bob spk
proof (unfold_locales, goal_cases)
  case (1 request store e)
  obtain opk own peer ka ke where r: "request = (opk, own, peer, ka, ke)"
    by (cases request)
  show ?case
  proof (cases "mx_poisoned store")
    case True
    then show ?thesis
      by (cases opk) (auto simp: r respond_with_one_time_prekey_store_def with_matching_def)
  next
    case False
    with 1 show ?thesis
      by (cases opk) (auto simp: r respond_store_Some split: option.splits sum.splits if_splits)
  qed
qed

text \<open>With the store: both sides derive the same root, and the prekey used is consumed.\<close>

lemma respond_agrees:
  assumes "primitives_lawful P"
    and "identity_ok P alice" and "identity_ok P bob" and "prekey_ok P spk"
    and "pred_option (opk_ok P) okey"
    and "pb_identity_agreement_key bdl = agreement_public_key bob"
    and "pb_signed_prekey bdl = SignedPrekey_public_key spk"
    and "\<not> mx_poisoned store"
    and "pred_option (\<lambda>k. bt_get (mx_value store) (ot_key_id k) = Some k) okey"
    and "initiate P hkdf alice dev (InitiatorEphemeral_generate P secret) bdl rcd
           (map_option (\<lambda>k. (ot_key_id k, OneTimePrekey_public_key k)) okey) = Ok i"
  shows "respond_with_one_time_prekey_store P hkdf bob spk
      (map_option (\<lambda>k. (ot_key_id k, OneTimePrekey_public_key k)) okey) (is_peer_device_id i) dev
      (si_identity_agreement_key (is_init i)) (si_ephemeral_public_key (is_init i)) store =
    (Ok \<lparr>rp_root = is_root i, rp_peer_device_id = dev,
         rp_used_one_time_prekey_id = si_one_time_prekey_id (is_init i)\<rparr>,
     case okey of None \<Rightarrow> store
     | Some k \<Rightarrow> store\<lparr>mx_value := bt_remove (ot_key_id k) (mx_value store)\<rparr>)"
proof -
  let ?eph = "InitiatorEphemeral_generate P secret"
  have "ie_public_key ?eph = x_pub P (ie_secret ?eph)" "dh_agrees (x_pub P) (x_agree P)"
    using assms(1) by (simp_all add: InitiatorEphemeral_generate_def primitives_lawful_def)
  note inner = initiate_respond [OF this(2) assms(2-7) this(1) assms(10)]
  note i = initiate_Ok [OF assms(10)]
  have "si_identity_agreement_key (is_init i) = agreement_public_key alice"
    "si_ephemeral_public_key (is_init i) = ie_public_key ?eph"
    "si_one_time_prekey_id (is_init i) = is_used_one_time_prekey_id i"
    by (simp_all add: i(10,7) Let_def)
  then show ?thesis
    using inner assms(9) i(8) by (cases okey) (simp_all add: respond_store_Some [OF assms(8)])
qed

section \<open>Properties\<close>

text \<open>
  C12. Key agreement: when an initiator accepts a bundle that carries a responder's keys, with or
  without one of its one-time prekeys, the responder - given the header the initiator sent, its
  own keys and its store - derives the same root under the same device ids, reports the same
  one-time prekey, and has consumed exactly that prekey.
\<close>

theorem session_roots_agree:
  assumes "primitives_lawful P"
    and "identity_ok P alice" and "identity_ok P bob" and "prekey_ok P spk"
    and "pred_option (opk_ok P) okey"
    and "pb_identity_agreement_key bdl = agreement_public_key bob"
    and "pb_signed_prekey bdl = SignedPrekey_public_key spk"
    and "\<not> mx_poisoned store"
    and "pred_option (\<lambda>k. bt_get (mx_value store) (ot_key_id k) = Some k) okey"
    and "initiate P hkdf alice dev (InitiatorEphemeral_generate P secret) bdl rcd
           (map_option (\<lambda>k. (ot_key_id k, OneTimePrekey_public_key k)) okey) = Ok i"
  shows "respond_with_one_time_prekey_store P hkdf bob spk
      (map_option (\<lambda>k. (ot_key_id k, OneTimePrekey_public_key k)) okey) (is_peer_device_id i) dev
      (si_identity_agreement_key (is_init i)) (si_ephemeral_public_key (is_init i)) store =
    (Ok \<lparr>rp_root = is_root i, rp_peer_device_id = dev,
         rp_used_one_time_prekey_id = si_one_time_prekey_id (is_init i)\<rparr>,
     case okey of None \<Rightarrow> store
     | Some k \<Rightarrow> store\<lparr>mx_value := bt_remove (ot_key_id k) (mx_value store)\<rparr>)"
  using assms by (rule respond_agrees)

text \<open>
  C30. What an accepted initiation has checked and what it sends: the bundle is valid, the signed
  prekey record verifies under the bundle's identity and is the one the bundle names, the one-time
  prekey was advertised; and the header sent verifies under the initiator's identity and names
  exactly the keys used.
\<close>

theorem accepted_initiation_is_authentic:
  assumes "primitives_lawful P" and "initiate P hkdf alice dev eph bundle record opk = Ok i"
  shows "PreKeyBundle_validate bundle = Ok () \<and>
    SignedPrekeyRecord_verify P (pb_identity_signing_key bundle) record \<and>
    sr_agreement_public_key record = pb_identity_agreement_key bundle \<and>
    (sr_key_id record, sr_public_key record) = (pb_signed_prekey_id bundle, pb_signed_prekey bundle) \<and>
    pred_option (\<lambda>advertised.
      advertised \<in> (\<lambda>e. (opk_key_id e, opk_public_key e)) ` set (pb_one_time_prekeys bundle)) opk \<and>
    SessionInit_verify P (is_init i) \<and>
    si_identity_signing_key (is_init i) = IdentityKey_public_key P alice \<and>
    si_signed_prekey_id (is_init i) = sr_key_id record \<and>
    si_one_time_prekey_id (is_init i) = map_option fst opk"
proof -
  have "SessionInit_verify P (is_init i)"
    using assms(1)
    by (simp add: initiate_Ok(10) [OF assms(2)] Let_def SessionInit_verify_def primitives_lawful_def
        IdentityKey_public_key_def IdentityKey_sign_def SessionInit_signing_bytes_def)
  then show ?thesis
    using initiate_Ok [OF assms(2)] by (cases opk) (auto simp: Let_def)
qed

text \<open>
  The session header's signature covers every field: two headers have the same signed bytes
  exactly when they agree in everything but the signature.
\<close>

theorem session_init_binds:
  "SessionInit_signing_bytes i = SessionInit_signing_bytes j \<longleftrightarrow>
     i\<lparr>si_signature := si_signature j\<rparr> = j"
  by (cases i; cases j)
    (auto simp: SessionInit_signing_bytes_def append_inject_length bytes_eq_iff split: option.splits)

text \<open>
  One-time prekeys are consumed by success only: over any sequence of responses against one
  store, leaving out those that failed - an unknown or mismatched prekey, a zero shared secret, a
  derivation error - does not change which keys are left.
\<close>

theorem failed_responses_consume_nothing:
  "let step = (\<lambda>(opk, own, peer, ka, ke).
         respond_with_one_time_prekey_store P hkdf bob spk opk own peer ka ke)
   in snd (run step requests store) =
      snd (run step (map fst (filter (\<lambda>(q, r). is_ok r) (zip requests (fst (run step requests store)))))
             store)"
  unfolding Let_def by (rule response.run_successes)

section \<open>Sample session\<close>

definition sample_alice :: IdentityKey where
  "sample_alice = IdentityKey_generate sample_primitives (fill 1) (fill 2)"

definition sample_bob :: IdentityKey where
  "sample_bob = IdentityKey_generate sample_primitives (fill 3) (fill 4)"

definition sample_spk :: SignedPrekey where
  "sample_spk = SignedPrekey_generate sample_primitives (fill 5)"

definition sample_opk :: OneTimePrekey where
  "sample_opk = OneTimePrekey_generate sample_primitives 9 (fill 6)"

definition sample_record :: SignedPrekeyRecord where
  "sample_record = publishable_signed_prekey sample_primitives sample_bob 1 sample_spk"

definition sample_bundle :: PreKeyBundle where
  "sample_bundle =
     \<lparr>pb_protocol_version = ProtocolVersion PROTOCOL_VERSION, pb_device_id = fill 7,
      pb_identity_signing_key = IdentityKey_public_key sample_primitives sample_bob,
      pb_identity_agreement_key = agreement_public_key sample_bob,
      pb_signed_prekey_id = 1, pb_signed_prekey = SignedPrekey_public_key sample_spk,
      pb_signed_prekey_signature = sr_signature sample_record,
      pb_one_time_prekeys = [\<lparr>opk_key_id = 9, opk_public_key = fill 6\<rparr>]\<rparr>"

lemmas sample_session_defs =
  sample_alice_def sample_bob_def sample_spk_def sample_opk_def sample_record_def sample_bundle_def
  IdentityKey_generate_def SignedPrekey_generate_def OneTimePrekey_generate_def
  InitiatorEphemeral_generate_def agreement_public_key_def SignedPrekey_public_key_def
  OneTimePrekey_public_key_def IdentityKey_public_key_def

lemma sample_bundle_valid: "PreKeyBundle_validate sample_bundle = Ok ()"
  by (simp add: PreKeyBundle_validate_def sample_session_defs PROTOCOL_VERSION_def
      MAX_ONE_TIME_PREKEYS_def)

lemma is_zero_fill [simp]: "is_zero (fill b) \<longleftrightarrow> b = 0"
  by (simp add: is_zero_def list.pred_set)

lemma sample_initiate:
  "\<exists>i. initiate sample_primitives sample_hkdf sample_alice (fill 8)
     (InitiatorEphemeral_generate sample_primitives (fill 10)) sample_bundle sample_record
     (Some (9, fill 6)) = Ok i"
proof -
  have "SignedPrekeyRecord_verify sample_primitives (pb_identity_signing_key sample_bundle) sample_record"
    using publishable_verifies [OF sample_primitives_lawful, of sample_bob 1 sample_spk]
    by (simp add: sample_bundle_def sample_record_def)
  then show ?thesis
    using sample_bundle_valid
    by (simp add: initiate_def Let_def sample_session_defs agreement_diffie_hellman_def
        derive_root_def sample_hkdf_def list.pred_set)
qed

theorem session_roots_agree_witness:
  "\<exists>i. initiate sample_primitives sample_hkdf sample_alice (fill 8)
         (InitiatorEphemeral_generate sample_primitives (fill 10)) sample_bundle sample_record
         (Some (9, fill 6)) = Ok i \<and>
       respond_with_one_time_prekey_store sample_primitives sample_hkdf sample_bob sample_spk
         (Some (9, fill 6)) (is_peer_device_id i) (fill 8) (si_identity_agreement_key (is_init i))
         (si_ephemeral_public_key (is_init i)) (mutex_new (bt_insert 9 sample_opk bt_empty)) =
       (Ok \<lparr>rp_root = is_root i, rp_peer_device_id = fill 8,
            rp_used_one_time_prekey_id = si_one_time_prekey_id (is_init i)\<rparr>,
        (mutex_new (bt_insert 9 sample_opk bt_empty))
          \<lparr>mx_value := bt_remove 9 (bt_insert 9 sample_opk bt_empty)\<rparr>)"
proof -
  obtain i where i: "initiate sample_primitives sample_hkdf sample_alice (fill 8)
      (InitiatorEphemeral_generate sample_primitives (fill 10)) sample_bundle sample_record
      (Some (9, fill 6)) = Ok i"
    using sample_initiate by blast
  have opk: "ot_key_id sample_opk = 9" "OneTimePrekey_public_key sample_opk = fill 6"
    by (simp_all add: sample_session_defs)
  show ?thesis
    using session_roots_agree [where okey = "Some sample_opk" and i = i and P = sample_primitives
        and hkdf = sample_hkdf and alice = sample_alice and bob = sample_bob and spk = sample_spk
        and store = "mutex_new (bt_insert 9 sample_opk bt_empty)" and dev = "fill 8"
        and bdl = sample_bundle and rcd = sample_record and secret = "fill 10"] i
    by (simp add: opk sample_alice_def sample_bob_def sample_spk_def sample_opk_def)
      (simp add: sample_session_defs)
qed

theorem accepted_initiation_is_authentic_witness:
  "\<exists>i. initiate sample_primitives sample_hkdf sample_alice (fill 8)
         (InitiatorEphemeral_generate sample_primitives (fill 10)) sample_bundle sample_record
         (Some (9, fill 6)) = Ok i \<and> SessionInit_verify sample_primitives (is_init i)"
  using sample_initiate accepted_initiation_is_authentic [OF sample_primitives_lawful] by blast

end
