(* ===== verification/Exchange.thy ===== *)
theory Exchange
  imports Registry Session
begin

text \<open>
  From the registry of the gateway to a session: what a device publishes and another one fetches and
  claims (\<open>backend/src/prekeys.rs\<close>) is what \<open>initiate\<close> and the responder (\<open>core/session\<close>) accept.
\<close>

section \<open>What can be fetched\<close>

text \<open>The record of the signed prekey, from the fields of a bundle.\<close>

definition record_of :: "PreKeyBundle \<Rightarrow> SignedPrekeyRecord" where
  "record_of b =
     \<lparr>sr_key_id = pb_signed_prekey_id b, sr_public_key = pb_signed_prekey b,
      sr_agreement_public_key = pb_identity_agreement_key b, sr_signature = pb_signed_prekey_signature b\<rparr>"

definition advertised :: "PreKeyBundle \<Rightarrow> (u32 \<times> 32 arr) set" where
  "advertised b = (\<lambda>e. (opk_key_id e, opk_public_key e)) ` set (pb_one_time_prekeys b)"

text \<open>
  Publications have the version of the protocol, and a claim of the current generation of a device is
  of a prekey that its publication advertises.
\<close>

definition fetchable :: "RegistryState \<Rightarrow> bool" where
  "fetchable s \<longleftrightarrow>
     (\<forall>d p. rg_publications s d = Some p \<longrightarrow>
        version_number (pb_protocol_version (pp_bundle p)) = PROTOCOL_VERSION) \<and>
     (\<forall>k c p. rg_claims s k = Some c \<longrightarrow> rg_publications s (ck_device k) = Some p \<longrightarrow>
        ck_generation k = pp_generation p \<longrightarrow> (oc_key_id c, oc_public_key c) \<in> advertised (pp_bundle p))"

lemma fetchable_default: "fetchable PreKeyRegistry_default"
  by (simp add: fetchable_def PreKeyRegistry_default_def)

lemma publish_version:
  "PreKeyPublication_validate P d now p = Ok u \<Longrightarrow>
     version_number (pb_protocol_version (pp_bundle p)) = PROTOCOL_VERSION"
  by (auto simp: PreKeyPublication_validate_def result_simps split: if_splits)

lemma publish_fetchable:
  assumes inv: "registry_inv P s" "fetchable s"
  shows "fetchable (snd (PreKeyRegistry_publish P expected p now s))"
proof -
  let ?d = "pb_device_id (pp_bundle p)"
  show ?thesis
  proof (cases "is_ok (fst (PreKeyRegistry_publish P expected p now s))")
    case False
    then have "snd (PreKeyRegistry_publish P expected p now s) = s"
      by (auto simp: PreKeyRegistry_publish_def Let_def split: sum.splits if_splits)
    with inv show ?thesis by simp
  next
    case True
    then have s': "snd (PreKeyRegistry_publish P expected p now s) =
        s\<lparr>rg_publications := (rg_publications s)(?d \<mapsto> p)\<rparr>"
      and version: "version_number (pb_protocol_version (pp_bundle p)) = PROTOCOL_VERSION"
      and newer: "\<And>old. rg_publications s ?d = Some old \<Longrightarrow> pp_generation old < pp_generation p"
      by (auto simp: PreKeyRegistry_publish_def Let_def dest: publish_version split: sum.splits if_splits)
    have "ck_generation k \<noteq> pp_generation p" if claim: "rg_claims s k = Some c" and "ck_device k = ?d" for k c
      using inv_claim_generation [OF inv(1) claim] newer that(2) by fastforce
    with inv(2) version show ?thesis
      unfolding s' fetchable_def by auto
  qed
qed

lemma found_advertised:
  "find (\<lambda>key. opk_key_id key = key_id) (pb_one_time_prekeys b) = Some key \<Longrightarrow>
     (key_id, opk_public_key key) \<in> advertised b"
  by (auto simp: find_Some_iff advertised_def intro!: image_eqI [of _ _ key])

lemma claim_fetchable:
  "fetchable s \<Longrightarrow> fetchable (snd (claim_opk recipient generation key_id claimant request now s))"
  by (auto simp: claim_opk_def fetchable_def Let_def found_advertised split: option.split)

lemma revoke_fetchable: "fetchable s \<Longrightarrow> fetchable (snd (PreKeyRegistry_revoke device generation now s))"
  by (auto simp: PreKeyRegistry_revoke_def fetchable_def split: option.split)

interpretation exchange: machine "registry_step P" "\<lambda>s. registry_inv P s \<and> fetchable s" for P
proof (unfold_locales, goal_cases)
  case (1 s op)
  then show ?case
    using registry.step_inv [of P s op]
    by (cases op) (simp_all add: publish_fetchable claim_fetchable revoke_fetchable)
qed

text \<open>A claim of the generation that is published names an advertised prekey.\<close>

lemma claimed_advertised:
  assumes "registry_inv P s" and "fetchable s" and "get_active d now s = Some p"
    and "claim_opk d (pp_generation p) key_id claimant request now s = (Ok c, s')"
  shows "oc_key_id c = key_id \<and> (key_id, oc_public_key c) \<in> advertised (pp_bundle p)"
proof -
  have p: "rg_publications s d = Some p"
    using assms(3) by (auto simp: get_active_def bind_eq_Some_conv split: if_splits)
  have "registry_inv P s'" "fetchable s'"
    using claim_inv [OF assms(4,1)] claim_fetchable [OF assms(2), of d "pp_generation p" key_id claimant request now]
      assms(4) by simp_all
  moreover have "rg_publications s' = rg_publications s"
    using assms(4) by (cases rule: claim_cases) simp_all
  moreover have "rg_claims s' \<lparr>ck_device = d, ck_generation = pp_generation p, ck_key_id = key_id\<rparr> = Some c"
    using assms(4) by (cases rule: claim_cases) simp_all
  ultimately show ?thesis
    using p inv_claim_key [of P s'] unfolding fetchable_def by (fastforce simp: claim_key_of_def)
qed

text \<open>What is active passes all checks of an initiator.\<close>

lemma active_initiates:
  assumes "registry_inv P s" and "fetchable s" and "get_active d now s = Some p"
    and "pred_option (\<lambda>entry. entry \<in> advertised (pp_bundle p)) opk"
  shows "case initiate P hkdf alice dev eph (pp_bundle p) (record_of (pp_bundle p)) opk of
      Err e \<Rightarrow> e = InvalidSharedSecret \<or> e = KeyDerivation
    | Ok i \<Rightarrow> is_peer_device_id i = d \<and> is_used_one_time_prekey_id i = map_option fst opk"
proof -
  have p: "rg_publications s d = Some p"
    using assms(3) by (auto simp: get_active_def bind_eq_Some_conv split: if_splits)
  then have ok: "publication_ok P d p" "version_number (pb_protocol_version (pp_bundle p)) = PROTOCOL_VERSION"
    using assms(1,2) inv_publication by (auto simp: fetchable_def)
  then have "ed_key_ok P (pb_identity_signing_key (pp_bundle p))"
    "SignedPrekeyRecord_verify P (pb_identity_signing_key (pp_bundle p)) (record_of (pp_bundle p))"
    by (simp_all add: publication_ok_def verify_signed_prekey_def SignedPrekeyRecord_verify_def
        SignedPrekeyRecord_signing_bytes_def record_of_def Let_def)
  with ok assms(4) have "e = InvalidSharedSecret \<or> e = KeyDerivation"
    if "initiate P hkdf alice dev eph (pp_bundle p) (record_of (pp_bundle p)) opk = Err e" for e
    using that
    by (cases opk)
      (auto simp: initiate_def publication_ok_def record_of_def result_simps Let_def advertised_def list_ex_iff
        split: if_splits)
  then show ?thesis
    using initiate_Ok(7,8) [of P hkdf alice dev eph "pp_bundle p" "record_of (pp_bundle p)" opk] ok(1)
    by (auto simp: publication_ok_def split: sum.split)
qed

section \<open>Property\<close>

text \<open>
  C9. Prekeys from the gateway establish sessions. Whatever was done to the registry, a device that
  fetches the active publication of another one and is granted a claim in its generation can
  initiate with both: the only errors left are a shared secret that is zero and a failing key
  derivation. And when the publication carries the keys of a responder that holds the claimed
  prekey, the responder - given the header the initiator sent - derives the same root and has
  consumed exactly this prekey.
\<close>

theorem published_prekeys_establish_sessions:
  assumes "primitives_lawful P" and "identity_ok P alice" and "identity_ok P bob" and "prekey_ok P spk"
    and "s = snd (run (registry_step P) ops PreKeyRegistry_default)"
    and "get_active d now s = Some p"
    and "fst (claim_opk d (pp_generation p) key_id claimant request now s) = Ok c"
    and "pb_identity_agreement_key (pp_bundle p) = agreement_public_key bob"
    and "pb_signed_prekey (pp_bundle p) = SignedPrekey_public_key spk"
    and "\<not> mx_poisoned store" and "bt_get (mx_value store) key_id = Some opk"
    and "opk_ok P opk" and "ot_key_id opk = key_id" and "OneTimePrekey_public_key opk = oc_public_key c"
  shows "case initiate P hkdf alice dev (InitiatorEphemeral_generate P secret) (pp_bundle p)
        (record_of (pp_bundle p)) (Some (oc_key_id c, oc_public_key c)) of
      Err e \<Rightarrow> e = InvalidSharedSecret \<or> e = KeyDerivation
    | Ok i \<Rightarrow> is_peer_device_id i = d \<and>
        respond_with_one_time_prekey_store P hkdf bob spk (Some (oc_key_id c, oc_public_key c)) d dev
          (si_identity_agreement_key (is_init i)) (si_ephemeral_public_key (is_init i)) store =
        (Ok \<lparr>rp_root = is_root i, rp_peer_device_id = dev, rp_used_one_time_prekey_id = Some key_id\<rparr>,
         store\<lparr>mx_value := bt_remove key_id (mx_value store)\<rparr>)"
proof -
  have inv: "registry_inv P s" "fetchable s"
    unfolding assms(5) using exchange.run_inv [of P] registry_inv_default fetchable_default by blast+
  obtain s' where "claim_opk d (pp_generation p) key_id claimant request now s = (Ok c, s')"
    using assms(7) by (metis prod.collapse)
  from claimed_advertised [OF inv assms(6) this]
  have c: "oc_key_id c = key_id" "pred_option (\<lambda>entry. entry \<in> advertised (pp_bundle p)) (Some (oc_key_id c, oc_public_key c))"
    by auto
  note accepted = active_initiates [OF inv assms(6) c(2), of hkdf alice dev "InitiatorEphemeral_generate P secret"]
  show ?thesis
  proof (cases "initiate P hkdf alice dev (InitiatorEphemeral_generate P secret) (pp_bundle p)
      (record_of (pp_bundle p)) (Some (oc_key_id c, oc_public_key c))")
    case (Inl e)
    with accepted show ?thesis
      by simp
  next
    case (Inr i)
    have opk: "pred_option (opk_ok P) (Some opk)"
      "pred_option (\<lambda>k. bt_get (mx_value store) (ot_key_id k) = Some k) (Some opk)"
      "map_option (\<lambda>k. (ot_key_id k, OneTimePrekey_public_key k)) (Some opk) = Some (oc_key_id c, oc_public_key c)"
      using assms(11-14) c(1) by simp_all
    note roots = respond_agrees [OF assms(1-4) opk(1) assms(8-10) opk(2), unfolded opk(3), OF Inr]
    have "si_one_time_prekey_id (is_init i) = Some key_id"
      using initiate_Ok(10) [OF Inr] c(1) by (simp add: Let_def)
    with roots accepted show ?thesis
      using Inr assms(13) by simp
  qed
qed

definition sample_published :: PreKeyPublication where
  "sample_published =
     \<lparr>pp_bundle = sample_bundle, pp_generation = 1, pp_issued_at_ms = 1000, pp_expires_at_ms = 2000,
      pp_signature = fill 1\<rparr>"

lemma sample_published_valid:
  "PreKeyPublication_validate sample_primitives (fill 7) 1500 sample_published = Ok ()"
proof -
  have "verify_signed_prekey sample_primitives sample_bundle"
    by (simp add: verify_signed_prekey_def sample_session_defs publishable_signed_prekey_def IdentityKey_sign_def
        sample_primitives_def Let_def)
  moreover have "verify_signature sample_primitives sample_published"
    by (simp add: verify_signature_def sample_published_def sample_primitives_def)
  ultimately show ?thesis
    using sample_bundle_valid
    by (simp add: PreKeyPublication_validate_def sample_published_def)
      (simp add: sample_bundle_def PROTOCOL_VERSION_def u64_saturating_add_def u64_saturating_sub_def
        REGISTRY_MAX_CLOCK_SKEW_MS_def MAX_LIFETIME_MS_def)
qed

theorem published_prekeys_establish_sessions_witness:
  "\<exists>c i. fst (claim_opk (fill 7) 1 9 (fill 8) (fill 1) 1500
        (snd (run (registry_step sample_primitives) [RegPublish (fill 7) sample_published 1500] PreKeyRegistry_default))) = Ok c \<and>
     initiate sample_primitives sample_hkdf sample_alice (fill 8) (InitiatorEphemeral_generate sample_primitives (fill 10))
       sample_bundle (record_of sample_bundle) (Some (9, oc_public_key c)) = Ok i \<and>
     fst (respond_with_one_time_prekey_store sample_primitives sample_hkdf sample_bob sample_spk
       (Some (9, oc_public_key c)) (fill 7) (fill 8) (si_identity_agreement_key (is_init i))
       (si_ephemeral_public_key (is_init i)) (mutex_new (bt_insert 9 sample_opk bt_empty))) =
     Ok \<lparr>rp_root = is_root i, rp_peer_device_id = fill 8, rp_used_one_time_prekey_id = Some 9\<rparr>"
proof -
  let ?s = "snd (run (registry_step sample_primitives) [RegPublish (fill 7) sample_published 1500] PreKeyRegistry_default)"
  have fields: "pb_device_id (pp_bundle sample_published) = fill 7" "pp_generation sample_published = 1"
    "pp_expires_at_ms sample_published = 2000" "pp_bundle sample_published = sample_bundle"
    "pb_one_time_prekeys sample_bundle = [\<lparr>opk_key_id = 9, opk_public_key = fill 6\<rparr>]"
    by (simp_all add: sample_published_def sample_bundle_def)
  have s: "?s = PreKeyRegistry_default\<lparr>rg_publications := [fill 7 \<mapsto> sample_published]\<rparr>"
    using sample_published_valid fields by (simp add: PreKeyRegistry_publish_def PreKeyRegistry_default_def)
  have active: "get_active (fill 7) 1500 ?s = Some sample_published"
    unfolding s by (simp add: get_active_def fields PreKeyRegistry_default_def)
  obtain c where c: "fst (claim_opk (fill 7) (pp_generation sample_published) 9 (fill 8) (fill 1) 1500 ?s) = Ok c"
      "oc_key_id c = 9" "oc_public_key c = fill 6"
    unfolding s by (simp add: claim_opk_def PreKeyRegistry_default_def Let_def fields)
  have same: "record_of sample_bundle = sample_record"
    by (simp add: record_of_def sample_session_defs publishable_signed_prekey_def Let_def)
  obtain i where i: "initiate sample_primitives sample_hkdf sample_alice (fill 8)
      (InitiatorEphemeral_generate sample_primitives (fill 10)) sample_bundle (record_of sample_bundle) (Some (9, fill 6)) = Ok i"
    using sample_initiate by (auto simp: same)
  have keys: "identity_ok sample_primitives sample_alice" "identity_ok sample_primitives sample_bob"
      "prekey_ok sample_primitives sample_spk"
      "pb_identity_agreement_key (pp_bundle sample_published) = agreement_public_key sample_bob"
      "pb_signed_prekey (pp_bundle sample_published) = SignedPrekey_public_key sample_spk"
      "opk_ok sample_primitives sample_opk" "ot_key_id sample_opk = 9" "OneTimePrekey_public_key sample_opk = oc_public_key c"
    by (simp_all add: sample_alice_def sample_bob_def sample_spk_def sample_opk_def fields c)
      (simp_all add: sample_session_defs)
  let ?store = "mutex_new (bt_insert 9 sample_opk bt_empty)"
  have store: "\<not> mx_poisoned ?store" "bt_get (mx_value ?store) 9 = Some sample_opk"
    by simp_all
  from published_prekeys_establish_sessions [OF sample_primitives_lawful keys(1-3) refl active c(1) keys(4,5) store keys(6-8),
      of sample_hkdf "fill 8" "fill 10"]
  show ?thesis
    using c i by (intro exI [of _ c] exI [of _ i]) (simp add: fields)
qed

end
