(* ===== verification/Envelope.thy ===== *)
theory Envelope
  imports Protocol
begin

text \<open>
  The crate \<open>core/envelope\<close>: the wire envelope, its validation and the additional authenticated
  data it binds a ciphertext to. The byte format of \<open>encode\<close> and \<open>decode\<close> is the postcard
  crate's, which is not part of the repository: its two functions are parameters here.
\<close>

section \<open>Envelopes\<close>

definition MAX_HEADER :: usize where
  "MAX_HEADER = 256"

definition ENVELOPE_MAX_CIPHERTEXT :: usize where
  "ENVELOPE_MAX_CIPHERTEXT = 1024 * 1024 * 16"

definition AAD_DOMAIN :: "u8 list" where
  "AAD_DOMAIN = byte_string ''M/ENVELOPE-AAD/v1''"

datatype EnvelopeError =
  EnvelopeDecode | UnsupportedVersion | HeaderTooLarge | CiphertextTooLarge | InvalidIds

record WireEnvelope =
  we_version :: ProtocolVersion
  we_message_id :: "16 arr"
  we_conversation_id :: "16 arr"
  we_sender_device_id :: "16 arr"
  we_recipient_device_id :: "16 arr"
  we_ratchet_header :: "u8 list"
  we_ciphertext :: "u8 list"
  we_sent_at_ms :: u64

definition WireEnvelope_from :: "EncryptedMessage \<Rightarrow> WireEnvelope" where
  "WireEnvelope_from m =
     \<lparr>we_version = em_version m, we_message_id = em_message_id m,
      we_conversation_id = em_conversation_id m, we_sender_device_id = em_sender_device_id m,
      we_recipient_device_id = em_recipient_device_id m,
      we_ratchet_header = em_ratchet_header m, we_ciphertext = em_ciphertext m,
      we_sent_at_ms = em_sent_at_ms m\<rparr>"

definition validate_metadata :: "WireEnvelope \<Rightarrow> EnvelopeError + unit" where
  "validate_metadata e =
     (if version_number (we_version e) \<noteq> PROTOCOL_VERSION then Err UnsupportedVersion
      else if MAX_HEADER < length (we_ratchet_header e) then Err HeaderTooLarge
      else if we_message_id e = fill 0 \<or> we_conversation_id e = fill 0 then Err InvalidIds
      else Ok ())"

definition WireEnvelope_validate :: "WireEnvelope \<Rightarrow> EnvelopeError + unit" where
  "WireEnvelope_validate e =
     and_then (validate_metadata e) (\<lambda>_.
     if we_ciphertext e = [] \<or> ENVELOPE_MAX_CIPHERTEXT < length (we_ciphertext e)
     then Err CiphertextTooLarge else Ok ())"

text \<open>\<open>to_allocvec\<close> and \<open>from_bytes\<close> are postcard's; \<open>None\<close> is their error.\<close>

definition WireEnvelope_encode ::
  "(WireEnvelope \<Rightarrow> u8 list option) \<Rightarrow> WireEnvelope \<Rightarrow> EnvelopeError + u8 list" where
  "WireEnvelope_encode to_allocvec e =
     and_then (WireEnvelope_validate e) (\<lambda>_. ok_or (to_allocvec e) EnvelopeDecode)"

definition WireEnvelope_decode ::
  "(u8 list \<Rightarrow> WireEnvelope option) \<Rightarrow> u8 list \<Rightarrow> EnvelopeError + WireEnvelope" where
  "WireEnvelope_decode from_bytes bs =
     and_then (ok_or (from_bytes bs) EnvelopeDecode) (\<lambda>value.
     and_then (WireEnvelope_validate value) (\<lambda>_. Ok value))"

definition WireEnvelope_aad :: "WireEnvelope \<Rightarrow> EnvelopeError + u8 list" where
  "WireEnvelope_aad e =
     and_then (validate_metadata e) (\<lambda>_.
     and_then (ok_or (u32_try_from (length (we_ratchet_header e))) HeaderTooLarge) (\<lambda>header_len.
     Ok (AAD_DOMAIN @ u16_to_be (version_number (we_version e)) @ bytes (we_message_id e) @
         bytes (we_conversation_id e) @ bytes (we_sender_device_id e) @
         bytes (we_recipient_device_id e) @ u32_to_be header_len @ we_ratchet_header e @
         u64_to_be (we_sent_at_ms e))))"

section \<open>What validation and the authenticated data say\<close>

lemma validate_metadata_Ok:
  "validate_metadata e = Ok () \<longleftrightarrow>
     version_number (we_version e) = PROTOCOL_VERSION \<and>
     length (we_ratchet_header e) \<le> MAX_HEADER \<and>
     we_message_id e \<noteq> fill 0 \<and> we_conversation_id e \<noteq> fill 0"
  by (auto simp: validate_metadata_def)

lemma WireEnvelope_validate_Ok:
  "WireEnvelope_validate e = Ok () \<longleftrightarrow>
     validate_metadata e = Ok () \<and>
     0 < length (we_ciphertext e) \<and> length (we_ciphertext e) \<le> ENVELOPE_MAX_CIPHERTEXT"
  by (auto simp: WireEnvelope_validate_def result_simps)

lemma aad_Ok:
  "WireEnvelope_aad e = Ok a \<longleftrightarrow>
     validate_metadata e = Ok () \<and>
     a = AAD_DOMAIN @ u16_to_be (version_number (we_version e)) @ bytes (we_message_id e) @
         bytes (we_conversation_id e) @ bytes (we_sender_device_id e) @
         bytes (we_recipient_device_id e) @
         u32_to_be (word_of_nat (length (we_ratchet_header e))) @ we_ratchet_header e @
         u64_to_be (we_sent_at_ms e)"
proof -
  have "u32_try_from (length (we_ratchet_header e)) =
      Some (word_of_nat (length (we_ratchet_header e)))" if "validate_metadata e = Ok ()"
    using that
    by (simp add: validate_metadata_Ok MAX_HEADER_def u32_try_from_def u32_MAX_nat_def)
  then show ?thesis
    by (auto simp: WireEnvelope_aad_def result_simps)
qed

text \<open>Two headers behind equal length prefixes and equal tails are equal.\<close>

lemma prefixed_header_inject:
  assumes "length h \<le> u32_MAX_nat" "length h' \<le> u32_MAX_nat"
    and eq: "u32_to_be (word_of_nat (length h)) @ h @ u64_to_be t =
             u32_to_be (word_of_nat (length h')) @ h' @ u64_to_be t'"
  shows "h = h' \<and> t = t'"
proof -
  have "(word_of_nat (length h) :: u32) = word_of_nat (length h')"
    and rest: "h @ u64_to_be t = h' @ u64_to_be t'"
    using eq by (simp_all add: append_inject_length)
  then have "length h = length h'"
    using assms(1,2) by (metis unat_length_u32)
  with rest show ?thesis
    by (simp add: append_inject_length)
qed

section \<open>Properties\<close>

text \<open>
  The authenticated data determines every envelope field but the ciphertext: two envelopes
  with the same authenticated data agree on version, identifiers, ratchet header and timestamp, so
  a ciphertext sealed under one can not be opened under different metadata.
\<close>

theorem aad_binds_metadata:
  assumes "WireEnvelope_aad e = Ok a" and "WireEnvelope_aad e' = Ok a"
  shows "e'\<lparr>we_ciphertext := we_ciphertext e\<rparr> = e"
proof -
  let ?tail = "\<lambda>e. u32_to_be (word_of_nat (length (we_ratchet_header e))) @
    we_ratchet_header e @ u64_to_be (we_sent_at_ms e)"
  have v: "validate_metadata e = Ok ()" "validate_metadata e' = Ok ()"
    and ids: "we_message_id e = we_message_id e'" "we_conversation_id e = we_conversation_id e'"
      "we_sender_device_id e = we_sender_device_id e'"
      "we_recipient_device_id e = we_recipient_device_id e'"
    and version: "version_number (we_version e) = version_number (we_version e')"
    and tail: "?tail e = ?tail e'"
    using assms by (auto simp: aad_Ok append_inject_length bytes_eq_iff)
  have "length (we_ratchet_header e) \<le> u32_MAX_nat" "length (we_ratchet_header e') \<le> u32_MAX_nat"
    using v by (simp_all add: validate_metadata_Ok MAX_HEADER_def u32_MAX_nat_def)
  from prefixed_header_inject [OF this tail]
  have "we_ratchet_header e = we_ratchet_header e'" "we_sent_at_ms e = we_sent_at_ms e'"
    by simp_all
  moreover have "we_version e = we_version e'"
    using version by (rule ProtocolVersion.expand)
  ultimately show ?thesis
    using ids by (cases e, cases e') simp
qed

definition sample_envelope :: WireEnvelope where
  "sample_envelope = WireEnvelope_from sample_message"

theorem aad_binds_metadata_witness:
  "\<exists>a. WireEnvelope_aad sample_envelope = Ok a \<and>
       (sample_envelope\<lparr>we_ciphertext := [9, 9]\<rparr>)\<lparr>we_ciphertext := we_ciphertext sample_envelope\<rparr> =
         sample_envelope"
proof -
  have "validate_metadata sample_envelope = Ok ()"
    by (simp add: validate_metadata_Ok sample_envelope_def WireEnvelope_from_def sample_message_def
        EncryptedMessage_new_def MAX_HEADER_def)
  then obtain a where a: "WireEnvelope_aad sample_envelope = Ok a"
    by (simp add: aad_Ok)
  then have "WireEnvelope_aad (sample_envelope\<lparr>we_ciphertext := [9, 9]\<rparr>) = Ok a"
    by (simp add: aad_Ok validate_metadata_Ok)
  with a show ?thesis
    using aad_binds_metadata by blast
qed

text \<open>
  Whatever bytes arrive, an envelope that decodes is within the limits: version 1, header of
  at most 256 bytes, non-empty ciphertext of at most 16 MiB, non-zero message and conversation ids;
  a postcard error and a wrong version are told apart from the other refusals.
\<close>

theorem envelope_decode_validates:
  "(case WireEnvelope_decode from_bytes bs of
      Ok e \<Rightarrow> version_number (we_version e) = PROTOCOL_VERSION \<and>
        length (we_ratchet_header e) \<le> 256 \<and> length (we_ciphertext e) \<in> {1 .. 16 * 1024 * 1024} \<and>
        we_message_id e \<noteq> fill 0 \<and> we_conversation_id e \<noteq> fill 0 \<and> from_bytes bs = Some e
    | Err UnsupportedVersion \<Rightarrow>
        \<exists>e. from_bytes bs = Some e \<and> version_number (we_version e) \<noteq> PROTOCOL_VERSION
    | Err EnvelopeDecode \<Rightarrow> from_bytes bs = None
    | Err _ \<Rightarrow> from_bytes bs \<noteq> None)"
  by (cases "from_bytes bs")
    (auto simp: WireEnvelope_decode_def WireEnvelope_validate_def validate_metadata_def
      MAX_HEADER_def ENVELOPE_MAX_CIPHERTEXT_def Suc_le_eq)

text \<open>
  Given that postcard reads back what it wrote, an envelope that encodes decodes to itself, and
  encoding is refused for exactly the envelopes validation refuses or postcard cannot write.
\<close>

theorem envelope_round_trip:
  assumes postcard: "\<And>e bs. to_allocvec e = Some bs \<Longrightarrow> from_bytes bs = Some e"
  shows "case WireEnvelope_encode to_allocvec e of
      Ok bs \<Rightarrow> WireEnvelope_decode from_bytes bs = Ok e
    | Err err \<Rightarrow> WireEnvelope_validate e = Err err \<or>
        (WireEnvelope_validate e = Ok () \<and> to_allocvec e = None \<and> err = EnvelopeDecode)"
  by (cases "WireEnvelope_validate e"; cases "to_allocvec e")
    (auto simp: WireEnvelope_encode_def WireEnvelope_decode_def dest: postcard)

theorem envelope_round_trip_witness:
  "let to_allocvec = (\<lambda>e. if e = sample_envelope then Some [7] else None);
       from_bytes = (\<lambda>bs. if bs = [7] then Some sample_envelope else None)
   in WireEnvelope_encode to_allocvec sample_envelope = Ok [7] \<and>
      WireEnvelope_decode from_bytes [7] = Ok sample_envelope"
proof -
  let ?to = "\<lambda>e. if e = sample_envelope then Some [7] else None"
  let ?from = "\<lambda>bs. if bs = [7] then Some sample_envelope else None"
  have "WireEnvelope_validate sample_envelope = Ok ()"
    by (simp add: WireEnvelope_validate_Ok validate_metadata_Ok sample_envelope_def
        WireEnvelope_from_def sample_message_def EncryptedMessage_new_def MAX_HEADER_def
        ENVELOPE_MAX_CIPHERTEXT_def)
  then have "WireEnvelope_encode ?to sample_envelope = Ok [7]"
    by (simp add: WireEnvelope_encode_def)
  moreover have "?from bs = Some e" if "?to e = Some bs" for e bs
    using that by (simp split: if_splits)
  note envelope_round_trip [of ?to ?from sample_envelope, OF this]
  ultimately show ?thesis
    by simp
qed

end
