(* ===== verification/Setup.thy ===== *)
theory Setup
  imports Concurrent
begin

text \<open>
  The set-up of a session - hello, registration, backlog, activation - when other tasks run in
  between: it takes a bounded number of events and is never stuck.
\<close>

section \<open>What a task leaves of the set-up\<close>

text \<open>Every result the task can have leaves at most \<open>n\<close> events, pulls being of at most 256 messages.\<close>

primrec leaves_setup :: "nat \<Rightarrow> ('r \<Rightarrow> nat) \<Rightarrow> 'r task \<Rightarrow> bool" where
  "leaves_setup n left (Finished r) = (left r \<le> n)"
| "leaves_setup n left (AwaitAuth q method path body k) = (\<forall>a. leaves_setup n left (k a))"
| "leaves_setup n left (AwaitPush now m k) = (\<forall>a. leaves_setup n left (k a))"
| "leaves_setup n left (AwaitPull now d k) =
     (\<forall>messages. length messages \<le> MAX_PER_DEVICE \<longrightarrow> leaves_setup n left (k messages))"
| "leaves_setup n left (AwaitAck d i k) = (\<forall>a. leaves_setup n left (k a))"
| "leaves_setup n left (AwaitPublish d p now k) = (\<forall>a. leaves_setup n left (k a))"
| "leaves_setup n left (AwaitActive d now k) = (\<forall>a. leaves_setup n left (k a))"
| "leaves_setup n left (AwaitRevoke d generation now k) = (\<forall>a. leaves_setup n left (k a))"
| "leaves_setup n left (AwaitClaim r generation key_id d request now k) = (\<forall>a. leaves_setup n left (k a))"
| "leaves_setup n left (AwaitNextId k) = (\<forall>a. leaves_setup n left (k a))"
| "leaves_setup n left (AwaitInsert d i k) = (\<forall>a. leaves_setup n left (k a))"
| "leaves_setup n left (AwaitUnregister d i k) = leaves_setup n left (k ())"
| "leaves_setup n left (AwaitTrySend d m k) = leaves_setup n left (k ())"
| "leaves_setup n left (AwaitActivate d i delivered k) = (\<forall>a. leaves_setup n left (k a))"

definition session_left :: "ws_session \<Rightarrow> nat" where
  "session_left session = setup_left (ss_phase session)"

definition result_left :: "ws_session option \<Rightarrow> nat" where
  "result_left r = (case r of None \<Rightarrow> 0 | Some session \<Rightarrow> session_left session)"

lemma leaves_map: "leaves_setup n left (map_task f t) \<longleftrightarrow> leaves_setup n (\<lambda>r. left (f r)) t"
  by (induction t) simp_all

lemma leaves_mono: "leaves_setup n left t \<Longrightarrow> n \<le> n' \<Longrightarrow> leaves_setup n' left t"
  by (induction t) auto

lemma leaves_resume:
  assumes "leaves_setup n left t" and "relay_inv (ap_relay s)"
  shows "leaves_setup n left (fst (resume E t s))"
  using assms by (cases t) (simp_all add: case_prod_beta pull_bounded)

lemma websocket_leaves: "leaves_setup (MAX_PER_DEVICE + 4) result_left (websocket_task q so)"
  by (simp add: websocket_task_def result_left_def session_left_def split: sum.split)

lemma end_leaves: "leaves_setup n session_left (end_task i session)"
  by (simp add: end_task_def session_left_def)

lemma or_end_leaves: "setup_left phase \<le> n \<Longrightarrow> leaves_setup n session_left (or_end_task result i phase session)"
  by (simp add: or_end_task_def Let_def end_leaves) (simp add: session_left_def)

lemma frame_leaves:
  "(\<And>r. leaves_setup n left (k r)) \<Longrightarrow> leaves_setup n left (frame_task now kind payload d so k)"
  by (cases kind) (auto simp: frame_task_def Let_def case_prod_beta split: sum.split PushResult.split)

lemma message_leaves:
  "(\<And>r. leaves_setup n left (k r)) \<Longrightarrow> leaves_setup n left (message_task now message d so k)"
  by (cases message) (auto simp: message_task_def case_prod_beta intro: frame_leaves split: sum.split)

text \<open>An event of the set-up leaves fewer events than before, any other event not more.\<close>

lemma event_leaves:
  "leaves_setup (if setup_due (ss_phase session) event then session_left session - 1 else session_left session)
     session_left (session_task event session)"
proof (cases "ss_phase session")
  case AwaitHello
  then show ?thesis
    by (cases event) (auto simp: session_left_def)
next
  case (Registered i c)
  then show ?thesis
    by (cases event) (auto simp: session_left_def intro!: or_end_leaves)
next
  case (Greeted i c)
  then show ?thesis
    by (cases event) (auto simp: session_left_def)
next
  case (SendingBacklog i c delivered backlog)
  then show ?thesis
    by (cases event; cases backlog) (auto simp: session_left_def intro!: or_end_leaves)
next
  case (Live i c t)
  show ?thesis
  proof (cases event)
    case (Inbound inbound now instant)
    with Live show ?thesis
      by (cases inbound) (auto simp: end_leaves Let_def session_left_def intro!: message_leaves)
  next
    case (Outbound received)
    with Live show ?thesis
      by (cases received) (auto simp: end_leaves intro!: or_end_leaves)
  qed (use Live in \<open>simp_all add: end_leaves session_left_def\<close>)
next
  case Ended
  then show ?thesis
    by (cases event) (simp_all add: session_left_def)
qed

lemma due_left: "setup_due (ss_phase session) event \<Longrightarrow> 0 < session_left session"
  by (cases "(ss_phase session, event)" rule: setup_due.cases) (simp_all add: session_left_def)

section \<open>Runs\<close>

text \<open>The events of the set-up of session \<open>n\<close>.\<close>

definition setup_event :: "nat \<Rightarrow> concurrent_op \<Rightarrow> concurrent \<Rightarrow> bool" where
  "setup_event n op c \<longleftrightarrow>
     (case op of
        Event m event \<Rightarrow> m = n \<and> n < length (cc_sessions c) \<and>
          (case rn_task (cc_sessions c ! n) of
             Finished (Some session) \<Rightarrow> setup_due (ss_phase session) event
           | _ \<Rightarrow> False)
      | _ \<Rightarrow> False)"

fun setup_events :: "gateway_env \<Rightarrow> nat \<Rightarrow> concurrent_op list \<Rightarrow> concurrent \<Rightarrow> nat" where
  "setup_events E n [] c = 0"
| "setup_events E n (op # ops) c =
     (if setup_event n op c then 1 else 0) + setup_events E n ops (snd (concurrent_step E op c))"

definition left_at_most :: "nat \<Rightarrow> nat \<Rightarrow> concurrent \<Rightarrow> bool" where
  "left_at_most n b c \<longleftrightarrow>
     (if n < length (cc_sessions c) then leaves_setup b result_left (rn_task (cc_sessions c ! n))
      else MAX_PER_DEVICE + 4 \<le> b)"

lemma event_left:
  assumes "left_at_most n b c"
  shows "left_at_most n (b - (if setup_event n (Event m event) c then 1 else 0)) (snd (concurrent_step E (Event m event) c)) \<and>
    (if setup_event n (Event m event) c then 0 < b else True)"
proof (cases "\<exists>session. m < length (cc_sessions c) \<and> rn_task (cc_sessions c ! m) = Finished (Some session)")
  case True
  then obtain session where s: "m < length (cc_sessions c)" "rn_task (cc_sessions c ! m) = Finished (Some session)"
    by blast
  show ?thesis
  proof (cases "m = n")
    case True
    have b: "session_left session \<le> b"
      using assms s True by (simp add: left_at_most_def result_left_def)
    have due: "setup_event n (Event m event) c \<longleftrightarrow> setup_due (ss_phase session) event"
      using s True by (simp add: setup_event_def)
    have "leaves_setup (b - (if setup_due (ss_phase session) event then 1 else 0)) session_left (session_task event session)"
      by (rule leaves_mono [OF event_leaves]) (use b in auto)
    then show ?thesis
      using s True b due_left [of session event] unfolding due
      by (auto simp: left_at_most_def leaves_map result_left_def simp del: session_task.simps)
  next
    case False
    with assms s show ?thesis
      by (simp add: left_at_most_def setup_event_def)
  qed
next
  case False
  then have "snd (concurrent_step E (Event m event) c) = c" "\<not> setup_event n (Event m event) c"
    by (auto simp: setup_event_def split: task.split option.split)
  with assms show ?thesis
    by simp
qed

lemma step_left_at_most:
  assumes "left_at_most n b c" and "relay_inv (ap_relay (cc_app c))"
  shows "left_at_most n (b - (if setup_event n op c then 1 else 0)) (snd (concurrent_step E op c)) \<and>
    (if setup_event n op c then 0 < b else True)"
proof (cases op)
  case (Event m event)
  from event_left [OF assms(1), of m event E] show ?thesis
    unfolding Event .
next
  case (Upgrade q fails)
  with assms(1) leaves_mono [OF websocket_leaves] show ?thesis
    by (auto simp: left_at_most_def setup_event_def nth_append spawn_def not_less less_Suc_eq)
next
  case (RunSession m)
  with assms leaves_resume [of b result_left "rn_task (cc_sessions c ! m)" "cc_app c" E] show ?thesis
    by (auto simp: left_at_most_def setup_event_def advance_def case_prod_beta nth_list_update)
qed (use assms in \<open>simp_all add: left_at_most_def setup_event_def case_prod_beta\<close>)

lemma step_relay_inv: "relay_inv (ap_relay (cc_app c)) \<Longrightarrow> relay_inv (ap_relay (cc_app (snd (concurrent_step E op c))))"
  using step_components [of E op c]
  by (cases "Option.bind (fst (concurrent_step E op c)) relay_call") (simp_all add: component_steps_def relay.step_inv)

lemma run_left_at_most:
  "left_at_most n b c \<Longrightarrow> relay_inv (ap_relay (cc_app c)) \<Longrightarrow> setup_events E n ops c \<le> b"
proof (induction ops arbitrary: b c)
  case (Cons op ops)
  from step_left_at_most [OF Cons.prems, of op E] Cons.IH [OF _ step_relay_inv [OF Cons.prems(2)]] show ?case
    by (cases "setup_event n op c") fastforce+
qed simp

section \<open>Property\<close>

text \<open>
  C19. The set-up of a session ends. In any run, whatever other tasks do between its calls and
  however sends fail, a session takes at most 260 events to go live or to end - the hello, the
  registration, the pull and at most 256 backlog messages - and until then it is never stuck: when
  it waits for an event, there is one that moves it on, and after an event it waits for the next
  one once it has made at most two calls (\<open>session_done\<close>).
\<close>

theorem concurrent_setup_terminates:
  "let sessions = cc_sessions (snd (run (concurrent_step E) ops concurrent_start))
   in setup_events E n ops concurrent_start \<le> 260 \<and>
      (if n < length sessions
       then (case rn_task (sessions ! n) of
               Finished None \<Rightarrow> True
             | Finished (Some session) \<Rightarrow>
                 (\<exists>i c t. ss_phase session = Live i c t) \<or> ss_phase session = Ended \<or>
                 (\<exists>event. setup_due (ss_phase session) event)
             | _ \<Rightarrow> True)
       else True)"
proof -
  have "setup_events E n ops concurrent_start \<le> 260"
    by (rule run_left_at_most)
      (simp_all add: left_at_most_def concurrent_start_def AppState_default_def relay_inv_default MAX_PER_DEVICE_def)
  moreover have "(\<exists>i c t. phase = Live i c t) \<or> phase = Ended \<or> (\<exists>event. setup_due phase event)" for phase
    by (cases phase) (auto intro: setup_due.simps [THEN iffD2])
  ultimately show ?thesis
    by (auto simp: Let_def split: task.split option.split)
qed

end
