(* ===== verification/Races.thy ===== *)
theory Races
  imports Dispatch
begin

text \<open>
  What tasks of the gateway can do to each other between two calls: a message whose handler is
  overtaken by the whole set-up of the recipient's session is delivered twice.
\<close>

section \<open>The end of a request that has been authenticated\<close>

definition after_push :: "EncryptedMessage \<Rightarrow> PushResult \<Rightarrow> gateway_answer task" where
  "after_push message result =
     (case result of
        Accepted \<Rightarrow>
          AwaitTrySend (em_recipient_device_id message) message (\<lambda>_. Finished (AnsStatus (Ok ACCEPTED)))
      | Duplicate \<Rightarrow> Finished (AnsStatus (Ok CONFLICT))
      | Invalid \<Rightarrow> Finished (AnsStatus (Ok BAD_REQUEST))
      | Full \<Rightarrow> Finished (AnsStatus (Ok TOO_MANY_REQUESTS)))"

lemma enqueue_authorized:
  assumes "authorize E q ''POST'' ''/v1/relay'' (hq_body q) s0 = (Ok d, s)"
    and "ge_json_message E (hq_body q) = Some m" and "em_sender_device_id m = d"
  shows "resume E (enqueue_task E q) s0 = (AwaitPush (hq_now_ms q) m (after_push m), s)"
  using assms by (simp add: enqueue_task_def Let_def after_push_def [abs_def])

section \<open>Property\<close>

text \<open>
  C31. The hand-over does not see every duplicate. Suppose the handler of a message is authorized and its
  push accepted, then the recipient's session is set up - it pulls the backlog, sends it and
  activates its connection - and only then the handler goes on: the session has sent the message
  with its backlog, and the message is passed to its channel all the same. \<open>activate\<close> leaves out
  duplicates only of messages that were waiting at that moment.
\<close>

theorem late_send_repeats_backlog:
  assumes "authorize E q ''POST'' ''/v1/relay'' (hq_body q) s0 = (Ok (em_sender_device_id m), s1)"
    and "ge_json_message E (hq_body q) = Some m" and "relay_inv (ap_relay s1)"
    and "fst (RelayStore_push (hq_now_ms q) m (ap_relay s1)) = Accepted"
    and "resume E (enqueue_task E q) s0 = (t1, s1)" and "resume E t1 s1 = (t2, s2)"
    and "ss_device session = em_recipient_device_id m" and "ss_phase session = AwaitHello"
    and "works (ss_socket session)" and "ws_accepts_hello (ss_device session) (Some first)"
    and "now < u64_saturating_add (hq_now_ms q) OFFLINE_TTL_MS"
    and "fst (RelayStore_pull now (ss_device session) (ap_relay s2)) = backlog"
    and "fold session_step ([FirstMessage (Some first), Greet, PullBacklog now] @
           replicate (length backlog + 1) (SendNext t)) (session, s2) = (session', s3)"
    and "resume E t2 s3 = (t3, s4)"
  shows "t3 = Finished (AnsStatus (Ok ACCEPTED)) \<and>
    (\<exists>i c frame. ss_phase session' = Live i c t \<and> frame \<in> set (so_sent (ss_socket session')) \<and>
       read_message frame = Some m \<and> m \<in> set (cr_sends (ap_connections s4) c))"
proof -
  let ?d = "em_recipient_device_id m"
  have t1: "t1 = AwaitPush (hq_now_ms q) m (after_push m)"
    using enqueue_authorized [OF assms(1,2) refl] assms(5) by simp
  obtain g where push: "RelayStore_push (hq_now_ms q) m (ap_relay s1) = (Accepted, g)"
    using assms(4) by (metis prod.collapse)
  then have t2: "t2 = AwaitTrySend ?d m (\<lambda>_. Finished (AnsStatus (Ok ACCEPTED)))" and s2: "s2 = s1\<lparr>ap_relay := g\<rparr>"
    using assms(6) by (simp_all add: t1 after_push_def)
  have inv: "relay_inv (ap_relay s2)"
    using push_inv [OF assms(3) push] by (simp add: s2)
  have "accept (hq_now_ms q) m \<in> set (held ?d g)"
    using assms(3) push by (cases rule: push_cases) auto
  then have "accept (hq_now_ms q) m \<in> set (live now (held ?d g))"
    using assms(11) by (simp add: accept_def)
  then have "sm_message (accept (hq_now_ms q) m) \<in> sm_message ` set (live now (held ?d g))"
    by (rule imageI)
  moreover have "backlog = map sm_message (live now (held ?d g))"
    using pull_held [OF inv, of now ?d] assms(7,12) by (simp add: s2)
  ultimately have "sm_message (accept (hq_now_ms q) m) \<in> set backlog"
    by simp
  then have "m \<in> set backlog"
    by (simp add: accept_def)
  moreover obtain i c hello frames where live: "ss_phase session' = Live i c t"
      "cr_inner (ap_connections s3) ?d = Some \<lparr>cs_id = i, cs_sender = c, cs_ready = True, cs_pending = []\<rparr>"
      "so_sent (ss_socket session') = so_sent (ss_socket session) @ hello # frames"
      "map read_message frames = map Some backlog"
    using session_goes_live [OF inv assms(8-10,12,13)] assms(7) by auto
  ultimately have "Some m \<in> read_message ` set frames"
    by (metis image_eqI list.set_map)
  then obtain frame where "frame \<in> set frames" "read_message frame = Some m"
    by force
  moreover have "t3 = Finished (AnsStatus (Ok ACCEPTED))" "m \<in> set (cr_sends (ap_connections s4) c)"
    using assms(14) live(2) by (auto simp: t2 try_send_def sender_try_send_def)
  ultimately show ?thesis
    using live(1,3) by auto
qed

definition note_env :: gateway_env where
  "note_env = sample_env\<lparr>ge_json_message := (\<lambda>_. Some sample_note)\<rparr>"

lemma note_authorize:
  "fst (authorize note_env sample_post verb url body AppState_default) = Ok (fill 1)"
  using sample_authorize [of verb url body]
  by (simp add: authorize_def note_env_def gateway_start_def case_prod_beta)

theorem late_send_repeats_backlog_witness:
  "\<exists>t1 s1 t2 s2 session' s3 t3 s4 backlog i c.
     resume note_env (enqueue_task note_env sample_post) AppState_default = (t1, s1) \<and>
     resume note_env t1 s1 = (t2, s2) \<and>
     fst (RelayStore_pull 2000 (fill 1) (ap_relay s2)) = backlog \<and>
     fold session_step ([FirstMessage (Some (sample_hello (fill 1))), Greet, PullBacklog 2000] @
         replicate (length backlog + 1) (SendNext 7))
       (\<lparr>ss_device = fill 1, ss_socket = \<lparr>so_sent = [], so_attempts = 0, so_fails = (\<lambda>_. False)\<rparr>,
         ss_phase = AwaitHello\<rparr>, s2) = (session', s3) \<and>
     resume note_env t2 s3 = (t3, s4) \<and> ss_phase session' = Live i c 7 \<and>
     Some sample_note \<in> read_message ` set (so_sent (ss_socket session')) \<and>
     sample_note \<in> set (cr_sends (ap_connections s4) c)"
proof -
  let ?session = "\<lparr>ss_device = fill 1, ss_socket = \<lparr>so_sent = [], so_attempts = 0, so_fails = (\<lambda>_. False)\<rparr>,
    ss_phase = AwaitHello\<rparr>"
  obtain s1 where auth: "authorize note_env sample_post ''POST'' ''/v1/relay'' (hq_body sample_post) AppState_default =
      (Ok (fill 1), s1)"
    using note_authorize by (metis prod.collapse)
  then have s1: "ap_relay s1 = RelayStore_default"
    by (auto simp: authorize_def AppState_default_def split: prod.splits)
  have json: "ge_json_message note_env (hq_body sample_post) = Some sample_note"
    by (simp add: note_env_def)
  have now: "hq_now_ms sample_post = 1000"
    by (simp add: sample_post_def)
  note first = enqueue_authorized [OF auth json sample_note_fields(1)]
  obtain t2 s2 where second: "resume note_env (AwaitPush (hq_now_ms sample_post) sample_note (after_push sample_note)) s1 = (t2, s2)"
    by fastforce
  obtain backlog where backlog: "fst (RelayStore_pull 2000 (ss_device ?session) (ap_relay s2)) = backlog"
    by blast
  obtain session' s3 where third: "fold session_step ([FirstMessage (Some (sample_hello (fill 1))), Greet, PullBacklog 2000] @
      replicate (length backlog + 1) (SendNext 7)) (?session, s2) = (session', s3)"
    by (metis prod.exhaust)
  obtain t3 s4 where fourth: "resume note_env t2 s3 = (t3, s4)"
    by fastforce
  have inv: "relay_inv (ap_relay s1)"
    using relay_inv_default by (simp add: s1)
  have push: "fst (RelayStore_push (hq_now_ms sample_post) sample_note (ap_relay s1)) = Accepted"
    using sample_note_accepted by (simp add: s1 now)
  have later: "(2000 :: u64) < u64_saturating_add (hq_now_ms sample_post) OFFLINE_TTL_MS"
    by (simp add: now u64_saturating_add_def OFFLINE_TTL_MS_def)
  have session: "ss_device ?session = em_recipient_device_id sample_note" "ss_phase ?session = AwaitHello"
      "works (ss_socket ?session)" "ws_accepts_hello (ss_device ?session) (Some (sample_hello (fill 1)))"
    using sample_hello_accepted by (simp_all add: works_def)
  have auth': "authorize note_env sample_post ''POST'' ''/v1/relay'' (hq_body sample_post) AppState_default =
      (Ok (em_sender_device_id sample_note), s1)"
    using auth by simp
  have "t3 = Finished (AnsStatus (Ok ACCEPTED)) \<and>
    (\<exists>i c frame. ss_phase session' = Live i c 7 \<and> frame \<in> set (so_sent (ss_socket session')) \<and>
      read_message frame = Some sample_note \<and> sample_note \<in> set (cr_sends (ap_connections s4) c))"
    using late_send_repeats_backlog [OF auth' json inv push first second session later backlog third fourth]
    by simp
  then obtain i c frame where "ss_phase session' = Live i c 7" "frame \<in> set (so_sent (ss_socket session'))"
      "read_message frame = Some sample_note" "sample_note \<in> set (cr_sends (ap_connections s4) c)"
    by blast
  moreover from this have "Some sample_note \<in> read_message ` set (so_sent (ss_socket session'))"
    by (metis image_eqI)
  ultimately have last: "ss_phase session' = Live i c 7 \<and>
      Some sample_note \<in> read_message ` set (so_sent (ss_socket session')) \<and>
      sample_note \<in> set (cr_sends (ap_connections s4) c)"
    by simp
  show ?thesis
    by (rule exI)+ (rule conjI [OF first conjI [OF second conjI [OF backlog [simplified]
      conjI [OF third conjI [OF fourth last]]]]])
qed

end
