(* ===== verification/Backlog.thy ===== *)
theory Backlog
  imports Setup Races
begin

text \<open>
  The backlog of a session when other tasks run in between: once its pull has answered, the session
  sends the messages it was given, in order, whatever happens to the shared state meanwhile.
\<close>

section \<open>What a task sends\<close>

text \<open>What has been sent stays sent.\<close>

definition extends :: "socket \<Rightarrow> socket \<Rightarrow> bool" where
  "extends so so' \<longleftrightarrow> prefix (so_sent so) (so_sent so')"

lemma extends_send [simp]:
  "extends so so"
  "extends so (snd (socket_send w so))"
  "extends so (ws_close so)"
  "extends so (snd (send_frame kind flags payload so))"
  "extends so (snd (send_encrypted m so))"
  by (auto simp: extends_def socket_send_def ws_close_def send_frame_def send_encrypted_def Let_def split: sum.split)

text \<open>
  The state of a session that was given \<open>backlog\<close> when it had sent \<open>base\<close>, after \<open>k\<close> sends: what it
  still has to send is the rest, and what it has sent reads as the first \<open>k\<close> messages.
\<close>

definition sends_as :: "ws_message list \<Rightarrow> EncryptedMessage list \<Rightarrow> socket \<Rightarrow> bool" where
  "sends_as base messages so \<longleftrightarrow>
     (\<exists>frames. prefix (base @ frames) (so_sent so) \<and> map read_message frames = map Some messages)"

definition sending :: "ws_message list \<Rightarrow> EncryptedMessage list \<Rightarrow> nat \<Rightarrow> ws_session \<Rightarrow> bool" where
  "sending base backlog k session \<longleftrightarrow>
     (case ss_phase session of
        SendingBacklog i c delivered rest \<Rightarrow>
          k \<le> length backlog \<and> rest = drop k backlog \<and> works (ss_socket session) \<and>
          (\<exists>frames. so_sent (ss_socket session) = base @ frames \<and>
             map read_message frames = map Some (take k backlog))
      | Live i c t \<Rightarrow> sends_as base backlog (ss_socket session)
      | Ended \<Rightarrow> sends_as base backlog (ss_socket session)
      | _ \<Rightarrow> False)"

lemma sends_as_extends: "sends_as base messages so \<Longrightarrow> extends so so' \<Longrightarrow> sends_as base messages so'"
  unfolding sends_as_def extends_def using prefix_order.trans by blast

lemma sends_as_take: "sends_as base messages so \<Longrightarrow> sends_as base (take k messages) so"
  unfolding sends_as_def
proof (elim exE conjE)
  fix frames
  assume "prefix (base @ frames) (so_sent so)" "map read_message frames = map Some messages"
  moreover have "prefix (base @ take k frames) (base @ frames)"
    by (simp add: take_is_prefix)
  then have "prefix (base @ take k frames) (so_sent so)"
    using calculation(1) by (rule prefix_order.trans)
  ultimately have "prefix (base @ take k frames) (so_sent so) \<and>
      map read_message (take k frames) = map Some (take k messages)"
    by (simp add: take_map [symmetric])
  then show "\<exists>frames. prefix (base @ frames) (so_sent so) \<and>
      map read_message frames = map Some (take k messages)" ..
qed

lemma sending_sent: "sending base backlog k session \<Longrightarrow> sends_as base (take k backlog) (ss_socket session)"
  by (auto simp: sending_def sends_as_take split: ws_phase.splits) (auto simp: sends_as_def)

lemma end_sends: "pred_task Q (end_task i session) \<longleftrightarrow> Q (session\<lparr>ss_phase := Ended\<rparr>)"
  by (simp add: end_task_def)

lemma or_end_sends:
  "pred_task Q (or_end_task result i phase session) \<longleftrightarrow>
     Q (session\<lparr>ss_socket := snd result, ss_phase := (if is_ok (fst result) then phase else Ended)\<rparr>)"
  by (simp add: or_end_task_def end_sends Let_def)

lemma frame_sends:
  assumes "\<And>r so'. extends so so' \<Longrightarrow> pred_task Q (k (r, so'))"
  shows "pred_task Q (frame_task now kind payload d so k)"
proof (cases kind)
  case Ping
  with assms extends_send(4) [of so Pong 0 payload] show ?thesis
    by (cases "send_frame Pong 0 payload so") (auto simp: frame_task_def split: sum.split)
qed (use assms in \<open>auto simp: frame_task_def Let_def split: sum.split PushResult.split\<close>)

lemma message_sends:
  assumes "\<And>r so'. extends so so' \<Longrightarrow> pred_task Q (k (r, so'))"
  shows "pred_task Q (message_task now message d so k)"
proof (cases message)
  case (WsPing bs)
  with assms extends_send(2) [of so "WsPong bs"] show ?thesis
    by (cases "socket_send (WsPong bs) so") (auto simp: message_task_def split: sum.split)
qed (use assms in \<open>auto simp: message_task_def intro: frame_sends split: sum.split\<close>)

text \<open>An event of the set-up is one more send, until all are sent.\<close>

lemma sending_next:
  assumes "sending base backlog k session" and "ss_phase session = SendingBacklog i c delivered (m # rest)"
    and "list_all valid_message backlog"
  shows "\<exists>so'. send_encrypted m (ss_socket session) = (Ok (), so') \<and>
    sending base backlog (Suc k) (session\<lparr>ss_socket := so', ss_phase := SendingBacklog i c delivered rest\<rparr>)"
proof -
  obtain frames where k: "m # rest = drop k backlog" "works (ss_socket session)"
      "so_sent (ss_socket session) = base @ frames" "map read_message frames = map Some (take k backlog)"
    using assms(1,2) by (auto simp: sending_def)
  have k_less: "k < length backlog"
    using k(1) by (metis drop_all linorder_not_le list.distinct(1))
  then have "k < length backlog" "backlog ! k = m" "drop (Suc k) backlog = rest"
    using Cons_nth_drop_Suc [OF k_less] k(1) by (metis list.inject)+
  moreover from this assms(3) have "valid_message m"
    by (auto simp: list_all_length)
  then obtain w so' where "send_encrypted m (ss_socket session) = (Ok (), so')" "works so'"
      "so_sent so' = so_sent (ss_socket session) @ [w]" "read_message w = Some m"
    using k(2) by (metis works_encrypted)
  ultimately show ?thesis
    using k by (intro exI [of _ so'])
      (auto simp: sending_def take_Suc_conv_app_nth intro!: exI [of _ "frames @ [w]"])
qed

lemma event_sends:
  assumes "sending base backlog k session" and "list_all valid_message backlog"
  shows "pred_task (sending base backlog (if setup_due (ss_phase session) event then Suc k else k))
    (session_task event session)"
proof (cases "ss_phase session")
  case (SendingBacklog i c delivered rest)
  show ?thesis
  proof (cases event)
    case (SendNext t)
    show ?thesis
    proof (cases rest)
      case Nil
      with assms(1) SendingBacklog have "sends_as base backlog (ss_socket session)"
        by (auto simp: sending_def sends_as_def)
      then have "sending base backlog (Suc k) (session\<lparr>ss_phase := if active then Live i c t else Ended\<rparr>)" for active
        by (simp add: sending_def)
      with Nil SendNext SendingBacklog show ?thesis
        by simp
    next
      case (Cons m rest')
      with sending_next [OF assms(1) _ assms(2), of i c delivered m rest'] SendingBacklog SendNext show ?thesis
        by (auto simp: or_end_sends)
    qed
  qed (use assms SendingBacklog in \<open>simp_all split: list.split\<close>)
next
  case (Live i c t)
  then have sent: "sends_as base backlog (ss_socket session)"
    using assms(1) by (simp add: sending_def)
  show ?thesis
  proof (cases event)
    case (Inbound inbound now instant)
    with Live sent show ?thesis
      by (cases inbound)
        (auto simp: end_sends sending_def Let_def intro!: message_sends intro: sends_as_extends)
  next
    case (Outbound received)
    with Live sent show ?thesis
      by (cases received) (auto simp: end_sends or_end_sends sending_def intro: sends_as_extends)
  qed (use Live assms(1) sent in \<open>auto simp: end_sends sending_def intro: sends_as_extends\<close>)
next
  case Ended
  with assms(1) show ?thesis
    by (cases event) simp_all
qed (use assms(1) in \<open>simp_all add: sending_def\<close>)

section \<open>Runs\<close>

definition result_sending :: "ws_message list \<Rightarrow> EncryptedMessage list \<Rightarrow> nat \<Rightarrow> ws_session option \<Rightarrow> bool" where
  "result_sending base backlog k r = (case r of None \<Rightarrow> False | Some session \<Rightarrow> sending base backlog k session)"

definition sending_at :: "nat \<Rightarrow> ws_message list \<Rightarrow> EncryptedMessage list \<Rightarrow> nat \<Rightarrow> concurrent \<Rightarrow> bool" where
  "sending_at n base backlog k c \<longleftrightarrow>
     n < length (cc_sessions c) \<and> pred_task (result_sending base backlog k) (rn_task (cc_sessions c ! n))"

lemma result_sending_Some [simp]: "result_sending base backlog k (Some session) = sending base backlog k session"
  by (simp add: result_sending_def)

lemma pred_resume: "pred_task Q t \<Longrightarrow> pred_task Q (fst (resume E t s))"
  by (cases t) (simp_all add: case_prod_beta)

lemma step_sending_at:
  assumes "sending_at n base backlog k c" and valid: "list_all valid_message backlog"
  shows "sending_at n base backlog (if setup_event n op c then Suc k else k) (snd (concurrent_step E op c))"
proof (cases op)
  case (Event m event)
  show ?thesis
  proof (cases "m = n")
    case False
    then show ?thesis
      using assms(1) unfolding Event
      by (auto simp: sending_at_def setup_event_def simp del: session_task.simps split: task.split option.split)
  next
    case True
    show ?thesis
    proof (cases "\<exists>session. rn_task (cc_sessions c ! n) = Finished (Some session)")
      case True
      then obtain session where "rn_task (cc_sessions c ! n) = Finished (Some session)"
        by blast
      with assms(1) \<open>m = n\<close> event_sends [OF _ valid, of base k session event] show ?thesis
        unfolding Event
        by (simp add: sending_at_def setup_event_def task.pred_map comp_def del: session_task.simps)
    next
      case False
      with assms(1) \<open>m = n\<close> show ?thesis
        unfolding Event by (auto simp: setup_event_def split: task.split option.split)
    qed
  qed
next
  case (Upgrade q fails)
  with assms(1) show ?thesis
    by (auto simp: sending_at_def setup_event_def nth_append)
next
  case (RunSession m)
  with assms(1) show ?thesis
    by (auto simp: sending_at_def setup_event_def advance_def case_prod_beta nth_list_update intro: pred_resume)
qed (use assms in \<open>simp_all add: sending_at_def setup_event_def case_prod_beta\<close>)

lemma run_sending_at:
  "sending_at n base backlog k c \<Longrightarrow> list_all valid_message backlog \<Longrightarrow>
   sending_at n base backlog (k + setup_events E n ops c) (snd (run (concurrent_step E) ops c))"
proof (induction ops arbitrary: k c)
  case (Cons op ops)
  from Cons.IH [OF step_sending_at [OF Cons.prems, of op E] Cons.prems(2)] show ?case
    by (simp split: if_splits)
qed simp

lemma pull_valid: "relay_inv g \<Longrightarrow> list_all valid_message (fst (RelayStore_pull now d g))"
  using live_queue_ok [of g d now] pull_held [of g now d]
  by (auto simp: list_all_iff queue_ok_def live_queue_held)

lemma concurrent_relay_inv: "relay_inv (ap_relay (cc_app (snd (run (concurrent_step E) ops concurrent_start))))"
  unfolding run_components(1)
  by (rule relay.run_inv) (simp add: concurrent_start_def AppState_default_def relay_inv_default)

lemma pull_sending:
  assumes "n < length (cc_sessions c)"
    and "rn_task (cc_sessions c ! n) = map_task Some (session_task (PullBacklog now) session)"
    and "ss_phase session = Greeted i ch" and "works (ss_socket session)"
  shows "sending_at n (so_sent (ss_socket session))
    (fst (RelayStore_pull now (ss_device session) (ap_relay (cc_app c)))) 0 (snd (concurrent_step E (RunSession n) c))"
  using assms by (simp add: sending_at_def advance_def case_prod_beta sending_def)

section \<open>A sample run\<close>

text \<open>
  A second device, whose headers are all 07, and a gateway at which both devices authenticate. Device
  07 is about to pull its backlog when a message from device 01 has just been stored for it and the
  handler of that message still has to look at the connections.
\<close>

definition peer_headers :: header_map where
  "peer_headers name = Some (Text
     (if name = H_TIMESTAMP then ''1000''
      else if name = H_SIGNATURE then concat (replicate 64 ''01'')
      else if name = H_PUBLIC_KEY then concat (replicate 32 ''07'')
      else concat (replicate 16 ''07'')))"

definition peer_post :: http_request where
  "peer_post = sample_post\<lparr>hq_headers := peer_headers\<rparr>"

definition link_env :: "EncryptedMessage \<Rightarrow> gateway_env" where
  "link_env m = sample_env\<lparr>ge_sha256 := (\<lambda>bs. fill (last (0 # bs))), ge_json_message := (\<lambda>_. Some m)\<rparr>"

lemma hex_sevens: "hex_pairs (byte_string (concat (replicate n ''07''))) = Some (replicate n 7)"
  by (induction n) (simp_all add: byte_string_def hex_nibble_def)

lemma length_sevens [simp]: "length (concat (replicate n ''07'')) = 2 * n"
  by (induction n) simp_all

lemma take_fill: "take 16 (bytes (fill b :: 32 arr)) = bytes (fill b :: 16 arr)"
  by (simp add: min_def)

lemma last_fill: "last (0 # xs @ bytes (fill b :: 32 arr)) = b"
  by (simp add: last_append)

lemma link_verify:
  assumes "aq_headers q = (if own then sample_headers else peer_headers)" and "aq_now_ms q = 1000"
  shows "verify_request sample_primitives (\<lambda>bs. fill (last (0 # bs))) q =
    Ok (fill (if own then 1 else 7), fill (if own then 1 else 7))"
proof -
  have "(arr (replicate 16 b) :: 16 arr) = fill b" "(arr (replicate 32 b) :: 32 arr) = fill b"
    "(arr (replicate 64 b) :: 64 arr) = fill b" for b
    using arr_replicate [where 'n = 16] arr_replicate [where 'n = 32] arr_replicate [where 'n = 64]
    by simp_all
  moreover have "parse_u64 ''1000'' = Some 1000"
    by (simp add: parse_u64_def decimal_value_def is_digit_def)
  moreover have "device_id_from_public_key (\<lambda>bs. fill (last (0 # bs))) (fill b) = fill b" for b
    unfolding device_id_from_public_key_def Let_def last_fill take_fill by (rule arr_bytes)
  ultimately show ?thesis
    using assms by (cases own) (simp_all add: verify_request_def parse_hex_def header_def sample_headers_def peer_headers_def
        H_TIMESTAMP_def H_SIGNATURE_def H_PUBLIC_KEY_def H_DEVICE_ID_def H_NONCE_def hex_ones hex_sevens
        Let_def u64_saturating_add_def u64_saturating_sub_def
        AUTH_MAX_CLOCK_SKEW_MS_def)
qed

lemma link_authorize:
  obtains s1 a2 where
    "authorize (link_env m) sample_post ''POST'' ''/v1/relay'' (hq_body sample_post) AppState_default = (Ok (fill 1), s1)"
    "s1 = AppState_default\<lparr>ap_auth := ap_auth s1\<rparr>"
    "\<forall>s :: AppState. ap_auth s = ap_auth s1 \<longrightarrow>
       authorize (link_env m) peer_post ''GET'' ''/v1/ws'' [] s = (Ok (fill 7), s\<lparr>ap_auth := a2\<rparr>)"
proof -
  let ?sha = "\<lambda>bs. fill (last (0 # bs)) :: 32 arr"
  let ?q = "\<lparr>aq_now_ms = hq_auth_now_ms sample_post, aq_instant = hq_instant sample_post,
    aq_headers = hq_headers sample_post, aq_method = ''POST'', aq_path = ''/v1/relay'', aq_body = hq_body sample_post\<rparr>"
  let ?p = "\<lparr>aq_now_ms = hq_auth_now_ms peer_post, aq_instant = hq_instant peer_post,
    aq_headers = hq_headers peer_post, aq_method = ''GET'', aq_path = ''/v1/ws'', aq_body = []\<rparr>"
  obtain a1 where a1: "authenticate sample_primitives ?sha ?q AuthState_default = (Ok (fill 1), a1)"
      "nonce_queue a1 (fill 7) = []" "ai_rates a1 (fill 7) = None"
    using link_verify [of ?q True]
    by (simp add: authenticate_def admit_def AuthState_default_def nonce_queue_def Let_def
        RATE_LIMIT_PER_DEVICE_def RATE_WINDOW_def sample_post_def)
  obtain a2 where a2: "authenticate sample_primitives ?sha ?p a1 = (Ok (fill 7), a2)"
    using link_verify [of ?p False] a1(2,3)
    by (simp add: authenticate_def admit_def Let_def nonce_queue_def
        RATE_LIMIT_PER_DEVICE_def RATE_WINDOW_def sample_post_def peer_post_def)
  show thesis
    by (rule that [of "AppState_default\<lparr>ap_auth := a1\<rparr>" a2])
      (use a1(1) a2 in \<open>simp_all add: authorize_def link_env_def sample_env_def AppState_default_def\<close>)
qed


definition link_before :: "concurrent_op list" where
  "link_before =
     [Arrive (OpEnqueue sample_post), RunRequest 0, RunRequest 0,
      Upgrade peer_post (\<lambda>_. False), RunSession 0,
      Event 0 (FirstMessage (Some (sample_hello (fill 7)))), RunSession 0, RunSession 0, Event 0 Greet,
      Event 0 (PullBacklog 2000)]"

lemma link_pulling:
  assumes "em_sender_device_id m = fill 1" and "em_recipient_device_id m = fill 7"
    and push: "RelayStore_push 1000 m RelayStore_default = (Accepted, g)"
  obtains c session i ch hello outs where
    "run (concurrent_step (link_env m)) link_before concurrent_start = (outs, c)"
    "cc_sessions c = [\<lparr>rn_who = Some (fill 7), rn_task = map_task Some (session_task (PullBacklog 2000) session)\<rparr>]"
    "ss_phase session = Greeted i ch" "works (ss_socket session)" "ss_device session = fill 7"
    "so_sent (ss_socket session) = [hello]" "ap_relay (cc_app c) = g"
    "List.map_filter id outs = [(None, CallAuth sample_post ''POST'' ''/v1/relay'' (hq_body sample_post)),
       (Some (fill 1), CallRelay (RPush 1000 m)), (None, CallAuth peer_post ''GET'' ''/v1/ws'' []),
       (Some (fill 7), CallConnection CNextId), (Some (fill 7), CallConnection (CInsert (fill 7) i))]"
proof -
  let ?E = "link_env m"
  obtain s1 a2 where auth: "authorize ?E sample_post ''POST'' ''/v1/relay'' (hq_body sample_post) AppState_default = (Ok (fill 1), s1)"
    and s1: "s1 = AppState_default\<lparr>ap_auth := ap_auth s1\<rparr>"
    and peer: "\<forall>s :: AppState. ap_auth s = ap_auth s1 \<longrightarrow>
       authorize ?E peer_post ''GET'' ''/v1/ws'' [] s = (Ok (fill 7), s\<lparr>ap_auth := a2\<rparr>)"
    by (rule link_authorize [where m = m])
  have json: "ge_json_message ?E (hq_body sample_post) = Some m"
    by (simp add: link_env_def)
  have now: "hq_now_ms sample_post = 1000"
    by (simp add: sample_post_def)
  have relay: "ap_relay s1 = RelayStore_default"
    by (subst s1) (simp add: AppState_default_def)
  let ?r0 = "spawn (enqueue_task ?E sample_post)"
  let ?r1 = "\<lparr>rn_who = Some (fill 1), rn_task = AwaitPush 1000 m (after_push m)\<rparr>"
  let ?r2 = "\<lparr>rn_who = Some (fill 1), rn_task = after_push m Accepted\<rparr>"
  let ?so = "\<lparr>so_sent = [], so_attempts = 0, so_fails = (\<lambda>_. False)\<rparr>"
  let ?session = "\<lparr>ss_device = fill 7, ss_socket = ?so, ss_phase = AwaitHello\<rparr>"
  let ?s2 = "s1\<lparr>ap_relay := g\<rparr>"
  let ?s3 = "?s2\<lparr>ap_auth := a2\<rparr>"
  have step1: "concurrent_step ?E (Arrive (OpEnqueue sample_post)) concurrent_start =
      (None, \<lparr>cc_app = AppState_default, cc_requests = [?r0], cc_sessions = []\<rparr>)" (is "_ = (None, ?c1)")
    by (simp add: concurrent_start_def)
  have name: "authenticated_as ?E (enqueue_task ?E sample_post) AppState_default None = Some (fill 1)"
    using auth by (simp add: authenticated_as_def enqueue_task_def)
  have call: "call_of (enqueue_task ?E sample_post) = Some (CallAuth sample_post ''POST'' ''/v1/relay'' (hq_body sample_post))"
    by (simp add: enqueue_task_def)
  have step2: "concurrent_step ?E (RunRequest 0) ?c1 =
      (Some (None, CallAuth sample_post ''POST'' ''/v1/relay'' (hq_body sample_post)),
       \<lparr>cc_app = s1, cc_requests = [?r1], cc_sessions = []\<rparr>)" (is "_ = (_, ?c2)")
    using enqueue_authorized [OF auth json assms(1)] name
    by (simp add: spawn_def advance_def call_by_def now call)
  have step3: "concurrent_step ?E (RunRequest 0) ?c2 =
      (Some (Some (fill 1), CallRelay (RPush 1000 m)),
       \<lparr>cc_app = ?s2, cc_requests = [?r2], cc_sessions = []\<rparr>)" (is "_ = (_, ?c3)")
    using push by (simp add: advance_def call_by_def authenticated_as_def relay)
  let ?n0 = "spawn (websocket_task peer_post ?so)"
  have step4: "concurrent_step ?E (Upgrade peer_post (\<lambda>_. False)) ?c3 = (None, ?c3\<lparr>cc_sessions := [?n0]\<rparr>)"
      (is "_ = (_, ?c4)")
    by simp
  have step5: "concurrent_step ?E (RunSession 0) ?c4 =
      (Some (None, CallAuth peer_post ''GET'' ''/v1/ws'' []),
       \<lparr>cc_app = ?s3, cc_requests = [?r2],
        cc_sessions = [\<lparr>rn_who = Some (fill 7), rn_task = Finished (Some ?session)\<rparr>]\<rparr>)" (is "_ = (_, ?c5)")
    using peer [rule_format, of ?s2] by (simp add: spawn_def websocket_task_def advance_def call_by_def authenticated_as_def)
  obtain i conns where next_id: "next_connection_id (ap_connections ?s3) = (i, conns)"
    by fastforce
  obtain ch conns' where ins: "insert_connection (fill 7) i conns = (ch, conns')"
    by fastforce
  let ?ins = "\<lambda>i. AwaitInsert (fill 7) i (\<lambda>ch. Finished (Some (?session\<lparr>ss_phase := Registered i ch\<rparr>)))"
  have step6: "concurrent_step ?E (Event 0 (FirstMessage (Some (sample_hello (fill 7))))) ?c5 =
      (None, ?c5\<lparr>cc_sessions := [\<lparr>rn_who = Some (fill 7), rn_task = AwaitNextId ?ins\<rparr>]\<rparr>)" (is "_ = (_, ?c6)")
    using sample_hello_accepted [of 7] by (simp add: comp_def)
  have step7: "concurrent_step ?E (RunSession 0) ?c6 =
      (Some (Some (fill 7), CallConnection CNextId),
       ?c5\<lparr>cc_app := ?s3\<lparr>ap_connections := conns\<rparr>, cc_sessions := [\<lparr>rn_who = Some (fill 7), rn_task = ?ins i\<rparr>]\<rparr>)" (is "_ = (_, ?c7)")
    using next_id by (simp add: advance_def call_by_def authenticated_as_def)
  have step8: "concurrent_step ?E (RunSession 0) ?c7 =
      (Some (Some (fill 7), CallConnection (CInsert (fill 7) i)),
       ?c5\<lparr>cc_app := ?s3\<lparr>ap_connections := conns'\<rparr>, cc_sessions := [\<lparr>rn_who = Some (fill 7),
         rn_task = Finished (Some (?session\<lparr>ss_phase := Registered i ch\<rparr>))\<rparr>]\<rparr>)" (is "_ = (_, ?c8)")
    using ins by (simp add: advance_def call_by_def authenticated_as_def)
  have "works ?so"
    by (simp add: works_def)
  then obtain hello so' where hello: "send_hello (fill 7) ?so = (Ok (), so')" "works so'" "so_sent so' = [hello]"
    by (rule works_hello [of ?so "fill 7"]) simp
  let ?greeted = "?session\<lparr>ss_socket := so', ss_phase := Greeted i ch\<rparr>"
  have step9: "concurrent_step ?E (Event 0 Greet) ?c8 =
      (None, ?c8\<lparr>cc_sessions := [\<lparr>rn_who = Some (fill 7), rn_task = Finished (Some ?greeted)\<rparr>]\<rparr>)" (is "_ = (_, ?c9)")
    using hello(1) by (simp add: or_end_task_def)
  have step10: "concurrent_step ?E (Event 0 (PullBacklog 2000)) ?c9 =
      (None, ?c9\<lparr>cc_sessions := [\<lparr>rn_who = Some (fill 7), rn_task = map_task Some (session_task (PullBacklog 2000) ?greeted)\<rparr>]\<rparr>)" (is "_ = (_, ?c10)")
    by simp
  have "run (concurrent_step ?E) link_before concurrent_start =
      ([None, Some (None, CallAuth sample_post ''POST'' ''/v1/relay'' (hq_body sample_post)),
        Some (Some (fill 1), CallRelay (RPush 1000 m)), None,
        Some (None, CallAuth peer_post ''GET'' ''/v1/ws'' []), None,
        Some (Some (fill 7), CallConnection CNextId), Some (Some (fill 7), CallConnection (CInsert (fill 7) i)),
        None, None], ?c10)"
    unfolding link_before_def run.simps step1 step2 step3 step4 step5 step6 step7 step8 step9 step10 prod.case Let_def
    by (rule refl)
  then show thesis
    by (rule that [where session = ?greeted])
      (use hello in \<open>simp_all add: List.map_filter_simps del: session_task.simps\<close>)
qed

text \<open>The first message of a session from device 01 to device 07.\<close>

definition sample_letter :: EncryptedMessage where
  "sample_letter = EncryptedMessage_new (fill 9) (fill 2) (fill 1) (fill 7)
     (bytes (RatchetHeader_encode (RatchetHeader_new 0))) (bytes (fill 1 :: 12 arr) @ [10]) 1000"

lemma sample_letter_fields [simp]:
  "em_sender_device_id sample_letter = fill 1" "em_recipient_device_id sample_letter = fill 7"
  "em_conversation_id sample_letter = fill 2"
  by (simp_all add: sample_letter_def EncryptedMessage_new_def)

lemma sample_letter_accepted: "fst (RelayStore_push 1000 sample_letter RelayStore_default) = Accepted"
proof -
  have "bytes (RatchetHeader_encode (RatchetHeader_new 0)) \<noteq> []"
    using length_bytes [of "RatchetHeader_encode (RatchetHeader_new 0)"] by (auto simp del: length_bytes)
  then show ?thesis
    by (simp add: RelayStore_push_def sample_letter_def EncryptedMessage_new_def valid_message_def
      MAX_RATCHET_HEADER_def RELAY_MAX_CIPHERTEXT_def RelayStore_default_def push_within_limits_def
      MAX_TOTAL_MESSAGES_def MAX_TOTAL_BYTES_def message_size_def EncryptedMessage_encode_def
      u32_try_from_def u32_MAX_nat_def usize_checked_add_def usize_MAX_def usize_saturating_add_def
      u64_saturating_sub_def u64_saturating_add_def RELAY_MAX_CLOCK_SKEW_MS_def Let_def)
qed

lemma sample_letter_pulled:
  assumes "RelayStore_push 1000 sample_letter RelayStore_default = (Accepted, g)"
  shows "fst (RelayStore_pull 2000 (fill 7) g) = [sample_letter]"
proof -
  have "g = replace_queue (fill 7) (Some (live_queue 1000 (fill 7) RelayStore_default @ [accept 1000 sample_letter]))
      RelayStore_default"
    using relay_inv_default assms by (cases rule: push_cases) simp_all
  then have "held (fill 7) g = [accept 1000 sample_letter]"
    by (simp add: live_queue_held held_default)
  then show ?thesis
    using pull_held [OF push_inv [OF relay_inv_default assms], of 2000 "fill 7"]
    by (simp add: accept_def u64_saturating_add_def OFFLINE_TTL_MS_def)
qed

text \<open>The session goes on while the handler of the message makes its last call.\<close>

definition link_after :: "concurrent_op list" where
  "link_after = RunRequest 0 # undisturbed (SendNext 7)"

lemma link_delivers:
  obtains c session i ch session' where
    "c = snd (run (concurrent_step (link_env sample_letter)) link_before concurrent_start)"
    "0 < length (cc_sessions c)"
    "rn_task (cc_sessions c ! 0) = map_task Some (session_task (PullBacklog 2000) session)"
    "ss_device session = fill 7" "ss_phase session = Greeted i ch" "works (ss_socket session)"
    "fst (RelayStore_pull 2000 (ss_device session) (ap_relay (cc_app c))) = [sample_letter]"
    "setup_events (link_env sample_letter) 0 link_after (snd (concurrent_step (link_env sample_letter) (RunSession 0) c)) = 1"
    "rn_task (cc_sessions (snd (run (concurrent_step (link_env sample_letter)) link_after
       (snd (concurrent_step (link_env sample_letter) (RunSession 0) c)))) ! 0) = Finished (Some session')"
    "calls (link_env sample_letter) link_before concurrent_start =
      [(None, CallAuth sample_post ''POST'' ''/v1/relay'' (hq_body sample_post)),
       (Some (fill 1), CallRelay (RPush 1000 sample_letter)), (None, CallAuth peer_post ''GET'' ''/v1/ws'' []),
       (Some (fill 7), CallConnection CNextId), (Some (fill 7), CallConnection (CInsert (fill 7) i))]"
proof -
  let ?E = "link_env sample_letter"
  obtain g where push: "RelayStore_push 1000 sample_letter RelayStore_default = (Accepted, g)"
    using sample_letter_accepted by (metis prod.collapse)
  obtain c session i ch hello outs where
    run: "run (concurrent_step ?E) link_before concurrent_start = (outs, c)"
    and c: "cc_sessions c = [\<lparr>rn_who = Some (fill 7), rn_task = map_task Some (session_task (PullBacklog 2000) session)\<rparr>]"
    and session: "ss_phase session = Greeted i ch" "works (ss_socket session)" "ss_device session = fill 7"
    and relay: "ap_relay (cc_app c) = g"
    and calls: "List.map_filter id outs = [(None, CallAuth sample_post ''POST'' ''/v1/relay'' (hq_body sample_post)),
       (Some (fill 1), CallRelay (RPush 1000 sample_letter)), (None, CallAuth peer_post ''GET'' ''/v1/ws'' []),
       (Some (fill 7), CallConnection CNextId), (Some (fill 7), CallConnection (CInsert (fill 7) i))]"
    by (rule link_pulling [OF sample_letter_fields(1,2) push])
  have backlog: "fst (RelayStore_pull 2000 (ss_device session) (ap_relay (cc_app c))) = [sample_letter]"
    using sample_letter_pulled [OF push] by (simp add: session relay)
  let ?sending = "session\<lparr>ss_phase := SendingBacklog i ch {em_message_id sample_letter} [sample_letter]\<rparr>"
  let ?c1 = "snd (concurrent_step ?E (RunSession 0) c)" and ?c2 = "snd (concurrent_step ?E (RunRequest 0) (snd (concurrent_step ?E (RunSession 0) c)))"
  have "cc_sessions ?c1 = [\<lparr>rn_who = Some (fill 7), rn_task = Finished (Some ?sending)\<rparr>]"
    using backlog session by (simp add: c advance_def authenticated_as_def case_prod_beta)
  then have c2: "cc_sessions ?c2 = [\<lparr>rn_who = Some (ss_device ?sending), rn_task = Finished (Some ?sending)\<rparr>]"
    by (simp add: session case_prod_beta)
  obtain session' s where "session_step (SendNext 7) (?sending, cc_app ?c2) = (session', s)"
    by fastforce
  from run_undisturbed [OF c2 this, of ?E]
  have finished: "rn_task (cc_sessions (snd (run (concurrent_step ?E) link_after ?c1)) ! 0) = Finished (Some session')"
    by (simp add: link_after_def)
  have "setup_event 0 (Event 0 (SendNext 7)) ?c2"
    using c2 by (simp add: setup_event_def)
  then have k: "setup_events ?E 0 link_after ?c1 = 1"
    by (simp add: link_after_def undisturbed_def) (simp add: setup_event_def)
  show thesis
    by (rule that [OF _ _ _ session(3,1,2) backlog k finished])
      (use c calls in \<open>simp_all add: run calls_def\<close>)
qed

section \<open>Property\<close>

text \<open>
  C8. A session delivers its backlog among other tasks. Let a session on a working socket be about
  to pull its backlog, in any state the gateway can reach. Whatever calls requests and other sessions
  make from then on - messages stored, pulled and acknowledged, the connection replaced - every event
  of its set-up sends the next message of what this pull returns, each in a frame of its own and in
  order; and after one event more than there are messages it is live or has ended.
\<close>

theorem concurrent_session_delivers_backlog:
  assumes "c = snd (run (concurrent_step E) before concurrent_start)"
    and "n < length (cc_sessions c)"
    and "rn_task (cc_sessions c ! n) = map_task Some (session_task (PullBacklog now) session)"
    and "ss_phase session = Greeted i ch" and "works (ss_socket session)"
    and "fst (RelayStore_pull now (ss_device session) (ap_relay (cc_app c))) = backlog"
    and "snd (concurrent_step E (RunSession n) c) = c1"
    and "setup_events E n ops c1 = k"
    and "rn_task (cc_sessions (snd (run (concurrent_step E) ops c1)) ! n) = Finished result"
  shows "case result of
      None \<Rightarrow> False
    | Some session' \<Rightarrow>
        (\<exists>frames. prefix (so_sent (ss_socket session) @ frames) (so_sent (ss_socket session')) \<and>
           map read_message frames = map Some (take k backlog)) \<and>
        (length backlog < k \<longrightarrow> (\<exists>i c t. ss_phase session' = Live i c t) \<or> ss_phase session' = Ended)"
proof -
  have "list_all valid_message backlog"
    using pull_valid [OF concurrent_relay_inv] assms(1,6) by blast
  with pull_sending [OF assms(2-5), of E] have
    "sending_at n (so_sent (ss_socket session)) backlog k (snd (run (concurrent_step E) ops c1))"
    using run_sending_at [of n _ backlog 0 c1 E ops] assms(6-8) by simp
  then obtain session' where "result = Some session'" "sending (so_sent (ss_socket session)) backlog k session'"
    using assms(9) by (cases result) (auto simp: sending_at_def result_sending_def)
  then show ?thesis
    using sending_sent [of "so_sent (ss_socket session)" backlog k session']
    by (auto simp: sends_as_def sending_def split: ws_phase.splits)
qed

theorem concurrent_session_delivers_backlog_witness:
  "\<exists>session' frame.
     rn_task (cc_sessions (snd (run (concurrent_step (link_env sample_letter))
       (link_before @ RunSession 0 # link_after) concurrent_start)) ! 0) = Finished (Some session') \<and>
     frame \<in> set (so_sent (ss_socket session')) \<and> read_message frame = Some sample_letter"
proof -
  let ?E = "link_env sample_letter"
  obtain c session i ch session' where
    run: "c = snd (run (concurrent_step ?E) link_before concurrent_start)"
    and task: "0 < length (cc_sessions c)"
      "rn_task (cc_sessions c ! 0) = map_task Some (session_task (PullBacklog 2000) session)"
    and session: "ss_phase session = Greeted i ch" "works (ss_socket session)"
    and backlog: "fst (RelayStore_pull 2000 (ss_device session) (ap_relay (cc_app c))) = [sample_letter]"
    and k: "setup_events ?E 0 link_after (snd (concurrent_step ?E (RunSession 0) c)) = 1"
    and finished: "rn_task (cc_sessions (snd (run (concurrent_step ?E) link_after
       (snd (concurrent_step ?E (RunSession 0) c)))) ! 0) = Finished (Some session')"
    by (rule link_delivers)
  obtain frames where "prefix (so_sent (ss_socket session) @ frames) (so_sent (ss_socket session'))"
      "map read_message frames = [Some sample_letter]"
    using concurrent_session_delivers_backlog [OF run task session backlog refl k finished] by auto
  then obtain frame where "frame \<in> set (so_sent (ss_socket session'))" "read_message frame = Some sample_letter"
    by (cases frames) (auto dest!: set_mono_prefix)
  with finished run show ?thesis
    by (intro exI [of _ session'] exI [of _ frame]) (simp add: run_append_state del: concurrent_step.simps)
qed

end
