(* ===== verification/EndToEnd.thy ===== *)
theory EndToEnd
  imports Session Receive Envelope Backlog
begin

text \<open>
  The program as a whole: a session established from published keys (\<open>Session\<close>), messages encrypted by
  the ratchet (\<open>Ratchet\<close>), bound to their envelope (\<open>Envelope\<close>), stored and delivered by the gateway
  among all its other tasks (\<open>Backlog\<close>), and decrypted by the receiving ratchet (\<open>Receive\<close>).
\<close>

section \<open>Messages of a session\<close>

text \<open>
  A message that carries packet \<open>k\<close> of a sending run: its ratchet header is the one
  \<open>decrypt_with_header\<close> reads, with number \<open>k\<close>, and the packet was sealed with the associated data of
  the message's own envelope.
\<close>

definition carries_packet :: "nat \<Rightarrow> send_request \<Rightarrow> u8 list \<Rightarrow> EncryptedMessage \<Rightarrow> bool" where
  "carries_packet k q packet m \<longleftrightarrow>
     em_ratchet_header m = bytes (RatchetHeader_encode (RatchetHeader_new (word_of_nat k))) \<and>
     em_ciphertext m = packet \<and> WireEnvelope_aad (WireEnvelope_from m) = Ok (sq_aad q)"

definition of_session :: "16 arr \<Rightarrow> 16 arr \<Rightarrow> 16 arr \<Rightarrow> EncryptedMessage \<Rightarrow> bool" where
  "of_session dev peer conv m \<longleftrightarrow>
     em_sender_device_id m = dev \<and> em_recipient_device_id m = peer \<and> em_conversation_id m = conv"

text \<open>What the recipient gives its ratchet: header, packet and the envelope's associated data.\<close>

definition delivery_in :: "EncryptedMessage \<Rightarrow> delivery option" where
  "delivery_in m =
     (case WireEnvelope_aad (WireEnvelope_from m) of
        Err e \<Rightarrow> None
      | Ok aad \<Rightarrow> Some (em_ratchet_header m, em_ciphertext m, aad))"

definition deliveries_in :: "(EncryptedMessage \<Rightarrow> bool) \<Rightarrow> ws_message list \<Rightarrow> delivery list" where
  "deliveries_in select sent =
     List.map_filter delivery_in (filter select (List.map_filter read_message sent))"

lemma carried_delivery:
  "carries_packet k (qs ! k) (packets ! k) m \<Longrightarrow> delivery_in m = Some (delivery_of qs packets k)"
  by (simp add: carries_packet_def delivery_in_def delivery_of_def)

lemma map_filter_append: "List.map_filter f (xs @ ys) = List.map_filter f xs @ List.map_filter f ys"
  by (simp add: List.map_filter_def)

lemma map_filter_Some: "map f xs = map Some ys \<Longrightarrow> List.map_filter f xs = ys"
  by (induction xs arbitrary: ys) (auto simp: List.map_filter_simps)

lemma deliveries_frames:
  assumes "map read_message frames = map Some messages"
    and "filter select messages = map ((!) ms) schedule"
    and "\<forall>k \<in> set schedule. carries_packet k (qs ! k) (packets ! k) (ms ! k)"
  shows "deliveries_in select frames = map (delivery_of qs packets) schedule"
proof -
  have "map delivery_in (map ((!) ms) schedule) = map Some (map (delivery_of qs packets) schedule)"
    using assms(3) by (auto intro: carried_delivery)
  then show ?thesis
    by (simp only: deliveries_in_def map_filter_Some [OF assms(1)] assms(2) map_filter_Some)
qed

text \<open>The order in which distinct messages of a list come is a schedule of its indices.\<close>

lemma schedule_exists:
  assumes "distinct xs" and "set xs \<subseteq> set ms"
  obtains schedule where "distinct schedule" "set schedule \<subseteq> {..<length ms}" "xs = map ((!) ms) schedule"
proof -
  have "\<forall>x \<in> set xs. \<exists>k. k < length ms \<and> ms ! k = x"
    using assms(2) by (auto simp: in_set_conv_nth)
  then obtain f where f: "\<forall>x \<in> set xs. f x < length ms \<and> ms ! f x = x"
    by (metis bchoice)
  then have "inj_on f (set xs)"
    by (metis inj_onI)
  then show thesis
    using f assms(1) by (intro that [of "map f xs"]) (auto simp: distinct_map map_idI)
qed

lemma near_window: "\<forall>k \<in> set ks. k \<le> 256 \<Longrightarrow> within_window n ks"
  by (induction ks arbitrary: n) auto

section \<open>What a device pulls\<close>

text \<open>Of a run, a device pulls distinct messages, each of which a call has pushed for it.\<close>

lemma pull_distinct: "relay_inv g \<Longrightarrow> distinct (fst (RelayStore_pull now d g))"
  using live_queue_ok [of g d now] pull_held [of g now d]
  by (auto simp: queue_ok_def live_queue_held distinct_map intro: comp_inj_on inj_on_imageI2)

lemma pull_recipient:
  "relay_inv g \<Longrightarrow> m \<in> set (fst (RelayStore_pull now d g)) \<Longrightarrow> em_recipient_device_id m = d"
  using live_queue_ok [of g d now] pull_held [of g now d]
  by (auto simp: queue_ok_def live_queue_held)

lemma pull_pushed:
  assumes "c = snd (run (concurrent_step E) ops concurrent_start)"
    and "m \<in> set (fst (RelayStore_pull now d (ap_relay (cc_app c))))"
  shows "\<exists>who t. (who, CallRelay (RPush t m)) \<in> set (calls E ops concurrent_start)"
proof -
  let ?history = "List.map_filter relay_call (calls E ops concurrent_start)"
  let ?A = "{m. \<exists>t. RPush t m \<in> set ?history}"
  have relay: "ap_relay (cc_app c) = snd (run relay_step ?history RelayStore_default)"
    unfolding assms(1) run_components(1) by (simp add: concurrent_start_def AppState_default_def)
  have "stored_in ?A (ap_relay (cc_app c))"
    unfolding relay
    by (rule run_stored_in [OF relay_inv_default])
      (auto simp: stored_in_def held_default split: relay_op.split)
  moreover have "relay_inv (ap_relay (cc_app c))"
    unfolding assms(1) by (rule concurrent_relay_inv)
  ultimately have "m \<in> ?A"
    using assms(2) pull_held [of "ap_relay (cc_app c)" now d] by (auto simp: stored_in_def)
  then obtain t call where "call \<in> set (calls E ops concurrent_start)" "relay_call call = Some (RPush t m)"
    by (auto simp: List.map_filter_def)
  then show ?thesis
    by (cases call rule: relay_call.cases) auto
qed

section \<open>A sample session\<close>

lemma link_initiate:
  "\<exists>i. initiate sample_primitives sample_hkdf sample_alice (fill 1)
     (InitiatorEphemeral_generate sample_primitives (fill 10)) sample_bundle sample_record (Some (9, fill 6)) = Ok i \<and>
     is_peer_device_id i = fill 7 \<and> is_root i = fill 7"
proof -
  have "SignedPrekeyRecord_verify sample_primitives (pb_identity_signing_key sample_bundle) sample_record"
    using publishable_verifies [OF sample_primitives_lawful, of sample_bob 1 sample_spk]
    by (simp add: sample_bundle_def sample_record_def)
  then show ?thesis
    using sample_bundle_valid
    by (simp add: initiate_def Let_def sample_session_defs agreement_diffie_hellman_def
        derive_root_def sample_hkdf_def list.pred_set)
qed

text \<open>The letter carries the first packet of this session.\<close>

lemma sample_letter_aad:
  obtains aad where "WireEnvelope_aad (WireEnvelope_from sample_letter) = Ok aad"
proof -
  have "length (bytes (RatchetHeader_encode (RatchetHeader_new 0))) = 10"
    by simp
  then show thesis
    by (intro that) (simp add: WireEnvelope_aad_def validate_metadata_def WireEnvelope_from_def sample_letter_def
      EncryptedMessage_new_def MAX_HEADER_def u32_try_from_def u32_MAX_nat_def)
qed

lemma sample_letter_carries:
  "WireEnvelope_aad (WireEnvelope_from sample_letter) = Ok aad \<Longrightarrow>
     carries_packet 0 \<lparr>sq_nonce = fill 1, sq_plaintext = [10], sq_aad = aad\<rparr> (bytes (fill 1 :: 12 arr) @ [10]) sample_letter"
  by (simp add: carries_packet_def) (simp add: sample_letter_def EncryptedMessage_new_def)

section \<open>Property\<close>

text \<open>What arrives is decrypted, by whatever it is followed.\<close>

lemma arrivals_decrypted:
  assumes "fst (run step (map (delivery_of qs packets) schedule) r) = map Ok outs"
    and "deliveries_in select frames = map (delivery_of qs packets) schedule" and "prefix frames sent"
  shows "take (length schedule) (fst (run step (deliveries_in select sent) r)) = map Ok outs"
proof -
  obtain later where "sent = frames @ later"
    using assms(3) by (auto simp: prefix_def)
  then have "deliveries_in select sent = map (delivery_of qs packets) schedule @ deliveries_in select later"
    using assms(2) by (simp add: deliveries_in_def map_filter_append)
  moreover have "length outs = length schedule"
    using arg_cong [OF assms(1), of length] by simp
  ultimately show ?thesis
    using assms(1) by (simp add: run_append_outputs)
qed

text \<open>
  C1. From end to end. Two devices establish a session, with or without a one-time prekey, and each
  makes a ratchet of the root it has derived; the initiator encrypts, and puts each packet with its
  ratchet header into a message whose envelope the packet is bound to. In any run of the gateway in
  which nobody pushes anything else in this device's name for the peer and the conversation, and
  whatever other tasks do, let the peer's session pull and send its backlog. Then what the backlog
  holds of the conversation are messages of the initiator, none of them twice, and the peer's ratchet
  decrypts all of them, in whatever order they come, to the plaintexts that were sent - if they come
  within the window of 256, as they do when there are at most 257.
\<close>

theorem end_to_end_delivery:
  assumes "primitives_lawful P" and "hkdf_total hkdf" and "aead_inverts aead_enc aead_dec"
    and "identity_ok P alice" and "identity_ok P bob" and "prekey_ok P spk"
    and "pred_option (opk_ok P) okey"
    and "pb_identity_agreement_key bdl = agreement_public_key bob"
    and "pb_signed_prekey bdl = SignedPrekey_public_key spk"
    and "\<not> mx_poisoned store"
    and "pred_option (\<lambda>k. bt_get (mx_value store) (ot_key_id k) = Some k) okey"
    and "initiate P hkdf alice dev (InitiatorEphemeral_generate P secret) bdl rcd
           (map_option (\<lambda>k. (ot_key_id k, OneTimePrekey_public_key k)) okey) = Ok i"
    and "fst (respond_with_one_time_prekey_store P hkdf bob spk
           (map_option (\<lambda>k. (ot_key_id k, OneTimePrekey_public_key k)) okey) (is_peer_device_id i) dev
           (si_identity_agreement_key (is_init i)) (si_ephemeral_public_key (is_init i)) store) = Ok rs"
    and "RatchetState_from_root hkdf (is_root i) = Ok sender"
    and "ReceiveRatchet_from_root hkdf (rp_root rs) = Ok receiver"
    and "fst (run (send_step hkdf aead_enc) qs sender) = map Ok packets"
    and "length ms = length qs"
    and "\<forall>k < length ms. carries_packet k (qs ! k) (packets ! k) (ms ! k)"
    and "c = snd (run (concurrent_step E) before concurrent_start)"
    and "\<forall>call \<in> set (calls E before concurrent_start). case call of
           (who, CallRelay (RPush t m)) \<Rightarrow> of_session dev (is_peer_device_id i) conv m \<longrightarrow> m \<in> set ms
         | _ \<Rightarrow> True"
    and "n < length (cc_sessions c)"
    and "rn_task (cc_sessions c ! n) = map_task Some (session_task (PullBacklog now) session)"
    and "ss_device session = is_peer_device_id i"
    and "ss_phase session = Greeted connection channel" and "works (ss_socket session)"
    and "fst (RelayStore_pull now (ss_device session) (ap_relay (cc_app c))) = backlog"
    and "snd (concurrent_step E (RunSession n) c) = c1"
    and "length backlog \<le> setup_events E n ops c1"
    and "rn_task (cc_sessions (snd (run (concurrent_step E) ops c1)) ! n) = Finished (Some session')"
  shows "\<exists>sent schedule.
    so_sent (ss_socket session') = so_sent (ss_socket session) @ sent \<and>
    filter (of_session dev (is_peer_device_id i) conv) backlog = map ((!) ms) schedule \<and>
    distinct schedule \<and> set schedule \<subseteq> {..<length ms} \<and>
    (length ms \<le> 257 \<or> within_window 0 schedule \<longrightarrow>
       take (length schedule) (fst (run (receive_step hkdf aead_dec)
         (deliveries_in (of_session dev (is_peer_device_id i) conv) sent) receiver)) =
       map (\<lambda>k. Ok (sq_plaintext (qs ! k))) schedule)"
proof -
  let ?own = "of_session dev (is_peer_device_id i) conv"
  have inv: "relay_inv (ap_relay (cc_app c))"
    unfolding assms(19) by (rule concurrent_relay_inv)
  have "list_all valid_message backlog"
    using pull_valid [OF inv] assms(26) by blast
  moreover have "sending_at n (so_sent (ss_socket session)) backlog 0 c1"
    using pull_sending [OF assms(21,22,24,25), of E] assms(26,27) by simp
  ultimately have "sending (so_sent (ss_socket session)) backlog (setup_events E n ops c1) session'"
    using run_sending_at [of n "so_sent (ss_socket session)" backlog 0 c1 E ops] assms(29)
    by (simp add: sending_at_def)
  from sending_sent [OF this] obtain frames where
    "prefix (so_sent (ss_socket session) @ frames) (so_sent (ss_socket session'))"
    and frames: "map read_message frames = map Some backlog"
    using assms(28) by (auto simp: sends_as_def)
  then obtain sent where sent: "so_sent (ss_socket session') = so_sent (ss_socket session) @ sent" "prefix frames sent"
    by (auto simp: prefix_def)
  have "distinct (filter ?own backlog)"
    using pull_distinct [OF inv] assms(26) by auto
  moreover have "set (filter ?own backlog) \<subseteq> set ms"
    using pull_pushed [OF assms(19), of _ now "ss_device session"] assms(20,26) by fastforce
  ultimately obtain schedule where schedule: "distinct schedule" "set schedule \<subseteq> {..<length ms}"
      "filter ?own backlog = map ((!) ms) schedule"
    by (rule schedule_exists)
  have received: "deliveries_in ?own frames = map (delivery_of qs packets) schedule"
    using frames schedule(3) by (rule deliveries_frames) (use schedule(2) assms(18) in auto)
  have "rp_root rs = is_root i"
    using assms(13) respond_agrees [OF assms(1,4-12)] by auto
  note receiver = assms(15) [unfolded this]
  have "fst (run (receive_step hkdf aead_dec) (map (delivery_of qs packets) schedule) receiver) =
      map Ok (map (\<lambda>k. sq_plaintext (qs ! k)) schedule)"
    if "length ms \<le> 257 \<or> within_window 0 schedule"
  proof -
    have "within_window 0 schedule"
      using that schedule(2) near_window [of schedule 0] by fastforce
    then show ?thesis
      using schedule_delivered [OF assms(2,3,14) receiver assms(16) schedule(1)] schedule(2) assms(17)
      by (simp add: subset_eq)
  qed
  from arrivals_decrypted [OF this received sent(2)] show ?thesis
    using sent(1) schedule by (intro exI [of _ sent] exI [of _ schedule]) simp
qed

theorem end_to_end_delivery_witness:
  "\<exists>session' already sent.
     rn_task (cc_sessions (snd (run (concurrent_step (link_env sample_letter))
       (link_before @ RunSession 0 # link_after) concurrent_start)) ! 0) = Finished (Some session') \<and>
     so_sent (ss_socket session') = already @ sent \<and>
     take 1 (fst (run (receive_step sample_hkdf sample_aead)
       (deliveries_in (of_session (fill 1) (fill 7) (fill 2)) sent)
       \<lparr>rr_state = \<lparr>rs_chain_key = fill 7, rs_next_counter = 0\<rparr>, rr_skipped = bt_empty\<rparr>)) = [Ok [10]]"
proof -
  let ?E = "link_env sample_letter" and ?k = "Some sample_opk"
  let ?opk = "map_option (\<lambda>k. (ot_key_id k, OneTimePrekey_public_key k)) ?k"
  let ?store = "mutex_new (bt_insert 9 sample_opk bt_empty)"
  have opk: "?opk = Some (9, fill 6)"
    by (simp add: sample_session_defs)
  obtain i where "initiate sample_primitives sample_hkdf sample_alice (fill 1)
      (InitiatorEphemeral_generate sample_primitives (fill 10)) sample_bundle sample_record ?opk = Ok i"
    and i: "is_peer_device_id i = fill 7"
    unfolding opk using link_initiate by blast
  note initiated = this(1)
  have keys: "identity_ok sample_primitives sample_alice" "identity_ok sample_primitives sample_bob"
      "prekey_ok sample_primitives sample_spk" "pred_option (opk_ok sample_primitives) ?k"
      "pb_identity_agreement_key sample_bundle = agreement_public_key sample_bob"
      "pb_signed_prekey sample_bundle = SignedPrekey_public_key sample_spk" "\<not> mx_poisoned ?store"
      "pred_option (\<lambda>k. bt_get (mx_value ?store) (ot_key_id k) = Some k) ?k"
    by (simp_all add: sample_alice_def sample_bob_def sample_spk_def sample_opk_def)
      (simp_all add: sample_session_defs)
  note responded = respond_agrees [OF sample_primitives_lawful keys initiated, THEN arg_cong [of _ _ fst], unfolded fst_conv]
  obtain aad where aad: "WireEnvelope_aad (WireEnvelope_from sample_letter) = Ok aad"
    by (rule sample_letter_aad)
  let ?q = "\<lparr>sq_nonce = fill 1, sq_plaintext = [10], sq_aad = aad\<rparr>"
  let ?state = "\<lparr>rs_chain_key = fill 7, rs_next_counter = 0\<rparr>"
  have sending: "fst (run (send_step sample_hkdf sample_aead) [?q] ?state) = map Ok [bytes (fill 1 :: 12 arr) @ [10]]"
    by (simp add: sample_send u64_MAX_def)
  have carries: "\<forall>k < length [sample_letter]. carries_packet k ([?q] ! k) ([bytes (fill 1 :: 12 arr) @ [10]] ! k) ([sample_letter] ! k)"
    using sample_letter_carries [OF aad] by simp
  obtain c session j ch session' where
    run: "c = snd (run (concurrent_step ?E) link_before concurrent_start)"
    and task: "0 < length (cc_sessions c)"
      "rn_task (cc_sessions c ! 0) = map_task Some (session_task (PullBacklog 2000) session)"
    and device: "ss_device session = fill 7"
    and session: "ss_phase session = Greeted j ch" "works (ss_socket session)"
    and backlog: "fst (RelayStore_pull 2000 (ss_device session) (ap_relay (cc_app c))) = [sample_letter]"
    and k: "setup_events ?E 0 link_after (snd (concurrent_step ?E (RunSession 0) c)) = 1"
    and finished: "rn_task (cc_sessions (snd (run (concurrent_step ?E) link_after
       (snd (concurrent_step ?E (RunSession 0) c)))) ! 0) = Finished (Some session')"
    and calls: "calls ?E link_before concurrent_start =
      [(None, CallAuth sample_post ''POST'' ''/v1/relay'' (hq_body sample_post)),
       (Some (fill 1), CallRelay (RPush 1000 sample_letter)), (None, CallAuth peer_post ''GET'' ''/v1/ws'' []),
       (Some (fill 7), CallConnection CNextId), (Some (fill 7), CallConnection (CInsert (fill 7) j))]"
    by (rule link_delivers)
  have pushes: "\<forall>call \<in> set (calls ?E link_before concurrent_start). case call of
      (who, CallRelay (RPush t m)) \<Rightarrow> of_session (fill 1) (is_peer_device_id i) (fill 2) m \<longrightarrow> m \<in> set [sample_letter]
    | _ \<Rightarrow> True"
    unfolding calls by simp
  have "length [sample_letter] \<le> setup_events ?E 0 link_after (snd (concurrent_step ?E (RunSession 0) c))"
    using k by simp
  from end_to_end_delivery [OF sample_primitives_lawful sample_laws keys initiated responded _ _ sending _ carries
      run pushes task _ session backlog refl this finished]
  obtain sent schedule where "so_sent (ss_socket session') = so_sent (ss_socket session) @ sent"
    "filter (of_session (fill 1) (fill 7) (fill 2)) [sample_letter] = map ((!) [sample_letter]) schedule"
    "set schedule \<subseteq> {..<1}"
    "take (length schedule) (fst (run (receive_step sample_hkdf sample_aead)
       (deliveries_in (of_session (fill 1) (fill 7) (fill 2)) sent)
       \<lparr>rr_state = ?state, rr_skipped = bt_empty\<rparr>)) = map (\<lambda>k. Ok (sq_plaintext ([?q] ! k))) schedule"
    using i device by auto
  moreover from this have "schedule = [0]"
    by (cases schedule) (auto simp: of_session_def)
  ultimately show ?thesis
    using finished run
    by (intro exI [of _ session'] exI [of _ "so_sent (ss_socket session)"] exI [of _ sent])
      (simp add: run_append_state del: concurrent_step.simps)
qed

end
