(* ===== verification/Schedules.thy ===== *)
theory Schedules
  imports Dispatch
begin

text \<open>
  The gateway of \<open>Service\<close>, where a handler runs in one go, is a schedule of the gateway of
  \<open>Concurrent\<close>, where a step is one call: whatever the first answers and reaches, the second does
  when it lets every task finish before it starts another one.
\<close>

section \<open>Tasks that run to their end\<close>

lemma complete_map: "complete E (map_task f t) s = apfst f (complete E t s)"
  by (induction t arbitrary: s) (simp_all add: case_prod_beta)

lemma done_within_map: "done_within n t \<Longrightarrow> done_within n (map_task f t)"
  by (induction n arbitrary: t) (auto simp: resume_map)

text \<open>Some steps of one task, with nothing in between.\<close>

fun advances :: "gateway_env \<Rightarrow> nat \<Rightarrow> 'r running \<Rightarrow> AppState \<Rightarrow> 'r running \<times> AppState" where
  "advances E 0 r s = (r, s)"
| "advances E (Suc n) r s = (case advance E r s of (r', s') \<Rightarrow> advances E n r' s')"

lemma advances_to_end:
  assumes "done_within n (rn_task r)"
  shows "\<exists>who. advances E n r s =
    (\<lparr>rn_who = who, rn_task = Finished (fst (complete E (rn_task r) s))\<rparr>, snd (complete E (rn_task r) s))"
  using assms
proof (induction n arbitrary: r s)
  case 0
  then show ?case
    by (cases r) auto
next
  case (Suc n)
  obtain t s' where t: "resume E (rn_task r) s = (t, s')"
    by fastforce
  then have "done_within n t"
    using Suc.prems by (metis done_within.simps(2) fst_conv)
  moreover have "complete E t s' = complete E (rn_task r) s"
    using complete_resume [of E "rn_task r" s] by (simp add: t)
  ultimately show ?case
    using Suc.IH [of "\<lparr>rn_who = authenticated_as E (rn_task r) s (rn_who r), rn_task = t\<rparr>" s']
    by (simp add: advance_def t)
qed

lemma run_request_advances:
  "k < length (cc_requests c) \<Longrightarrow> advances E n (cc_requests c ! k) (cc_app c) = (r, s) \<Longrightarrow>
   snd (run (concurrent_step E) (replicate n (RunRequest k)) c) =
     c\<lparr>cc_app := s, cc_requests := (cc_requests c)[k := r]\<rparr>"
  by (induction n arbitrary: c) (auto simp: case_prod_beta)

lemma run_session_advances:
  "k < length (cc_sessions c) \<Longrightarrow> advances E n (cc_sessions c ! k) (cc_app c) = (r, s) \<Longrightarrow>
   snd (run (concurrent_step E) (replicate n (RunSession k)) c) =
     c\<lparr>cc_app := s, cc_sessions := (cc_sessions c)[k := r]\<rparr>"
  by (induction n arbitrary: c) (auto simp: case_prod_beta)

section \<open>The correspondence\<close>

text \<open>
  All tasks have finished: the requests with the answers given so far, the upgrades with the sessions,
  and where an upgrade was refused with none.
\<close>

definition matches :: "concurrent \<Rightarrow> gateway \<Rightarrow> gateway_answer list \<Rightarrow> bool" where
  "matches c g answers \<longleftrightarrow>
     cc_app c = gw_app g \<and> map rn_task (cc_requests c) = map Finished answers \<and>
     (\<exists>results. map rn_task (cc_sessions c) = map Finished results \<and> map the (filter (\<lambda>r. r \<noteq> None) results) = gw_sessions g)"

lemma request_schedule:
  assumes "matches c g answers" and op: "is_request op"
  shows "matches (snd (run (concurrent_step E)
      (Arrive op # replicate 3 (RunRequest (length (cc_requests c)))) c))
    (snd (gateway_step E op g)) (answers @ [fst (gateway_step E op g)])"
proof -
  let ?k = "length (cc_requests c)" and ?t = "request_task E op"
  let ?c = "c\<lparr>cc_requests := cc_requests c @ [spawn ?t]\<rparr>"
  obtain a s where ended: "complete E ?t (cc_app c) = (a, s)"
    by fastforce
  obtain who where "advances E 3 (spawn ?t) (cc_app c) = (\<lparr>rn_who = who, rn_task = Finished a\<rparr>, s)"
    using advances_to_end [of 3 "spawn ?t" E "cc_app c"] request_done [of E op] ended by (auto simp: spawn_def)
  then have "snd (run (concurrent_step E) (replicate 3 (RunRequest ?k)) ?c) =
      ?c\<lparr>cc_app := s, cc_requests := (cc_requests ?c)[?k := \<lparr>rn_who = who, rn_task = Finished a\<rparr>]\<rparr>"
    by (intro run_request_advances) simp_all
  moreover have "gateway_step E op g = (a, g\<lparr>gw_app := s\<rparr>)"
    using request_complete [OF op, of E g] ended assms(1) by (simp add: matches_def)
  moreover have "snd (concurrent_step E (Arrive op) c) = ?c"
    by simp
  ultimately show ?thesis
    using assms(1) unfolding run_Cons_state by (simp add: matches_def del: concurrent_step.simps)
qed

lemma upgrade_schedule:
  assumes "matches c g answers"
  shows "matches (snd (run (concurrent_step E) [Upgrade q fails, RunSession (length (cc_sessions c))] c))
    (snd (gateway_step E (OpUpgrade q fails) g)) answers"
proof -
  let ?k = "length (cc_sessions c)" and ?t = "websocket_task q \<lparr>so_sent = [], so_attempts = 0, so_fails = fails\<rparr>"
  let ?c = "c\<lparr>cc_sessions := cc_sessions c @ [spawn ?t]\<rparr>"
  obtain r s where ended: "complete E ?t (cc_app c) = (r, s)"
    by fastforce
  have "done_within 1 ?t"
    by (auto simp: websocket_task_def split: sum.split)
  then obtain who where "advances E 1 (spawn ?t) (cc_app c) = (\<lparr>rn_who = who, rn_task = Finished r\<rparr>, s)"
    using advances_to_end [of 1 "spawn ?t" E "cc_app c"] ended by (auto simp: spawn_def)
  then have "snd (run (concurrent_step E) (replicate 1 (RunSession ?k)) ?c) =
      ?c\<lparr>cc_app := s, cc_sessions := (cc_sessions ?c)[?k := \<lparr>rn_who = who, rn_task = Finished r\<rparr>]\<rparr>"
    by (intro run_session_advances) simp_all
  then have "snd (run (concurrent_step E) [Upgrade q fails, RunSession ?k] c) =
      c\<lparr>cc_app := s, cc_sessions := cc_sessions c @ [\<lparr>rn_who = who, rn_task = Finished r\<rparr>]\<rparr>"
    by simp
  moreover have "snd (gateway_step E (OpUpgrade q fails) g) =
      g\<lparr>gw_app := s, gw_sessions := gw_sessions g @ (case r of None \<Rightarrow> [] | Some session \<Rightarrow> [session])\<rparr>"
    using ended assms unfolding websocket_complete
    by (auto simp: matches_def split: prod.splits sum.splits)
  moreover obtain results where "map rn_task (cc_sessions c) = map Finished results"
      "map the (filter (\<lambda>r. r \<noteq> None) results) = gw_sessions g"
    using assms by (auto simp: matches_def)
  ultimately show ?thesis
    using assms unfolding matches_def
    by (auto simp: intro!: exI [of _ "results @ [r]"] split: option.split
        simp del: gateway_step.simps concurrent_step.simps)
qed

lemma filter_nth:
  "n < length (filter P xs) \<Longrightarrow>
     \<exists>ys zs. xs = ys @ filter P xs ! n # zs \<and> length (filter P ys) = n"
proof (induction xs arbitrary: n)
  case (Cons x xs)
  show ?case
  proof (cases "P x \<and> n = 0")
    case True
    then show ?thesis
      by (intro exI [of _ "[]"] exI [of _ xs]) simp
  next
    case False
    let ?m = "if P x then n - 1 else n"
    have m: "?m < length (filter P xs)" "filter P (x # xs) ! n = filter P xs ! ?m"
      using Cons.prems False by (auto simp: nth_Cons')
    from Cons.IH [OF m(1)] obtain ys zs where "xs = ys @ filter P xs ! ?m # zs" "length (filter P ys) = ?m"
      by blast
    then show ?thesis
      using False m(2) by (intro exI [of _ "x # ys"] exI [of _ zs]) auto
  qed
qed simp

lemma session_schedule:
  assumes m: "matches c g answers" and n: "n < length (gw_sessions g)"
  obtains k where "matches (snd (run (concurrent_step E) (Event k event # replicate 2 (RunSession k)) c))
    (snd (gateway_step E (OpSession n event) g)) answers"
proof -
  obtain results where results: "map rn_task (cc_sessions c) = map Finished results"
      "map the (filter (\<lambda>r. r \<noteq> None) results) = gw_sessions g"
    using m by (auto simp: matches_def)
  let ?P = "\<lambda>r :: ws_session option. r \<noteq> None"
  have len: "n < length (filter ?P results)"
    using n results(2) by (metis length_map)
  then have "filter ?P results ! n \<in> set (filter ?P results)"
    by (rule nth_mem)
  then obtain session where session: "filter ?P results ! n = Some session"
    by auto
  obtain ys zs where r: "results = ys @ Some session # zs" "length (filter ?P ys) = n"
    using filter_nth [OF len] unfolding session by blast
  have nth: "gw_sessions g ! n = session"
    using len session by (simp add: results(2) [symmetric])
  let ?k = "length ys" and ?t = "map_task Some (session_task event session)"
  have k: "?k < length (cc_sessions c)"
    using arg_cong [OF results(1), of length] by (simp add: r)
  then have "rn_task (cc_sessions c ! ?k) = Finished (Some session)"
    using arg_cong [OF results(1), of "\<lambda>ts. ts ! ?k"] by (simp add: r nth_append)
  let ?r = "(cc_sessions c ! ?k)\<lparr>rn_task := ?t\<rparr>"
  let ?c = "c\<lparr>cc_sessions := (cc_sessions c)[?k := ?r]\<rparr>"
  have event: "snd (concurrent_step E (Event ?k event) c) = ?c"
    using k \<open>rn_task (cc_sessions c ! ?k) = _\<close> by (simp del: session_task.simps)
  obtain session' s where step: "session_step event (session, cc_app c) = (session', s)"
    by fastforce
  then have "complete E ?t (cc_app c) = (Some session', s)"
    by (simp add: complete_map session_complete del: session_task.simps session_step.simps)
  then obtain who where "advances E 2 ?r (cc_app c) = (\<lparr>rn_who = who, rn_task = Finished (Some session')\<rparr>, s)"
    using advances_to_end [of 2 ?r E "cc_app c"] done_within_map [OF session_done, of Some event session]
    by (auto simp del: session_task.simps)
  then have "snd (run (concurrent_step E) (replicate 2 (RunSession ?k)) ?c) =
      ?c\<lparr>cc_app := s, cc_sessions := (cc_sessions ?c)[?k := \<lparr>rn_who = who, rn_task = Finished (Some session')\<rparr>]\<rparr>"
    using k by (intro run_session_advances) simp_all
  then have ran: "snd (run (concurrent_step E) (Event ?k event # replicate 2 (RunSession ?k)) c) =
      c\<lparr>cc_app := s, cc_sessions := (cc_sessions c)[?k := \<lparr>rn_who = who, rn_task = Finished (Some session')\<rparr>]\<rparr>"
    unfolding run_Cons_state event by simp
  have "map rn_task ((cc_sessions c)[?k := \<lparr>rn_who = who, rn_task = Finished (Some session')\<rparr>]) =
      map Finished (ys @ Some session' # zs)"
    using results(1) list_update_length [of "map Finished ys"] by (simp add: map_update r)
  moreover have "map the (filter (\<lambda>r. r \<noteq> None) (ys @ Some session' # zs)) = (gw_sessions g)[n := session']"
    using r by (auto simp: results(2) [symmetric] list_update_append)
  moreover have "snd (gateway_step E (OpSession n event) g) = g\<lparr>gw_app := s, gw_sessions := (gw_sessions g)[n := session']\<rparr>"
    using n nth step m by (simp add: matches_def del: session_step.simps)
  ultimately show thesis
    using m ran by (intro that [of ?k])
      (auto simp: matches_def simp del: gateway_step.simps concurrent_step.simps
        intro!: exI [of _ "ys @ Some session' # zs"])
qed

section \<open>Property\<close>

lemma step_schedule:
  assumes "matches c g answers"
  shows "\<exists>ops. matches (snd (run (concurrent_step E) ops c)) (snd (gateway_step E op g))
    (answers @ (if is_request op then [fst (gateway_step E op g)] else []))"
proof (cases "is_request op")
  case True
  show ?thesis
    unfolding if_P [OF True] by (rule exI) (rule request_schedule [OF assms True])
next
  case False
  then have same: "answers @ (if is_request op then [fst (gateway_step E op g)] else []) = answers"
    by simp
  consider (upgrade) q fails where "op = OpUpgrade q fails" | (session) n event where "op = OpSession n event"
    using False by (cases op) simp_all
  then show ?thesis
  proof cases
    case upgrade
    show ?thesis
      unfolding same unfolding upgrade by (rule exI) (rule upgrade_schedule [OF assms])
  next
    case (session n event)
    show ?thesis
    proof (cases "n < length (gw_sessions g)")
      case True
      obtain k where "matches (snd (run (concurrent_step E) (Event k event # replicate 2 (RunSession k)) c))
          (snd (gateway_step E (OpSession n event) g)) answers"
        by (rule session_schedule [OF assms True])
      then show ?thesis
        unfolding same unfolding session by (rule exI)
    next
      case False
      with assms show ?thesis
        unfolding same unfolding session by (intro exI [of _ "[]"]) simp
    qed
  qed
qed

text \<open>
  Handlers that run in one go are a schedule. For every run of the gateway in which each handler
  and each reaction of a session to an event is one step, there is an interleaving of calls that
  reaches the same state of every component, in which every request has got the same answer and the
  sessions are the same.
\<close>

theorem service_is_a_schedule:
  "\<exists>schedule.
     let c = snd (run (concurrent_step E) schedule concurrent_start);
         g = snd (run (gateway_step E) ops gateway_start);
         answers = map snd (filter (\<lambda>(op, answer). is_request op)
           (zip ops (fst (run (gateway_step E) ops gateway_start))))
     in cc_app c = gw_app g \<and> map rn_task (cc_requests c) = map Finished answers \<and>
        (\<exists>results. map rn_task (cc_sessions c) = map Finished results \<and>
           map the (filter (\<lambda>r. r \<noteq> None) results) = gw_sessions g)"
proof -
  have "\<exists>schedule. matches (snd (run (concurrent_step E) schedule c)) (snd (run (gateway_step E) ops g))
      (answers @ map snd (filter (\<lambda>(op, answer). is_request op) (zip ops (fst (run (gateway_step E) ops g)))))"
    if "matches c g answers" for c g answers
    using that
  proof (induction ops arbitrary: c g answers)
    case Nil
    then show ?case
      by (intro exI [of _ "[]"]) simp
  next
    case (Cons op ops)
    let ?g = "snd (gateway_step E op g)"
    obtain first where "matches (snd (run (concurrent_step E) first c)) ?g
        (answers @ (if is_request op then [fst (gateway_step E op g)] else []))"
      using step_schedule [OF Cons.prems] by blast
    from Cons.IH [OF this] obtain rest where
      "matches (snd (run (concurrent_step E) (first @ rest) c)) (snd (run (gateway_step E) ops ?g))
        ((answers @ (if is_request op then [fst (gateway_step E op g)] else [])) @
          map snd (filter (\<lambda>(op, answer). is_request op) (zip ops (fst (run (gateway_step E) ops ?g)))))"
      unfolding run_append_state by blast
    then show ?case
      by (intro exI [of _ "first @ rest"]) (simp split: if_splits del: gateway_step.simps concurrent_step.simps)
  qed
  from this [of concurrent_start gateway_start "[]"] show ?thesis
    by (simp add: matches_def concurrent_start_def gateway_start_def Let_def
        del: gateway_step.simps concurrent_step.simps)
qed

end
