(* ===== verification/Spec2Isabelle.thy ===== *)
theory Spec2Isabelle
  imports Transport Holding Polls Routes Restart Clients Exchange EndToEnd Schedules
begin

text \<open>
  A verification of the Rust code of the NEXA messenger: the cryptographic core under \<open>core/\<close> and
  the gateway under \<open>backend/\<close>.

  \<^bold>\<open>The program.\<close> Two devices establish a session from a published prekey bundle
  (\<open>core/session\<close>, with the keys and prekey stores of \<open>core/identity\<close>), ratchet message keys forward
  (\<open>core/ratchet\<close>, \<open>core/dh-ratchet\<close>), and exchange messages in the formats of \<open>core/protocol\<close>,
  \<open>core/transport\<close> and \<open>core/envelope\<close>; a device keeps its state in an encrypted journal
  (\<open>core/storage\<close> over the AEAD boundary of \<open>core/crypto\<close>). The gateway authenticates signed requests
  (\<open>auth.rs\<close>), stores messages for devices that are offline (\<open>relay.rs\<close>), publishes prekeys and hands
  out one-time prekeys (\<open>prekeys.rs\<close>), and serves HTTP requests and WebSocket sessions over these
  (\<open>main.rs\<close>).

  \<^bold>\<open>Shared theories.\<close>
  \<^item> \<open>Prelude\<close>: machine integers at their width, byte arrays \<open>'n arr\<close>, big-endian encodings,
    \<open>Ok\<close> and \<open>Err\<close> with \<open>and_then\<close>, sorted maps, and the record \<open>primitives\<close> of the cryptographic
    functions with the laws \<open>primitives_lawful\<close> that the code relies on.
  \<^item> \<open>Contracts\<close>: the interfaces as locales - codecs, machines with an invariant, tokens handed out
    once, operations that roll back, refinement, equivalence under a clock - each interpreted on the
    model in the theory of the component that provides it.

  \<^bold>\<open>The core.\<close>
  \<^item> \<open>Protocol\<close> (\<open>core/protocol/src/lib.rs\<close>), \<open>Transport\<close> (\<open>core/transport/src/lib.rs\<close>) and \<open>Envelope\<close>
    (\<open>core/envelope/src/lib.rs\<close>): constants, validation, codecs, the outbound queue. The lemmas show
    the codecs exact: a decoder accepts precisely the encodings of valid values, and which error it
    answers otherwise.
  \<^item> \<open>Ratchet\<close> (\<open>core/ratchet/src/lib.rs\<close>), \<open>Receive\<close> and \<open>Snapshot\<close> (\<open>core/ratchet/src/receive.rs\<close>),
    \<open>DhRatchet\<close> (\<open>core/dh-ratchet/src/lib.rs\<close>): the receiver refines an abstract replay window, accepts
    no number twice, decrypts what a sender sent in any order within the window, and is restored by
    its snapshots; both parties of the Diffie-Hellman ratchet derive the same chains.
  \<^item> \<open>Identity\<close> (\<open>core/identity/src/lib.rs\<close>), \<open>PrekeyStores\<close> (\<open>core/identity/src/prekeys.rs\<close>), \<open>Session\<close>
    (\<open>core/session/src/lib.rs\<close>): conservation of one-time prekeys, the grace period of signed ones,
    agreement of the two sides of a session, authenticity of an accepted initiation.
  \<^item> \<open>Storage\<close> with \<open>Decimal\<close> (\<open>core/storage/src/lib.rs\<close>, \<open>core/crypto/src/lib.rs\<close>): recovery of the newest
    readable record after any failures and interruptions of saves, before and after their rename;
    independence of journals; and the save that an interruption blocks for good. \<open>Restart\<close> puts
    snapshots and journal together: a device that restarts between deliveries answers like one that
    never does while its records are readable, and falls back to an older ratchet, without an error,
    when the newest is not.

  \<^bold>\<open>The gateway.\<close>
  \<^item> \<open>Relay\<close>, \<open>Auth\<close>, \<open>Registry\<close> (\<open>relay.rs\<close>, \<open>auth.rs\<close>, \<open>prekeys.rs\<close>): accounting, order and retention
    of queues; replay protection, rate limit and what an accepted request has proved; exclusive
    claims, permanent revocation, authentic publications. \<open>AuthReference\<close> shows that the guard, which
    forgets nonces and counts in windows, answers like a reference that never forgets. \<open>Clients\<close> is the
    signing of requests as the tests of \<open>auth.rs\<close> do it: which signed requests are accepted.
  \<^item> \<open>Connections\<close>, \<open>Gateway\<close> (\<open>main.rs\<close>): the registry of live connections with its hand-over
    discipline, alone and together with the bounded channel of a connection (\<open>live_step\<close>), which
    refuses what exceeds 256 waiting messages; the handlers, the messages of a WebSocket session, the session as a state machine
    with a phase for every place where it waits, and the checks of \<open>main\<close> before it listens.
  \<^item> \<open>Service\<close>, \<open>Delivery\<close>, \<open>Sessions\<close>: the gateway as one machine over the shared state, its operations
    reduced to operations of the components in the name of an authenticated device (the relation
    \<open>effect\<close>), the invariant of what it delivers, and the life of sessions within a run.
  \<^item> \<open>Tasks\<close>: every handler and session once more as a task, which makes one atomic call of a component
    at a time - a call per lock of the code - and goes on with the answer; an undisturbed task is the
    handler of \<open>Gateway\<close>. \<open>Concurrent\<close>: any number of requests and sessions, of which a step lets one
    make its next call; for each component a run is a run of that component, and every call is made
    in the name of a device that was authenticated before (\<open>entitled\<close>, \<open>named_in\<close>), but for the
    authentication and the public look-up of prekeys.
  \<^item> \<open>Dispatch\<close>, \<open>Holding\<close>, \<open>Polls\<close>, \<open>Setup\<close>, \<open>Races\<close>: what concurrent tasks deliver (\<open>tame\<close>), which
    task is responsible for a connection (\<open>minds\<close>), what polls answer (\<open>passes_on\<close>), how much of the
    set-up of a session is left (\<open>leaves_setup\<close>), and the message that reaches its recipient twice.
    \<open>Backlog\<close>: what a session sends of its backlog (\<open>sending\<close>) while other tasks run. \<open>Routes\<close>: the
    route table, the health document, and that each handler authenticates the path of its own route.
    The theorems of this theory follow from these.
  \<^item> \<open>Schedules\<close>: the machine of \<open>Service\<close> is a schedule of the one of \<open>Concurrent\<close> (\<open>matches\<close>).

  \<^bold>\<open>The whole.\<close> \<open>EndToEnd\<close> composes the parts: the root both sides of a session derive, the packets of
  the sending ratchet in messages bound to their envelopes, the relay and a session of the gateway
  among any other tasks, and the receiving ratchet, which decrypts every message of the conversation
  that the backlog holds. \<open>Exchange\<close> is what comes before it: prekeys published at the gateway, fetched and
  claimed there, pass every check of the initiator, and both sides agree on the root.

  \<^bold>\<open>Parameters.\<close> What the code takes from other crates is an argument of the definitions: HKDF, AEAD,
  X25519, Ed25519 and SHA-256; the serializers postcard and serde_json; the header map. Random
  bytes, both clocks, faults of the file system, failures of a socket and what a session receives from
  its channel are inputs; the channel of tokio itself is the argument \<open>mpsc\<close> of \<open>live_step\<close>. Laws about them are hypotheses of the theorems that need them, and
  every such theorem has a witness at concrete functions.

  \<^bold>\<open>Steps.\<close> Each operation of a component takes its lock once and is one step; the counter of \<open>register\<close>
  is read outside the lock, so registering is two. A step of the machine in \<open>Concurrent\<close> is one such
  call, and its theorems hold in every interleaving - also when a request is abandoned, which is a
  task that never makes its next call. The machine of \<open>Service\<close>, where a handler or the reaction of a
  session to an event is one step, is the schedule that lets every task finish before another one
  runs (\<open>service_is_a_schedule\<close>); the first section of this theory and \<open>session_delivers_backlog\<close> speak of it.
  These two, and that an undisturbed task is its handler, relate the models to each other; what the
  code does is stated on the components and on the machine of \<open>Concurrent\<close>. A session keeps its socket to itself, so its sends belong to the stretch between
  two calls. Integers keep their width, \<open>usize\<close> is a natural number with its checked and saturating
  operations at 64 bits; instants are natural numbers of nanoseconds.

  \<^bold>\<open>Recursion.\<close> Nothing needs fuel: loops are structural recursions, and the one that is not, the key
  search \<open>key_for_loop\<close>, ends because every round that goes on increases the counter, which is at
  most its target. A request makes at most three calls, a session event at most two, and the set-up
  of a session takes at most 260 events.

  \<^bold>\<open>Findings.\<close> \<open>two_gaps_prevent_snapshot\<close>, \<open>interrupted_save_blocks_journal\<close>,
  \<open>unreadable_record_rolls_back\<close>, \<open>request_replayable_after_ttl\<close>, \<open>claimed_prekey_reclaimable\<close>,
  \<open>path_id_parsing\<close> and \<open>late_send_repeats_backlog\<close> state where the code falls short of what it means
  to do or of its documents. \<open>concurrent_accepted_message_survives\<close> contradicts \<open>backend/README.md\<close>,
  which says that a poll drains the queue: the code keeps a message until it is acknowledged.

  \<^bold>\<open>Not modelled.\<close> Binding the listener and serving in \<open>main.rs\<close>, which are calls of tokio and axum
  without state of the program; how axum matches paths beyond what its documentation says of plain
  and \<open>{...}\<close> segments (\<open>fits\<close> in \<open>Routes\<close>), percent-decoding among it; the 15 seconds a hello may take, which
  only decide when the first message counts as missing; the erasure of keys on drop, which no
  function of the code can observe; the wallet crate, which declares one enumeration; the test
  modules; the clients under \<open>apps/\<close>, which are stubs in other languages.
\<close>

section \<open>The gateway when handlers run undisturbed\<close>

text \<open>
  Authority. Whatever an operation of the gateway does to the relay and to the prekey registry, it
  does in the name of the device it has authenticated - the device whose key signed the request, or
  whose session it is: a message is stored only for its sender, a queue is pulled and acknowledged
  only by its owner, a publication is replaced and revoked only by its device, a one-time prekey is
  claimed only for the claimant. An operation that authenticates no device changes neither. Each
  operation comes down to at most one operation of each component.
\<close>

theorem operations_act_for_their_device:
  "let s = gw_app g; s' = gw_app (snd (gateway_step E op g)) in
   case actor E op g of
     None \<Rightarrow> ap_relay s' = ap_relay s \<and> ap_prekeys s' = ap_prekeys s
   | Some d \<Rightarrow>
       (case relay_op_of E op g of
          None \<Rightarrow> ap_relay s' = ap_relay s
        | Some rop \<Rightarrow> ap_relay s' = snd (relay_step rop (ap_relay s)) \<and>
            (case rop of
               RPush now message \<Rightarrow> em_sender_device_id message = d
             | RPull now device \<Rightarrow> device = d
             | RAck device message_id \<Rightarrow> device = d)) \<and>
       (ap_prekeys s' = ap_prekeys s \<or>
        (\<exists>publication now. ap_prekeys s' =
           snd (PreKeyRegistry_publish (ge_primitives E) d publication now (ap_prekeys s))) \<or>
        (\<exists>generation now. ap_prekeys s' = snd (PreKeyRegistry_revoke d generation now (ap_prekeys s))) \<or>
        (\<exists>recipient generation key_id request now. ap_prekeys s' =
           snd (claim_opk recipient generation key_id d request now (ap_prekeys s))))"
proof -
  let ?s = "gw_app g" and ?s' = "gw_app (snd (gateway_step E op g))"
  have a: "authority (ge_primitives E) (actor E op g) (relay_op_of E op g) ?s ?s'"
    by (rule step_authority)
  show ?thesis
  proof (cases "actor E op g")
    case None
    with a show ?thesis by (simp add: authority_def by_relay_def)
  next
    case (Some d)
    have relay: "case relay_op_of E op g of
        None \<Rightarrow> ap_relay ?s' = ap_relay ?s
      | Some rop \<Rightarrow> ap_relay ?s' = snd (relay_step rop (ap_relay ?s)) \<and> relay_by d rop"
      using a Some by (auto simp: authority_def by_relay_def split: option.split)
    have named: "relay_by d rop = (case rop of RPush now message \<Rightarrow> em_sender_device_id message = d
        | RPull now device \<Rightarrow> device = d | RAck device message_id \<Rightarrow> device = d)" for rop
      by (cases rop) simp_all
    have "ap_prekeys ?s' = ap_prekeys ?s \<or>
        (\<exists>rop. registry_by d rop \<and> ap_prekeys ?s' = snd (registry_step (ge_primitives E) rop (ap_prekeys ?s)))"
      using a Some by (simp add: authority_def)
    then have "ap_prekeys ?s' = ap_prekeys ?s \<or>
        (\<exists>publication now. ap_prekeys ?s' =
           snd (PreKeyRegistry_publish (ge_primitives E) d publication now (ap_prekeys ?s))) \<or>
        (\<exists>generation now. ap_prekeys ?s' = snd (PreKeyRegistry_revoke d generation now (ap_prekeys ?s))) \<or>
        (\<exists>recipient generation key_id request now. ap_prekeys ?s' =
           snd (claim_opk recipient generation key_id d request now (ap_prekeys ?s)))"
    proof (elim disjE exE conjE)
      fix rop
      assume "registry_by d rop" "ap_prekeys ?s' = snd (registry_step (ge_primitives E) rop (ap_prekeys ?s))"
      then show ?thesis
        by (cases rop; simp; blast)
    qed simp
    with relay [unfolded named] Some show ?thesis
      by (simp add: Let_def)
  qed
qed

text \<open>
  Deliveries are authentic. After any run of requests and sessions, everything the gateway has sent
  on the socket of a device is a pong, a close, the device's own hello, or a well-formed frame that
  carries a message addressed to this device and accepted earlier in the run - and a message is
  accepted only from its authenticated sender. The hypothesis is what the code relies on of its
  channels: a session receives only messages that were sent on its own channel.
\<close>

theorem deliveries_are_authentic:
  assumes "channels_deliver E ops gateway_start"
  shows "let g = snd (run (gateway_step E) ops gateway_start);
       accepted = set (accepted_in E ops gateway_start)
   in list_all (\<lambda>session. list_all (\<lambda>sent.
        case sent of
          WsBinary bs \<Rightarrow>
            (case and_then (Frame_from_bytes bs) (\<lambda>f. and_then (Frame_kind f) (\<lambda>k. Ok (k, fr_payload f))) of
               Ok (ClientHello, payload) \<Rightarrow> payload = bytes (ss_device session)
             | Ok (Pong, payload) \<Rightarrow> True
             | Ok (EncryptedMessageFrame, payload) \<Rightarrow>
                 (case EncryptedMessage_decode payload of
                    Ok m \<Rightarrow> m \<in> accepted \<and> em_recipient_device_id m = ss_device session
                  | Err e \<Rightarrow> False)
             | _ \<Rightarrow> False)
        | WsPong bs \<Rightarrow> True
        | WsClose \<Rightarrow> True
        | _ \<Rightarrow> False) (so_sent (ss_socket session))) (gw_sessions g)"
proof -
  let ?g = "snd (run (gateway_step E) ops gateway_start)"
  let ?A = "set (accepted_in E ops gateway_start)"
  have "list_all (\<lambda>session. sends_ok ?A (ss_device session) (ss_socket session)) (gw_sessions ?g)"
    using run_start_inv [OF assms] by (auto simp: gateway_inv_def session_ok_def list_all_iff)
  then have "list_all (\<lambda>session. list_all (\<lambda>sent. delivery_ok ?A (ss_device session) sent)
      (so_sent (ss_socket session))) (gw_sessions ?g)"
    by (simp add: sends_ok_def)
  then show ?thesis
    unfolding Let_def list_all_iff by (blast dest: delivery_okD)
qed

theorem deliveries_are_authentic_witness:
  "let g = snd (run (gateway_step sample_env) (OpUpgrade sample_post (\<lambda>_. False) #
         map (OpSession 0) (sample_events @ [Outbound (Some sample_note)])) gateway_start);
       accepted = set (accepted_in sample_env (OpUpgrade sample_post (\<lambda>_. False) #
         map (OpSession 0) (sample_events @ [Outbound (Some sample_note)])) gateway_start)
   in list_all (\<lambda>session. list_all (\<lambda>sent.
        case sent of
          WsBinary bs \<Rightarrow>
            (case and_then (Frame_from_bytes bs) (\<lambda>f. and_then (Frame_kind f) (\<lambda>k. Ok (k, fr_payload f))) of
               Ok (ClientHello, payload) \<Rightarrow> payload = bytes (ss_device session)
             | Ok (Pong, payload) \<Rightarrow> True
             | Ok (EncryptedMessageFrame, payload) \<Rightarrow>
                 (case EncryptedMessage_decode payload of
                    Ok m \<Rightarrow> m \<in> accepted \<and> em_recipient_device_id m = ss_device session
                  | Err e \<Rightarrow> False)
             | _ \<Rightarrow> False)
        | WsPong bs \<Rightarrow> True
        | WsClose \<Rightarrow> True
        | _ \<Rightarrow> False) (so_sent (ss_socket session))) (gw_sessions g)"
  by (rule deliveries_are_authentic [OF sample_channels_deliver])

text \<open>
  Polls are private and in order. What a poll answers is a subsequence, in the order of acceptance,
  of the messages accepted so far for the very device that signed the poll.
\<close>

theorem polls_are_private:
  "case gateway_step E (OpPoll q device) (snd (run (gateway_step E) ops gateway_start)) of
     (AnsMessages (Ok messages), g') \<Rightarrow>
       (case actor E (OpPoll q device) (snd (run (gateway_step E) ops gateway_start)) of
          None \<Rightarrow> False
        | Some d \<Rightarrow> subseq messages
            (filter (\<lambda>m. em_recipient_device_id m = d) (accepted_in E ops gateway_start)))
   | _ \<Rightarrow> True"
proof -
  let ?g = "snd (run (gateway_step E) ops gateway_start)"
  have order: "subseq (fst (RelayStore_pull now d (ap_relay (gw_app ?g))))
      (filter (\<lambda>m. em_recipient_device_id m = d) (accepted_in E ops gateway_start))" for now d
  proof -
    have inv: "relay_inv (ap_relay (gw_app ?g))"
      by (rule run_relay_inv)
    have "subseq (fst (RelayStore_pull now d (ap_relay (gw_app ?g)))) (map sm_message (held d (ap_relay (gw_app ?g))))"
      by (simp add: pull_held [OF inv] subseq_map)
    also have "subseq \<dots> (filter (\<lambda>m. em_recipient_device_id m = d)
        (granted accepted_message (relay_trace E ops gateway_start)
           (fst (run relay_step (relay_trace E ops gateway_start) RelayStore_default))))"
      using run_messages [OF relay_inv_default, of d "relay_trace E ops gateway_start"]
      by (simp add: held_default run_relay_start)
    also have "granted accepted_message (relay_trace E ops gateway_start)
        (fst (run relay_step (relay_trace E ops gateway_start) RelayStore_default)) =
        accepted_in E ops gateway_start"
      using run_accepted [of E ops gateway_start] by simp
    finally show ?thesis .
  qed
  show ?thesis
  proof (cases rule: authorize_cases [of E q "''GET''" "''/v1/relay/'' @ device" "[]" "gw_app ?g"])
    case (granted d auth)
    show ?thesis
    proof (cases "hex_to_16 device")
      case (Returns id')
      with granted order show ?thesis
        by (cases id') (auto simp: poll_def actor_def case_prod_beta)
    qed (simp add: poll_def)
  next
    case (denied e auth)
    show ?thesis
    proof (cases "hex_to_16 device")
      case (Returns id')
      with denied show ?thesis
        by (cases id') (auto simp: poll_def)
    qed (simp add: poll_def)
  qed
qed

text \<open>
  Accepted messages survive. Once the gateway has accepted a message at time \<open>now\<close>, whatever
  requests and sessions follow, in any order, a pull for its recipient at any later time \<open>t\<close> before
  the seven days are over returns it, as long as no operation of the run acknowledges it - and by
  \<open>operations_act_for_their_device\<close> only the recipient's own operations can.
\<close>

theorem accepted_message_survives:
  assumes "g = snd (run (gateway_step E) before gateway_start)"
    and "relay_op_of E op g = Some (RPush now m)" and "accepted_by E op g = Some m"
    and "\<forall>rop \<in> set (relay_trace E after (snd (gateway_step E op g))).
      clock_before (u64_saturating_add now OFFLINE_TTL_MS) rop \<and>
      rop \<noteq> RAck (em_recipient_device_id m) (em_message_id m)"
    and "t < u64_saturating_add now OFFLINE_TTL_MS"
  shows "m \<in> set (fst (RelayStore_pull t (em_recipient_device_id m)
      (ap_relay (gw_app (snd (run (gateway_step E) after (snd (gateway_step E op g))))))))"
proof -
  have inv: "relay_inv (ap_relay (gw_app g))"
    unfolding assms(1) by (rule run_relay_inv)
  have "RelayStore_push now m (ap_relay (gw_app g)) = (Accepted, ap_relay (gw_app (snd (gateway_step E op g))))"
    using accepted_by_push [OF assms(2,3)] step_relay [of E op g] assms(2)
    by (simp add: by_relay_def prod_eq_iff)
  from pushed_message_survives [OF inv this assms(4,5)] show ?thesis
    by (simp only: run_relay)
qed

theorem accepted_message_survives_witness:
  "EncryptedMessage_new (fill 1) (fill 2) (fill 1) (fill 4) [5] [6] 1000 \<in>
     set (fst (RelayStore_pull 2000 (fill 4) (ap_relay (gw_app (snd (run (gateway_step sample_env)
       [OpUpgrade sample_post (\<lambda>_. False), OpSession 0 (FirstMessage None)]
       (snd (gateway_step sample_env (OpEnqueue sample_post) gateway_start))))))))"
proof -
  let ?after = "[OpUpgrade sample_post (\<lambda>_. False), OpSession 0 (FirstMessage None)]"
  have "relay_op_of sample_env (OpSession 0 (FirstMessage None)) g = None" for g
    by (cases "ss_phase (gw_sessions g ! 0)") simp_all
  then have trace: "relay_trace sample_env ?after g = []" for g
    by (simp del: relay_op_of.simps(8) gateway_step.simps)
  have "\<forall>rop \<in> set (relay_trace sample_env ?after (snd (gateway_step sample_env (OpEnqueue sample_post) gateway_start))).
      clock_before (u64_saturating_add 1000 OFFLINE_TTL_MS) rop \<and>
      rop \<noteq> RAck (fill 4) (fill 1)"
    by (simp only: trace) simp
  moreover have "(2000 :: u64) < u64_saturating_add 1000 OFFLINE_TTL_MS"
    by (simp add: u64_saturating_add_def OFFLINE_TTL_MS_def)
  moreover have "gateway_start = snd (run (gateway_step sample_env) [] gateway_start)"
    by simp
  ultimately show ?thesis
    using accepted_message_survives [of gateway_start sample_env "[]" "OpEnqueue sample_post" 1000 _ ?after 2000]
      sample_accepted
    by (simp add: EncryptedMessage_new_def del: gateway_step.simps relay_trace.simps relay_op_of.simps)
qed

text \<open>
  What the relay stores can be delivered. After any run, every message a pull returns is turned into
  a frame within the socket's limit, and the peer that parses the frame and decodes its payload
  gets the same message: only the network can make \<open>send_encrypted\<close> fail.
\<close>

theorem stored_messages_are_deliverable:
  "list_all (\<lambda>m. \<exists>bs f. send_encrypted m so = socket_send (WsBinary bs) so \<and>
       length bs \<le> WS_MAX_MESSAGE \<and> Frame_from_bytes bs = Ok f \<and>
       Frame_kind f = Ok EncryptedMessageFrame \<and> EncryptedMessage_decode (fr_payload f) = Ok m)
     (fst (RelayStore_pull now device (ap_relay (gw_app (snd (run (gateway_step E) ops gateway_start))))))"
proof -
  let ?relay = "ap_relay (gw_app (snd (run (gateway_step E) ops gateway_start)))"
  have inv: "relay_inv ?relay"
    by (rule run_relay_inv)
  then have "list_all valid_message (fst (RelayStore_pull now device ?relay))"
    using live_queue_ok [of ?relay device now]
    by (auto simp: pull_held live_queue_held queue_ok_def list_all_iff)
  then show ?thesis
  proof (rule list.pred_mono_strong)
    fix m
    assume "valid_message m"
    from send_encrypted_valid [OF this, of so]
    show "\<exists>bs f. send_encrypted m so = socket_send (WsBinary bs) so \<and>
       length bs \<le> WS_MAX_MESSAGE \<and> Frame_from_bytes bs = Ok f \<and>
       Frame_kind f = Ok EncryptedMessageFrame \<and> EncryptedMessage_decode (fr_payload f) = Ok m"
      by (auto simp: and_then_Ok)
  qed
qed

lemma components_well_formed:
  assumes "components_inv P g"
  shows "let s = gw_app g
   in pred_option (\<lambda>queue. length queue \<le> 256 \<and> distinct (map (em_message_id \<circ> sm_message) queue) \<and>
          list_all (\<lambda>stored. em_recipient_device_id (sm_message stored) = d \<and>
            valid_message (sm_message stored)) queue) (ri_queues (ap_relay s) d) \<and>
      pred_option (\<lambda>p. pb_device_id (pp_bundle p) = d \<and> verify_signature P p \<and>
          verify_signed_prekey P (pp_bundle p)) (rg_publications (ap_prekeys s) d) \<and>
      pred_option (\<lambda>state. length (cs_pending state) \<le> 256 \<and>
          (if cs_ready state then cs_pending state = [] else True)) (cr_inner (ap_connections s) d)"
proof -
  let ?s = "gw_app g"
  have inv: "relay_inv (ap_relay ?s)" "registry_inv P (ap_prekeys ?s)"
      "connections_inv (ap_connections ?s)"
    using assms by (simp_all add: components_inv_def)
  have "pred_option (queue_ok d) (ri_queues (ap_relay ?s) d)"
    using inv(1) by (cases "ri_queues (ap_relay ?s) d") (simp_all add: relay_inv_def)
  moreover have "pred_option (publication_ok P d) (rg_publications (ap_prekeys ?s) d)"
    using inv(2) by (cases "rg_publications (ap_prekeys ?s) d") (simp_all add: registry_inv_def)
  moreover have "pred_option (state_ok (cr_made (ap_connections ?s))) (cr_inner (ap_connections ?s) d)"
    using connections_invD(1) [OF inv(3), of d] by (cases "cr_inner (ap_connections ?s) d") simp_all
  ultimately show ?thesis
    unfolding Let_def
    by (cases "ri_queues (ap_relay ?s) d"; cases "rg_publications (ap_prekeys ?s) d";
        cases "cr_inner (ap_connections ?s) d")
      (auto simp: queue_ok_def publication_ok_def state_ok_def list_all_iff MAX_PER_DEVICE_def
        LIVE_CHANNEL_CAPACITY_def)
qed

text \<open>
  The state stays well formed. After any run of requests and sessions, whatever they carry, for
  every device: its queue holds at most 256 messages, valid, with distinct ids and all addressed to
  it; its publication names it, and both the signature of the publication and the one of its signed
  prekey verify; and its connection keeps at most 256 messages waiting, and none once it is ready.
\<close>

theorem gateway_state_well_formed:
  "let s = gw_app (snd (run (gateway_step E) ops gateway_start))
   in pred_option (\<lambda>queue. length queue \<le> 256 \<and> distinct (map (em_message_id \<circ> sm_message) queue) \<and>
          list_all (\<lambda>stored. em_recipient_device_id (sm_message stored) = d \<and>
            valid_message (sm_message stored)) queue) (ri_queues (ap_relay s) d) \<and>
      pred_option (\<lambda>p. pb_device_id (pp_bundle p) = d \<and> verify_signature (ge_primitives E) p \<and>
          verify_signed_prekey (ge_primitives E) (pp_bundle p)) (rg_publications (ap_prekeys s) d) \<and>
      pred_option (\<lambda>state. length (cs_pending state) \<le> 256 \<and>
          (if cs_ready state then cs_pending state = [] else True)) (cr_inner (ap_connections s) d)"
  using components_well_formed [OF gateway.run_inv [OF start_components_inv], of E ops d] .

section \<open>Properties of concurrent tasks\<close>

text \<open>
  C2. Deliveries are authentic, however the calls of requests and sessions are interleaved. Everything
  the gateway has sent on the socket of a session is a pong, a close, the session's own hello, or a
  well-formed frame that carries a message addressed to this device and accepted earlier in the run,
  whose sender is a device that was authenticated in the run. The hypothesis is what the code relies
  on of its channels: a session receives only messages that were sent on its own channel.
\<close>

theorem concurrent_deliveries_are_authentic:
  assumes "all_take_sent E ops concurrent_start"
  shows "let c = snd (run (concurrent_step E) ops concurrent_start);
       accepted = acceptances E ops concurrent_start
   in list_all (\<lambda>m. em_sender_device_id m \<in> set (authentications E ops concurrent_start)) accepted \<and>
      list_all (\<lambda>r. case rn_task r of
        Finished (Some session) \<Rightarrow> list_all (\<lambda>sent.
          case sent of
            WsBinary bs \<Rightarrow>
              (case and_then (Frame_from_bytes bs) (\<lambda>f. and_then (Frame_kind f) (\<lambda>k. Ok (k, fr_payload f))) of
                 Ok (ClientHello, payload) \<Rightarrow> payload = bytes (ss_device session)
               | Ok (Pong, payload) \<Rightarrow> True
               | Ok (EncryptedMessageFrame, payload) \<Rightarrow>
                   (case EncryptedMessage_decode payload of
                      Ok m \<Rightarrow> m \<in> set accepted \<and> em_recipient_device_id m = ss_device session
                    | Err e \<Rightarrow> False)
               | _ \<Rightarrow> False)
          | WsPong bs \<Rightarrow> True
          | WsClose \<Rightarrow> True
          | _ \<Rightarrow> False) (so_sent (ss_socket session))
      | _ \<Rightarrow> True) (cc_sessions c)"
proof -
  let ?c = "snd (run (concurrent_step E) ops concurrent_start)"
  let ?A = "set (acceptances E ops concurrent_start)"
  have "all_tame (ge_primitives E) ?A ?c"
    by (rule run_tame [OF start_tame order_refl assms])
  then obtain w where "list_all (\<lambda>r. tame ?A (sound_result ?A) (rn_task r) w) (cc_sessions ?c)"
    by (auto simp: all_tame_def)
  then have sent: "list_all (\<lambda>r. case rn_task r of
      Finished (Some session) \<Rightarrow> list_all (delivery_ok ?A (ss_device session)) (so_sent (ss_socket session))
    | _ \<Rightarrow> True) (cc_sessions ?c)"
    by (rule list_all_mono)
      (auto simp: sound_result_def sound_session_iff sends_ok_def split: task.split option.split)
  have "list_all (\<lambda>m. em_sender_device_id m \<in> set (authentications E ops concurrent_start))
      (acceptances E ops concurrent_start)"
    using acceptances_senders [OF start_entitled start_named, of "{}" E ops] by simp
  then show ?thesis
    unfolding Let_def
    by (rule conjI) (use sent in \<open>rule list_all_mono\<close>,
      auto simp: list_all_iff split: task.split option.split intro: delivery_okD)
qed

theorem concurrent_deliveries_are_authentic_witness:
  "let c = snd (run (concurrent_step sample_env) sample_ops concurrent_start);
       accepted = acceptances sample_env sample_ops concurrent_start
   in list_all (\<lambda>m. em_sender_device_id m \<in> set (authentications sample_env sample_ops concurrent_start)) accepted \<and>
      list_all (\<lambda>r. case rn_task r of
        Finished (Some session) \<Rightarrow> list_all (\<lambda>sent.
          case sent of
            WsBinary bs \<Rightarrow>
              (case and_then (Frame_from_bytes bs) (\<lambda>f. and_then (Frame_kind f) (\<lambda>k. Ok (k, fr_payload f))) of
                 Ok (ClientHello, payload) \<Rightarrow> payload = bytes (ss_device session)
               | Ok (Pong, payload) \<Rightarrow> True
               | Ok (EncryptedMessageFrame, payload) \<Rightarrow>
                   (case EncryptedMessage_decode payload of
                      Ok m \<Rightarrow> m \<in> set accepted \<and> em_recipient_device_id m = ss_device session
                    | Err e \<Rightarrow> False)
               | _ \<Rightarrow> False)
          | WsPong bs \<Rightarrow> True
          | WsClose \<Rightarrow> True
          | _ \<Rightarrow> False) (so_sent (ss_socket session))
      | _ \<Rightarrow> True) (cc_sessions c)"
  by (rule concurrent_deliveries_are_authentic [OF sample_ops_take_sent])

text \<open>
  C4. Authority, however the calls of requests and sessions are interleaved. Every call that any task
  makes of a component, but for the authentication itself and the public look-up of prekeys, is made
  in the name of a device that was authenticated earlier in the run: a
  message is stored and passed on only for its sender, a queue is pulled and acknowledged only by
  its owner, a publication is replaced and revoked only by its device, a one-time prekey is claimed
  only for the claimant, a connection is registered, activated and removed only by its device. A
  task authenticates at most once. The look-up (\<open>get_active\<close>, called by \<open>get_prekeys\<close>) is made without
  authentication, by a task that has authenticated nobody, and changes no component.
\<close>

theorem concurrent_calls_are_authorised:
  "case fst (concurrent_step E op (snd (run (concurrent_step E) ops concurrent_start))) of
     None \<Rightarrow> True
   | Some (who, call) \<Rightarrow>
       (case who of None \<Rightarrow> True | Some d \<Rightarrow> d \<in> set (authentications E ops concurrent_start)) \<and>
       (case call of
          CallAuth q method path body \<Rightarrow> who = None
        | CallRelay rop \<Rightarrow>
            (case rop of
               RPush now message \<Rightarrow> who = Some (em_sender_device_id message)
             | RPull now device \<Rightarrow> who = Some device
             | RAck device message_id \<Rightarrow> who = Some device)
        | CallRegistry rop \<Rightarrow>
            (case rop of
               RegPublish device publication now \<Rightarrow> who = Some device
             | RegRevoke device generation now \<Rightarrow> who = Some device
             | RegClaim recipient generation key_id claimant request now \<Rightarrow> who = Some claimant)
        | CallLookup device now \<Rightarrow>
            who = None \<and>
            cc_app (snd (concurrent_step E op (snd (run (concurrent_step E) ops concurrent_start)))) =
            cc_app (snd (run (concurrent_step E) ops concurrent_start))
        | CallConnection cop \<Rightarrow>
            (case cop of
               CRegister device \<Rightarrow> who = Some device
             | CNextId \<Rightarrow> who \<noteq> None
             | CInsert device connection_id \<Rightarrow> who = Some device
             | CUnregister device connection_id \<Rightarrow> who = Some device
             | CTrySend device message \<Rightarrow> who = Some (em_sender_device_id message) \<and>
                 em_recipient_device_id message = device
             | CActivate device connection_id delivered \<Rightarrow> who = Some device))"
proof -
  let ?c = "snd (run (concurrent_step E) ops concurrent_start)"
  have named: "all_named (set (authentications E ops concurrent_start)) ?c"
    using run_named [OF start_named, of "{}" E ops] by simp
  have "all_entitled ?c"
    by (rule concurrent.run_inv [OF start_entitled])
  then have entitled: "pred_option (\<lambda>(who, call). may_call who call) (fst (concurrent_step E op ?c))"
    using step_entitled by blast
  show ?thesis
  proof (cases "fst (concurrent_step E op ?c)")
    case (Some by_whom)
    then obtain who call where step: "fst (concurrent_step E op ?c) = Some (who, call)"
      by (cases by_whom) simp
    have "case who of None \<Rightarrow> True | Some d \<Rightarrow> d \<in> set (authentications E ops concurrent_start)"
      using call_named [OF named] step by (cases who) simp_all
    moreover have "may_call who call"
      using entitled step by simp
    moreover have "cc_app (snd (concurrent_step E op ?c)) = cc_app ?c" if "call = CallLookup device now" for device now
      using that step step_components [of E op ?c] by (simp add: component_steps_def)
    ultimately show ?thesis
      unfolding step
      by (cases who; cases call) (auto split: relay_op.split registry_op.split connection_op.split)
  qed simp
qed

text \<open>
  C3. Accepted messages survive, however the calls of requests and sessions are interleaved. Once a
  push has accepted a message at time \<open>now\<close>, whatever calls follow, a pull for its recipient at any
  time \<open>t\<close> before the seven days are over returns it, as long as none of these calls acknowledges
  it - and by \<open>concurrent_calls_are_authorised\<close> only a task of the recipient can make such a call.
  So polling does not drain the queue, as \<open>backend/README.md\<close> says it does: the message is returned
  after any number of polls.
\<close>

theorem concurrent_accepted_message_survives:
  assumes "c = snd (run (concurrent_step E) before concurrent_start)"
    and "concurrent_step E op c = (Some (who, CallRelay (RPush now m)), c')"
    and "fst (RelayStore_push now m (ap_relay (cc_app c))) = Accepted"
    and "\<forall>call \<in> set (calls E after c'). case relay_call call of
        None \<Rightarrow> True
      | Some rop \<Rightarrow> clock_before (u64_saturating_add now OFFLINE_TTL_MS) rop \<and>
          rop \<noteq> RAck (em_recipient_device_id m) (em_message_id m)"
    and "t < u64_saturating_add now OFFLINE_TTL_MS"
  shows "m \<in> set (fst (RelayStore_pull t (em_recipient_device_id m)
      (ap_relay (cc_app (snd (run (concurrent_step E) after c'))))))"
proof -
  let ?g = "ap_relay (cc_app c)" and ?g' = "ap_relay (cc_app c')"
  have "relay_inv (ap_relay AppState_default)"
    by (simp add: AppState_default_def relay_inv_default)
  then have inv: "relay_inv ?g"
    unfolding assms(1) run_components(1) by (intro relay.run_inv) (simp add: concurrent_start_def)
  have "?g' = snd (RelayStore_push now m ?g)"
    using step_components [of E op c] assms(2) by (simp add: component_steps_def)
  then have push: "RelayStore_push now m ?g = (Accepted, ?g')"
    using assms(3) by (simp add: prod_eq_iff)
  have "\<forall>rop \<in> set (List.map_filter relay_call (calls E after c')).
      clock_before (u64_saturating_add now OFFLINE_TTL_MS) rop \<and>
      rop \<noteq> RAck (em_recipient_device_id m) (em_message_id m)"
    using assms(4) by (auto simp: List.map_filter_def)
  with pushed_message_survives [OF inv push _ assms(5)] show ?thesis
    unfolding run_components(1) by blast
qed

lemma sample_push_reached:
  fixes m
  defines "m \<equiv> EncryptedMessage_new (fill 1) (fill 2) (fill 1) (fill 4) [5] [6] 1000"
  obtains auth where
    "snd (run (concurrent_step sample_env) [Arrive (OpEnqueue sample_post), RunRequest 0] concurrent_start) =
     \<lparr>cc_app = AppState_default\<lparr>ap_auth := auth\<rparr>,
      cc_requests = [\<lparr>rn_who = Some (fill 1), rn_task = AwaitPush 1000 m (after_push m)\<rparr>], cc_sessions = []\<rparr>"
proof -
  obtain s where auth: "authorize sample_env sample_post ''POST'' ''/v1/relay'' (hq_body sample_post) AppState_default =
      (Ok (fill 1), s)"
    using sample_authorize [of "''POST''" "''/v1/relay''"] by (auto simp: gateway_start_def prod_eq_iff)
  then have s: "s = AppState_default\<lparr>ap_auth := ap_auth s\<rparr>"
    by (auto simp: authorize_def split: prod.splits)
  have json: "ge_json_message sample_env (hq_body sample_post) = Some m" and sender: "em_sender_device_id m = fill 1"
    by (simp_all add: sample_env_def m_def EncryptedMessage_new_def)
  have now: "hq_now_ms sample_post = 1000"
    by (simp add: sample_post_def)
  have resume: "resume sample_env (enqueue_task sample_env sample_post) AppState_default = (AwaitPush 1000 m (after_push m), s)"
    using enqueue_authorized [OF auth json sender] by (simp add: now)
  have name: "authenticated_as sample_env (enqueue_task sample_env sample_post) AppState_default None = Some (fill 1)"
    using auth by (simp add: authenticated_as_def enqueue_task_def)
  show thesis
    by (rule that [of "ap_auth s"])
      (use s in \<open>simp add: concurrent_start_def spawn_def advance_def resume name\<close>)
qed

theorem concurrent_accepted_message_survives_witness:
  "EncryptedMessage_new (fill 1) (fill 2) (fill 1) (fill 4) [5] [6] 1000 \<in>
     set (fst (RelayStore_pull 2000 (fill 4) (ap_relay (cc_app (snd (run (concurrent_step sample_env)
       [Arrive (OpEnqueue sample_post), RunRequest 0, RunRequest 0, Upgrade sample_post (\<lambda>_. False), RunRequest 0, RunSession 0]
       concurrent_start))))))"
proof -
  let ?m = "EncryptedMessage_new (fill 1) (fill 2) (fill 1) (fill 4) [5] [6] 1000"
  let ?before = "[Arrive (OpEnqueue sample_post), RunRequest 0]"
  let ?after = "[Upgrade sample_post (\<lambda>_. False), RunRequest 0, RunSession 0]"
  obtain auth where reached: "snd (run (concurrent_step sample_env) ?before concurrent_start) =
     \<lparr>cc_app = AppState_default\<lparr>ap_auth := auth\<rparr>,
      cc_requests = [\<lparr>rn_who = Some (fill 1), rn_task = AwaitPush 1000 ?m (after_push ?m)\<rparr>], cc_sessions = []\<rparr>"
    (is "_ = ?c")
    by (rule sample_push_reached)
  have recipient: "em_recipient_device_id ?m = fill 4"
    by (simp add: EncryptedMessage_new_def)
  obtain g where push: "RelayStore_push 1000 ?m RelayStore_default = (Accepted, g)"
    using sample_accepted accepted_by_push [of sample_env "OpEnqueue sample_post" gateway_start 1000 ?m ?m]
    by (auto simp: gateway_start_def AppState_default_def prod_eq_iff)
  let ?c' = "\<lparr>cc_app = AppState_default\<lparr>ap_auth := auth, ap_relay := g\<rparr>,
      cc_requests = [\<lparr>rn_who = Some (fill 1), rn_task = AwaitTrySend (fill 4) ?m
        (\<lambda>_. Finished (AnsStatus (Ok ACCEPTED)))\<rparr>], cc_sessions = []\<rparr>"
  have default: "ap_relay AppState_default = RelayStore_default"
    by (simp add: AppState_default_def)
  have step: "concurrent_step sample_env (RunRequest 0) ?c = (Some (Some (fill 1), CallRelay (RPush 1000 ?m)), ?c')"
    using push by (simp add: advance_def call_by_def authenticated_as_def default after_push_def recipient)
  have pushed: "snd (run (concurrent_step sample_env) [RunRequest 0] ?c) = ?c'"
    unfolding run_Cons_state step by (simp only: run.simps(1) snd_conv)
  let ?session = "spawn (websocket_task sample_post \<lparr>so_sent = [], so_attempts = 0, so_fails = (\<lambda>_. False)\<rparr>)"
  let ?c1 = "?c'\<lparr>cc_sessions := [?session]\<rparr>"
  have first: "concurrent_step sample_env (Upgrade sample_post (\<lambda>_. False)) ?c' = (None, ?c1)"
    by simp
  obtain c2 where second: "concurrent_step sample_env (RunRequest 0) ?c1 =
      (Some (Some (fill 1), CallConnection (CTrySend (fill 4) ?m)), c2)" "cc_sessions c2 = [?session]"
    by (simp add: advance_def call_by_def case_prod_beta)
  have third: "fst (concurrent_step sample_env (RunSession 0) c2) = Some (None, CallAuth sample_post ''GET'' ''/v1/ws'' [])"
    using second(2) by (simp add: call_by_def spawn_def websocket_task_def case_prod_beta)
  have "List.map_filter relay_call (calls sample_env ?after ?c') = []"
    unfolding calls_simps first second(1) third fst_conv snd_conv by (simp add: List.map_filter_simps)
  then have after: "\<forall>call \<in> set (calls sample_env ?after ?c'). case relay_call call of
        None \<Rightarrow> True
      | Some rop \<Rightarrow> clock_before (u64_saturating_add 1000 OFFLINE_TTL_MS) rop \<and>
          rop \<noteq> RAck (em_recipient_device_id ?m) (em_message_id ?m)"
    by (auto simp: List.map_filter_def filter_empty_conv split: option.split)
  have "(2000 :: u64) < u64_saturating_add 1000 OFFLINE_TTL_MS"
    by (simp add: u64_saturating_add_def OFFLINE_TTL_MS_def)
  from concurrent_accepted_message_survives [OF reached [symmetric] step _ after this]
  have "?m \<in> set (fst (RelayStore_pull 2000 (fill 4) (ap_relay (cc_app (snd (run (concurrent_step sample_env) ?after ?c'))))))"
    using push by (simp only: recipient) (simp add: default)
  moreover have "snd (run (concurrent_step sample_env) (?before @ [RunRequest 0] @ ?after) concurrent_start) =
      snd (run (concurrent_step sample_env) ?after ?c')"
    unfolding run_append_state reached pushed ..
  ultimately show ?thesis
    by (simp only: append_Cons append_Nil)
qed

text \<open>
  Each component sees a sequential history. However the calls of requests and sessions are
  interleaved, the state of the relay, of the prekey registry, of the live connections and of the
  request guard is the one a run of this component alone reaches over the calls made of it, in the
  order they were made: what is proved of any sequence of operations of a component holds in the
  gateway.
\<close>

theorem components_see_sequential_histories:
  "let history = calls E ops concurrent_start;
       s = cc_app (snd (run (concurrent_step E) ops concurrent_start))
   in ap_relay s = snd (run relay_step (List.map_filter relay_call history) RelayStore_default) \<and>
      ap_prekeys s = snd (run (registry_step (ge_primitives E))
        (List.map_filter registry_call history) PreKeyRegistry_default) \<and>
      ap_connections s = snd (run connection_step
        (List.map_filter connection_call history) ConnectionRegistry_default) \<and>
      ap_auth s = snd (run (authenticate (ge_primitives E) (ge_sha256 E))
        (List.map_filter auth_call history) AuthState_default)"
  using run_components [of E ops concurrent_start]
  by (simp add: Let_def concurrent_start_def AppState_default_def)

text \<open>
  C21. The state stays well formed, however the calls of requests and sessions are interleaved and
  whatever they carry. For every device: its queue holds at most 256 messages, valid, with distinct
  ids and all addressed to it; its publication names it, and both the signature of the publication
  and the one of its signed prekey verify; and its connection keeps at most 256 messages waiting,
  and none once it is ready.
\<close>

theorem concurrent_state_well_formed:
  "let s = cc_app (snd (run (concurrent_step E) ops concurrent_start))
   in pred_option (\<lambda>queue. length queue \<le> 256 \<and> distinct (map (em_message_id \<circ> sm_message) queue) \<and>
          list_all (\<lambda>stored. em_recipient_device_id (sm_message stored) = d \<and>
            valid_message (sm_message stored)) queue) (ri_queues (ap_relay s) d) \<and>
      pred_option (\<lambda>p. pb_device_id (pp_bundle p) = d \<and> verify_signature (ge_primitives E) p \<and>
          verify_signed_prekey (ge_primitives E) (pp_bundle p)) (rg_publications (ap_prekeys s) d) \<and>
      pred_option (\<lambda>state. length (cs_pending state) \<le> 256 \<and>
          (if cs_ready state then cs_pending state = [] else True)) (cr_inner (ap_connections s) d)"
proof -
  have "components_inv (ge_primitives E)
      (gateway_start\<lparr>gw_app := cc_app (snd (run (concurrent_step E) ops concurrent_start))\<rparr>)"
    using start_components_inv [of "ge_primitives E"] unfolding components_inv_def gateway_start_def
    by (simp add: run_components concurrent_start_def relay.run_inv registry.run_inv connections.run_inv)
  from components_well_formed [OF this, of d] show ?thesis
    by simp
qed

end
